(* ===== verification/Prelude.thy ===== *)
theory Prelude
  imports Main "HOL-Library.Word"
begin

text \<open>
  Shared vocabulary of the development: run-time panics of Go as values, 64-bit counters
  (\<open>sync/atomic\<close> on \<open>uint64\<close>), slice expressions with their bounds checks, reachability of
  a step relation, and the interface of an inductive invariant.  Everything here is used by
  at least two components.
\<close>

section \<open>Go values\<close>

type_synonym u64 = "64 word"
type_synonym addr = nat
type_synonym tid = nat

text \<open>The run-time errors the modelled code can raise; \<open>Blocked\<close> stands for a goroutine that waits
  on a full channel (while it holds its locks).\<close>

datatype go_panic =
    NilDeref
  | IndexOutOfRange
  | SliceOutOfRange
  | DivideByZero
  | SendOnClosed
  | CloseOfClosed
  | LogFatal
  | RandPanic
  | ExplicitPanic
  | Blocked

type_synonym 'a go = "go_panic + 'a"

text \<open>The simplification rules that every component shares.\<close>

named_theorems go_simps \<open>evaluation rules for the Go primitives\<close>

definition go_bind :: "'a go \<Rightarrow> ('a \<Rightarrow> 'b go) \<Rightarrow> 'b go" where
  "go_bind m f = (case m of Inl e \<Rightarrow> Inl e | Inr a \<Rightarrow> f a)"

lemma go_bind_simps [simp, go_simps]:
  "go_bind (Inl e) f = Inl e"
  "go_bind (Inr a) f = f a"
  by (simp_all add: go_bind_def)

lemma go_bind_Inr_iff: "go_bind m f = Inr b \<longleftrightarrow> (\<exists>a. m = Inr a \<and> f a = Inr b)"
  by (cases m) auto

subsection \<open>Slices\<close>

text \<open>\<open>s[lo:hi]\<close> and \<open>s[lo:]\<close>, with the bounds check of the language (for a slice whose
  capacity is its length, which is the case at every use in the modelled code).\<close>

definition slice :: "'a list \<Rightarrow> int \<Rightarrow> int \<Rightarrow> 'a list go" where
  "slice xs lo hi =
     (if 0 \<le> lo \<and> lo \<le> hi \<and> hi \<le> int (length xs)
      then Inr (take (nat hi - nat lo) (drop (nat lo) xs)) else Inl SliceOutOfRange)"

definition slice_from :: "'a list \<Rightarrow> int \<Rightarrow> 'a list go" where
  "slice_from xs lo = slice xs lo (int (length xs))"

definition index :: "'a list \<Rightarrow> int \<Rightarrow> 'a go" where
  "index xs i = (if 0 \<le> i \<and> i < int (length xs) then Inr (xs ! nat i) else Inl IndexOutOfRange)"

lemma slice_ok [go_simps]:
  "lo \<le> hi \<Longrightarrow> hi \<le> length xs \<Longrightarrow> slice xs (int lo) (int hi) = Inr (take (hi - lo) (drop lo xs))"
  by (simp add: slice_def)

lemma slice_from_ok [go_simps]:
  "lo \<le> length xs \<Longrightarrow> slice_from xs (int lo) = Inr (drop lo xs)"
  by (simp add: slice_from_def slice_def)

lemma index_ok [go_simps]: "0 \<le> i \<Longrightarrow> i < int (length xs) \<Longrightarrow> index xs i = Inr (xs ! nat i)"
  by (simp add: index_def)

lemma index_Inr_iff: "index xs i = Inr x \<longleftrightarrow> 0 \<le> i \<and> i < int (length xs) \<and> x = xs ! nat i"
  by (auto simp: index_def)

section \<open>Reachability and inductive invariants\<close>

inductive reach :: "('s \<Rightarrow> bool) \<Rightarrow> ('s \<Rightarrow> 's \<Rightarrow> bool) \<Rightarrow> 's \<Rightarrow> bool"
  for init :: "'s \<Rightarrow> bool" and step :: "'s \<Rightarrow> 's \<Rightarrow> bool" where
  reach_init: "init s \<Longrightarrow> reach init step s"
| reach_step: "reach init step s \<Longrightarrow> step s t \<Longrightarrow> reach init step t"

lemma reach_steps: "step\<^sup>*\<^sup>* s t \<Longrightarrow> reach init step s \<Longrightarrow> reach init step t"
  by (induction rule: rtranclp_induct) (auto intro: reach_step)

text \<open>The contract of an inductive invariant of a step system: what a component discharges
  once per step rule, and what it gets for every reachable state.\<close>

locale inductive_invariant =
  fixes init :: "'s \<Rightarrow> bool" and step :: "'s \<Rightarrow> 's \<Rightarrow> bool" and inv :: "'s \<Rightarrow> bool"
  assumes init_inv: "init s \<Longrightarrow> inv s"
    and step_inv: "step s t \<Longrightarrow> inv s \<Longrightarrow> inv t"
begin

lemma reach_inv: "reach init step s \<Longrightarrow> inv s"
  by (induction rule: reach.induct) (auto intro: init_inv step_inv)

lemma steps_inv: "step\<^sup>*\<^sup>* s t \<Longrightarrow> inv s \<Longrightarrow> inv t"
  by (induction rule: rtranclp_induct) (auto intro: step_inv)

end

text \<open>The components are machines whose atomic steps are executable: \<open>act a s\<close> is the state
  after goroutine action \<open>a\<close>, or \<open>None\<close> where the action is not enabled (a blocked channel
  operation, a held lock).  The step relation and the runs are derived from it.\<close>

inductive act_step :: "('a \<Rightarrow> 's \<Rightarrow> 's option) \<Rightarrow> 's \<Rightarrow> 's \<Rightarrow> bool"
  for act :: "'a \<Rightarrow> 's \<Rightarrow> 's option" where
  act_stepI: "act a s = Some t \<Longrightarrow> act_step act s t"

inductive_cases act_stepE: "act_step act s t"

primrec run :: "('a \<Rightarrow> 's \<Rightarrow> 's option) \<Rightarrow> 'a list \<Rightarrow> 's \<Rightarrow> 's option" where
  "run act [] s = Some s"
| "run act (a # as) s = (case act a s of None \<Rightarrow> None | Some t \<Rightarrow> run act as t)"

lemma run_append: "run act (as @ bs) s = Option.bind (run act as s) (run act bs)"
  by (induction as arbitrary: s) (auto split: option.split)

lemma run_reach:
  "run act as s = Some t \<Longrightarrow> reach init (act_step act) s \<Longrightarrow> reach init (act_step act) t"
proof (induction as arbitrary: s)
  case (Cons a as)
  then obtain u where u: "act a s = Some u" "run act as u = Some t" by (auto split: option.splits)
  with Cons.prems(2) have "reach init (act_step act) u" by (blast intro: reach_step act_stepI)
  with u(2) show ?case by (rule Cons.IH)
qed simp

lemma run_from: "run act as s = Some t \<Longrightarrow> reach (\<lambda>r. r = s) (act_step act) t"
  by (erule run_reach) (simp add: reach_init)

lemma run_from_init: "init s \<Longrightarrow> run act as s = Some t \<Longrightarrow> reach init (act_step act) t"
  by (blast intro: run_reach reach_init)

lemma reach_run:
  "reach init (act_step act) t \<Longrightarrow> \<exists>s as. init s \<and> run act as s = Some t"
proof (induction rule: reach.induct)
  case (reach_init s)
  then show ?case by (intro exI [of _ s] exI [of _ "[]"]) simp
next
  case (reach_step s t)
  from reach_step.IH obtain r as where r: "init r" "run act as r = Some s" by blast
  from reach_step.hyps(2) obtain a where "act a s = Some t" by (auto elim: act_stepE)
  with r show ?case by (intro exI [of _ r] exI [of _ "as @ [a]"]) (simp add: run_append)
qed

locale machine_invariant =
  fixes init :: "'s \<Rightarrow> bool" and act :: "'a \<Rightarrow> 's \<Rightarrow> 's option" and inv :: "'s \<Rightarrow> bool"
  assumes start_inv: "init s \<Longrightarrow> inv s"
    and act_inv: "act a s = Some t \<Longrightarrow> inv s \<Longrightarrow> inv t"

sublocale machine_invariant \<subseteq> inductive_invariant init "act_step act" inv
  by unfold_locales (auto elim: act_stepE intro: start_inv act_inv)

text \<open>The contract of a forward simulation: every step of the detailed system is a sequence of steps of the abstract one,
  from related states to related states.\<close>

locale forward_simulation =
  fixes cstep :: "'s \<Rightarrow> 's \<Rightarrow> bool" and astep :: "'a \<Rightarrow> 'a \<Rightarrow> bool" and rel :: "'s \<Rightarrow> 'a \<Rightarrow> bool"
  assumes simulates: "rel s a \<Longrightarrow> cstep s t \<Longrightarrow> \<exists>b. astep\<^sup>*\<^sup>* a b \<and> rel t b"
begin

lemma steps_simulated: "cstep\<^sup>*\<^sup>* s t \<Longrightarrow> rel s a \<Longrightarrow> \<exists>b. astep\<^sup>*\<^sup>* a b \<and> rel t b"
proof (induction rule: rtranclp_induct)
  case (step t u)
  then obtain b where b: "astep\<^sup>*\<^sup>* a b" "rel t b" by blast
  from simulates [OF b(2) step.hyps(2)] b(1) show ?case by (blast intro: rtranclp_trans)
qed blast

lemma reach_simulated:
  assumes "reach init cstep t" and "\<And>s. init s \<Longrightarrow> \<exists>a. ainit a \<and> rel s a"
  shows "\<exists>b. reach ainit astep b \<and> rel t b"
  using assms(1)
proof (induction rule: reach.induct)
  case (reach_init s)
  then show ?case using assms(2) by (blast intro: reach.reach_init)
next
  case (reach_step s t)
  then obtain a b where "reach ainit astep a" "astep\<^sup>*\<^sup>* a b" "rel t b" using simulates by blast
  then show ?case by (blast intro: reach_steps)
qed

end

section \<open>Generic lemmas\<close>

lemma distinct_bounded_length:
  fixes xs :: "nat list"
  assumes "distinct xs" and "\<forall>x \<in> set xs. x < n"
  shows "length xs \<le> n"
proof -
  have "set xs \<subseteq> {..<n}" using assms(2) by auto
  then have "card (set xs) \<le> n" using card_mono [of "{..<n}" "set xs"] by simp
  with assms(1) show ?thesis by (simp add: distinct_card)
qed

end
