(* ===== verification/GoQueue.thy ===== *)
theory GoQueue
  imports Prelude
begin

text \<open>
  \<^verbatim>\<open>lab0/queue.go\<close>: the singly linked FIFO queue \<open>Queue[T]\<close> on an explicit heap, and
  \<open>ConcurrentQueue[T]\<close>, the same queue behind a mutex, as a step relation over goroutines.
  The interface is the locale \<open>fifo_queue\<close>; it is interpreted on the pointer code.
\<close>

section \<open>The linked queue on the heap\<close>

record 'a node =
  "value" :: 'a
  "next" :: "addr option"

text \<open>The Go heap of nodes, with the next unused address.\<close>

record 'a store =
  cells :: "addr \<rightharpoonup> 'a node"
  brk :: addr

record Queue =
  head :: "addr option"
  tail :: "addr option"

definition NewQueue :: Queue where
  "NewQueue = \<lparr>head = None, tail = None\<rparr>"

definition empty_store :: "'a store" where
  "empty_store = \<lparr>cells = Map.empty, brk = 0\<rparr>"

text \<open>\<open>&node[T]{...}\<close>.\<close>

definition alloc :: "'a node \<Rightarrow> 'a store \<Rightarrow> addr \<times> 'a store" where
  "alloc n st = (brk st, \<lparr>cells = (cells st)(brk st \<mapsto> n), brk = Suc (brk st)\<rparr>)"

definition Queue_Push :: "'a \<Rightarrow> 'a store \<times> Queue \<Rightarrow> ('a store \<times> Queue) go" where
  "Queue_Push t sq = (case sq of (st, q) \<Rightarrow>
     (case alloc \<lparr>value = t, next = None\<rparr> st of (newNode, st1) \<Rightarrow>
       (case tail q of
          None \<Rightarrow> Inr (st1, q\<lparr>head := Some newNode, tail := Some newNode\<rparr>)
        | Some a \<Rightarrow>
            (case cells st1 a of
               None \<Rightarrow> Inl NilDeref
             | Some n \<Rightarrow>
                 Inr (st1\<lparr>cells := (cells st1)(a \<mapsto> n\<lparr>next := Some newNode\<rparr>)\<rparr>,
                      q\<lparr>tail := Some newNode\<rparr>)))))"

definition Queue_Pop :: "'a \<Rightarrow> 'a store \<times> Queue \<Rightarrow> (('a store \<times> Queue) \<times> 'a \<times> bool) go" where
  "Queue_Pop zero sq = (case sq of (st, q) \<Rightarrow>
     (case head q of
        None \<Rightarrow> Inr ((st, q), zero, False)
      | Some a \<Rightarrow>
          (case cells st a of
             None \<Rightarrow> Inl NilDeref
           | Some n \<Rightarrow>
               (let q1 = q\<lparr>head := next n\<rparr>;
                    q2 = (if head q1 = None then q1\<lparr>tail := None\<rparr> else q1)
                in Inr ((st, q2), value n, True)))))"

subsection \<open>Abstraction and representation invariant\<close>

primrec chain :: "(addr \<rightharpoonup> 'a node) \<Rightarrow> addr option \<Rightarrow> addr list \<Rightarrow> bool" where
  "chain h p [] \<longleftrightarrow> p = None"
| "chain h p (a # as) \<longleftrightarrow> p = Some a \<and> (\<exists>n. h a = Some n \<and> chain h (next n) as)"

text \<open>The values met on the way from a pointer, following at most \<open>fuel\<close> links.\<close>

fun walk :: "nat \<Rightarrow> (addr \<rightharpoonup> 'a node) \<Rightarrow> addr option \<Rightarrow> 'a list" where
  "walk 0 h p = []"
| "walk (Suc fuel) h p =
     (case p of None \<Rightarrow> []
      | Some a \<Rightarrow> (case h a of None \<Rightarrow> [] | Some n \<Rightarrow> value n # walk fuel h (next n)))"

definition contents :: "'a store \<times> Queue \<Rightarrow> 'a list" where
  "contents sq = walk (brk (fst sq)) (cells (fst sq)) (head (snd sq))"

definition queue_chain :: "'a store \<Rightarrow> Queue \<Rightarrow> addr list \<Rightarrow> bool" where
  "queue_chain st q as \<longleftrightarrow>
     chain (cells st) (head q) as \<and> distinct as \<and> (\<forall>a \<in> set as. a < brk st) \<and>
     tail q = (if as = [] then None else Some (last as))"

definition queue_inv :: "'a store \<times> Queue \<Rightarrow> bool" where
  "queue_inv sq \<longleftrightarrow> (\<exists>as. queue_chain (fst sq) (snd sq) as)"

lemma chain_frame:
  "chain h p as \<Longrightarrow> \<forall>a \<in> set as. h' a = h a \<Longrightarrow> chain h' p as"
  by (induction as arbitrary: p) auto

lemma chain_extend:
  assumes "chain h p (as @ [a])" and "h a = Some n" and "distinct (as @ [a])"
    and "b \<notin> set (as @ [a])"
  shows "chain (h(b \<mapsto> \<lparr>value = v, next = None\<rparr>, a \<mapsto> n\<lparr>next := Some b\<rparr>)) p ((as @ [a]) @ [b])"
  using assms
proof (induction as arbitrary: p)
  case Nil
  then show ?case by auto
next
  case (Cons x xs)
  then obtain m where "p = Some x" "h x = Some m" "chain h (next m) (xs @ [a])" by auto
  with Cons show ?case by auto
qed

lemma walk_chain:
  "chain h p as \<Longrightarrow> length as \<le> fuel \<Longrightarrow> walk fuel h p = map (\<lambda>a. value (the (h a))) as"
proof (induction as arbitrary: p fuel)
  case Nil
  then show ?case by (cases fuel) auto
next
  case (Cons a as)
  then show ?case by (cases fuel) auto
qed

lemma contents_chain:
  assumes "queue_chain st q as"
  shows "contents (st, q) = map (\<lambda>a. value (the (cells st a))) as"
  using assms distinct_bounded_length [of as "brk st"]
  by (auto simp: contents_def queue_chain_def intro: walk_chain)

subsection \<open>The operations on well-formed queues\<close>

lemma queue_inv_new: "queue_inv (empty_store, NewQueue)"
  unfolding queue_inv_def by (rule exI [of _ "[]"]) (simp add: queue_chain_def NewQueue_def)

lemma contents_new: "contents (empty_store, NewQueue) = []"
  by (simp add: contents_def empty_store_def)

lemma chain_cell: "chain h p as \<Longrightarrow> a \<in> set as \<Longrightarrow> \<exists>n. h a = Some n"
  by (induction as arbitrary: p) auto

lemma Queue_Push_empty:
  assumes "queue_chain st q []"
  shows "\<exists>st' q'. Queue_Push t (st, q) = Inr (st', q') \<and> queue_chain st' q' [brk st] \<and>
           contents (st', q') = contents (st, q) @ [t]"
proof -
  let ?st = "\<lparr>cells = (cells st)(brk st \<mapsto> \<lparr>value = t, next = None\<rparr>), brk = Suc (brk st)\<rparr>"
  let ?q = "q\<lparr>head := Some (brk st), tail := Some (brk st)\<rparr>"
  have eq: "Queue_Push t (st, q) = Inr (?st, ?q)"
    using assms by (simp add: Queue_Push_def alloc_def queue_chain_def)
  have ch: "queue_chain ?st ?q [brk st]" by (simp add: queue_chain_def)
  with eq show ?thesis using contents_chain [OF ch] contents_chain [OF assms] by simp
qed

lemma Queue_Push_snoc:
  assumes "queue_chain st q (as @ [a])"
  shows "\<exists>st' q'. Queue_Push t (st, q) = Inr (st', q') \<and> queue_chain st' q' ((as @ [a]) @ [brk st]) \<and>
           contents (st', q') = contents (st, q) @ [t]"
proof -
  let ?b = "brk st" and ?h = "cells st"
  from assms have ch: "chain ?h (head q) (as @ [a])" and d: "distinct (as @ [a])"
    and lt: "\<forall>x \<in> set (as @ [a]). x < ?b" and tl: "tail q = Some a"
    by (auto simp: queue_chain_def)
  obtain n where n: "?h a = Some n" using chain_cell [OF ch, of a] by auto
  let ?h' = "?h(?b \<mapsto> \<lparr>value = t, next = None\<rparr>, a \<mapsto> n\<lparr>next := Some ?b\<rparr>)"
  let ?st = "\<lparr>cells = ?h', brk = Suc ?b\<rparr>" and ?q = "q\<lparr>tail := Some ?b\<rparr>"
  from lt have ne: "a \<noteq> ?b" by auto
  have eq: "Queue_Push t (st, q) = Inr (?st, ?q)"
    using n ne tl by (simp add: Queue_Push_def alloc_def)
  have "?b \<notin> set (as @ [a])" using lt by auto
  then have "chain ?h' (head q) ((as @ [a]) @ [?b])" using chain_extend [OF ch n d] by simp
  then have ch': "queue_chain ?st ?q ((as @ [a]) @ [?b])"
    using d lt by (auto simp: queue_chain_def)
  have "map (\<lambda>x. value (the (?h' x))) (as @ [a]) = map (\<lambda>x. value (the (?h x))) (as @ [a])"
    using n lt by auto
  then show ?thesis
    using eq ch' contents_chain [OF ch'] contents_chain [OF assms] ne by auto
qed

lemma Queue_Push_spec:
  assumes "queue_inv sq"
  shows "\<exists>sq'. Queue_Push t sq = Inr sq' \<and> queue_inv sq' \<and> contents sq' = contents sq @ [t]"
proof -
  obtain st q where sq: "sq = (st, q)" by (cases sq)
  from assms obtain as where "queue_chain st q as" by (auto simp: queue_inv_def sq)
  then show ?thesis
  proof (cases as rule: rev_cases)
    case Nil
    with \<open>queue_chain st q as\<close> Queue_Push_empty [of st q t] show ?thesis
      by (auto simp: sq queue_inv_def)
  next
    case (snoc bs b)
    with \<open>queue_chain st q as\<close> Queue_Push_snoc [of st q bs b t] show ?thesis
      unfolding sq queue_inv_def by (metis fst_conv snd_conv)
  qed
qed

lemma Queue_Pop_spec:
  assumes "queue_inv sq"
  shows "\<exists>sq'. Queue_Pop zero sq =
           Inr (sq', (case contents sq of [] \<Rightarrow> (zero, False) | x # _ \<Rightarrow> (x, True))) \<and>
           queue_inv sq' \<and> contents sq' = tl (contents sq)"
proof -
  obtain st q where sq: "sq = (st, q)" by (cases sq)
  from assms obtain as where ch: "queue_chain st q as" by (auto simp: queue_inv_def sq)
  note c = contents_chain [OF ch]
  show ?thesis
  proof (cases as)
    case Nil
    with ch c show ?thesis
      by (auto simp: sq Queue_Pop_def queue_chain_def queue_inv_def)
  next
    case (Cons a bs)
    with ch obtain n where n: "cells st a = Some n" and hd: "head q = Some a"
      and tl: "chain (cells st) (next n) bs" by (auto simp: queue_chain_def)
    let ?q1 = "q\<lparr>head := next n\<rparr>"
    let ?q2 = "if next n = None then ?q1\<lparr>tail := None\<rparr> else ?q1"
    have eq: "Queue_Pop zero sq = Inr ((st, ?q2), value n, True)"
      using n hd by (simp add: sq Queue_Pop_def Let_def)
    have "next n = None \<longleftrightarrow> bs = []" using tl by (cases bs) auto
    then have ch2: "queue_chain st ?q2 bs" using ch tl Cons by (auto simp: queue_chain_def)
    with eq c n Cons show ?thesis
      using contents_chain [OF ch2] by (auto simp: sq queue_inv_def)
  qed
qed

section \<open>The interface of a FIFO queue\<close>

datatype 'a qop = Push 'a | Pop

text \<open>What the interface promises on the list of elements: \<open>Push\<close> appends, \<open>Pop\<close> takes the
  first element, or returns the zero value and \<open>false\<close> on the empty queue.\<close>

fun fifo_step :: "'a \<Rightarrow> 'a qop \<Rightarrow> 'a list \<Rightarrow> 'a list \<times> ('a \<times> bool) option" where
  "fifo_step zero (Push x) xs = (xs @ [x], None)"
| "fifo_step zero Pop [] = ([], Some (zero, False))"
| "fifo_step zero Pop (x # xs) = (xs, Some (x, True))"

fun fifo_run :: "'a \<Rightarrow> 'a qop list \<Rightarrow> 'a list \<Rightarrow> 'a list \<times> ('a \<times> bool) option list" where
  "fifo_run zero [] xs = (xs, [])"
| "fifo_run zero (op # ops) xs =
     (case fifo_step zero op xs of (xs', r) \<Rightarrow>
       (case fifo_run zero ops xs' of (ys, rs) \<Rightarrow> (ys, r # rs)))"

text \<open>A client program: a sequence of calls against any implementation.\<close>

fun queue_call :: "('a \<Rightarrow> 'q \<Rightarrow> 'q go) \<Rightarrow> ('q \<Rightarrow> ('q \<times> 'a \<times> bool) go) \<Rightarrow> 'a qop \<Rightarrow> 'q
    \<Rightarrow> ('q \<times> ('a \<times> bool) option) go" where
  "queue_call push pop (Push x) q = go_bind (push x q) (\<lambda>q'. Inr (q', None))"
| "queue_call push pop Pop q = go_bind (pop q) (\<lambda>(q', r). Inr (q', Some r))"

fun queue_calls :: "('a \<Rightarrow> 'q \<Rightarrow> 'q go) \<Rightarrow> ('q \<Rightarrow> ('q \<times> 'a \<times> bool) go) \<Rightarrow> 'a qop list \<Rightarrow> 'q
    \<Rightarrow> ('q \<times> ('a \<times> bool) option list) go" where
  "queue_calls push pop [] q = Inr (q, [])"
| "queue_calls push pop (op # ops) q =
     go_bind (queue_call push pop op q) (\<lambda>(q', r).
       go_bind (queue_calls push pop ops q') (\<lambda>(q'', rs). Inr (q'', r # rs)))"

locale fifo_queue =
  fixes push :: "'a \<Rightarrow> 'q \<Rightarrow> 'q go" and pop :: "'q \<Rightarrow> ('q \<times> 'a \<times> bool) go"
    and zero :: 'a and elems :: "'q \<Rightarrow> 'a list" and invar :: "'q \<Rightarrow> bool"
  assumes push_law: "invar q \<Longrightarrow> \<exists>q'. push x q = Inr q' \<and> invar q' \<and> elems q' = elems q @ [x]"
    and pop_law: "invar q \<Longrightarrow>
      \<exists>q'. pop q = Inr (q', (case elems q of [] \<Rightarrow> (zero, False) | x # _ \<Rightarrow> (x, True))) \<and>
           invar q' \<and> elems q' = tl (elems q)"
begin

lemma call_refines:
  assumes "invar q"
  shows "\<exists>q' r. queue_call push pop op q = Inr (q', r) \<and> invar q' \<and>
           fifo_step zero op (elems q) = (elems q', r)"
proof (cases op)
  case (Push x)
  with push_law [OF assms, of x] show ?thesis by auto
next
  case Pop
  with pop_law [OF assms] show ?thesis by (cases "elems q") auto
qed

lemma calls_refine:
  assumes "invar q"
  shows "\<exists>q' rs. queue_calls push pop ops q = Inr (q', rs) \<and> invar q' \<and>
           fifo_run zero ops (elems q) = (elems q', rs)"
  using assms
proof (induction ops arbitrary: q)
  case Nil
  then show ?case by simp
next
  case (Cons op ops)
  from call_refines [OF Cons.prems, of op] obtain q1 r where
    1: "queue_call push pop op q = Inr (q1, r)" "invar q1"
       "fifo_step zero op (elems q) = (elems q1, r)" by auto
  from Cons.IH [OF 1(2)] show ?case using 1 by auto
qed

end

interpretation lq: fifo_queue Queue_Push "Queue_Pop zero" zero contents queue_inv
  for zero :: 'a
  by unfold_locales (rule Queue_Push_spec Queue_Pop_spec, assumption)+

text \<open>
  C9. Any sequence of \<open>Push\<close> and \<open>Pop\<close> calls on a fresh linked queue runs without a nil
  dereference and returns exactly what a FIFO list returns for the same calls.
\<close>

theorem Queue_refines_fifo:
  "\<exists>sq rs. queue_calls Queue_Push (Queue_Pop zero) ops (empty_store, NewQueue) = Inr (sq, rs) \<and>
     fifo_run zero ops [] = (contents sq, rs)"
  using lq.calls_refine [OF queue_inv_new, of zero ops] by (auto simp: contents_new)

section \<open>The concurrent queue\<close>

text \<open>Where a goroutine is inside a call: before \<open>q.mutex.Lock()\<close>, holding the lock before
  the body, or holding it with the result computed and the deferred \<open>Unlock\<close> pending.\<close>

datatype 'a cq_pc =
    CqIdle
  | CqWant "'a qop"
  | CqLocked "'a qop"
  | CqDone "'a qop" "('a \<times> bool) option"

text \<open>The last field is a history variable: the calls in the order of their critical
  sections, with the values they return.\<close>

record 'a ConcurrentQueue =
  mutex :: "tid option"
  queue :: "'a store \<times> Queue"
  cq_pcs :: "tid \<Rightarrow> 'a cq_pc"
  cq_log :: "('a qop \<times> ('a \<times> bool) option) list"

definition NewConcurrentQueue :: "'a ConcurrentQueue" where
  "NewConcurrentQueue =
     \<lparr>mutex = None, queue = (empty_store, NewQueue), cq_pcs = (\<lambda>_. CqIdle), cq_log = []\<rparr>"

datatype 'a cq_act = CqCall tid "'a qop" | CqLock tid | CqBody tid | CqUnlock tid

fun ConcurrentQueue_act :: "'a \<Rightarrow> 'a cq_act \<Rightarrow> 'a ConcurrentQueue \<Rightarrow> 'a ConcurrentQueue option" where
  "ConcurrentQueue_act zero (CqCall i op) s =
     (if cq_pcs s i = CqIdle then Some (s\<lparr>cq_pcs := (cq_pcs s)(i := CqWant op)\<rparr>) else None)"
| "ConcurrentQueue_act zero (CqLock i) s =
     (case cq_pcs s i of
        CqWant op \<Rightarrow>
          (if mutex s = None
           then Some (s\<lparr>mutex := Some i, cq_pcs := (cq_pcs s)(i := CqLocked op)\<rparr>) else None)
      | _ \<Rightarrow> None)"
| "ConcurrentQueue_act zero (CqBody i) s =
     (case cq_pcs s i of
        CqLocked op \<Rightarrow>
          (case queue_call Queue_Push (Queue_Pop zero) op (queue s) of
             Inl _ \<Rightarrow> None
           | Inr (q', r) \<Rightarrow>
               Some (s\<lparr>queue := q', cq_pcs := (cq_pcs s)(i := CqDone op r),
                       cq_log := cq_log s @ [(op, r)]\<rparr>))
      | _ \<Rightarrow> None)"
| "ConcurrentQueue_act zero (CqUnlock i) s =
     (case cq_pcs s i of
        CqDone op r \<Rightarrow> Some (s\<lparr>mutex := None, cq_pcs := (cq_pcs s)(i := CqIdle)\<rparr>)
      | _ \<Rightarrow> None)"

fun in_critical :: "'a cq_pc \<Rightarrow> bool" where
  "in_critical (CqLocked op) = True"
| "in_critical (CqDone op r) = True"
| "in_critical _ = False"

definition cq_inv :: "'a \<Rightarrow> 'a ConcurrentQueue \<Rightarrow> bool" where
  "cq_inv zero s \<longleftrightarrow>
     queue_inv (queue s) \<and>
     (\<forall>i. in_critical (cq_pcs s i) \<longleftrightarrow> mutex s = Some i) \<and>
     fifo_run zero (map fst (cq_log s)) [] = (contents (queue s), map snd (cq_log s))"

lemma fifo_run_snoc:
  "fifo_run zero ops xs = (ys, rs) \<Longrightarrow> fifo_step zero op ys = (zs, r) \<Longrightarrow>
   fifo_run zero (ops @ [op]) xs = (zs, rs @ [r])"
  by (induction ops arbitrary: xs rs) (auto split: prod.splits)

lemma cq_inv_init: "cq_inv zero NewConcurrentQueue"
  by (simp add: cq_inv_def NewConcurrentQueue_def queue_inv_new contents_new)

lemma cq_inv_body:
  assumes "cq_inv zero s" and "cq_pcs s i = CqLocked op"
  shows "\<exists>t. ConcurrentQueue_act zero (CqBody i) s = Some t \<and> cq_inv zero t"
proof -
  from assms(1) have qi: "queue_inv (queue s)" by (simp add: cq_inv_def)
  from lq.call_refines [OF this, of zero op] obtain q' r where
    c: "queue_call Queue_Push (Queue_Pop zero) op (queue s) = Inr (q', r)" "queue_inv q'"
       "fifo_step zero op (contents (queue s)) = (contents q', r)" by auto
  let ?t = "s\<lparr>queue := q', cq_pcs := (cq_pcs s)(i := CqDone op r), cq_log := cq_log s @ [(op, r)]\<rparr>"
  have "mutex s = Some i" using assms by (metis cq_inv_def in_critical.simps(1))
  then have "cq_inv zero ?t" using assms c fifo_run_snoc [OF _ c(3)] by (auto simp: cq_inv_def)
  then show ?thesis using assms(2) c(1) by simp
qed

lemma cq_inv_act:
  assumes "ConcurrentQueue_act zero a s = Some t" and "cq_inv zero s"
  shows "cq_inv zero t"
proof (cases a)
  case (CqBody i)
  with assms obtain op where "cq_pcs s i = CqLocked op" by (auto split: cq_pc.splits)
  with cq_inv_body [OF assms(2) this] assms(1) CqBody show ?thesis by auto
qed (use assms in \<open>auto simp: cq_inv_def split: cq_pc.splits if_splits; metis in_critical.simps\<close>)+

interpretation cq: machine_invariant "\<lambda>s. s = NewConcurrentQueue" "ConcurrentQueue_act zero" "cq_inv zero"
  for zero :: 'a
  by unfold_locales (auto intro: cq_inv_init cq_inv_act)

text \<open>
  C15. Whatever the interleaving of goroutines, at most one of them is between \<open>Lock\<close> and
  \<open>Unlock\<close>, the goroutine that holds the lock can always run the body (no nil dereference),
  and the values returned so far are those of a sequential FIFO queue fed with the calls in
  the order of their critical sections.
\<close>

theorem ConcurrentQueue_linearizable:
  assumes "reach (\<lambda>s. s = NewConcurrentQueue) (act_step (ConcurrentQueue_act zero)) s"
  shows "(\<forall>i j. in_critical (cq_pcs s i) \<and> in_critical (cq_pcs s j) \<longrightarrow> i = j) \<and>
     (\<forall>i op. cq_pcs s i = CqLocked op \<longrightarrow> (\<exists>t. ConcurrentQueue_act zero (CqBody i) s = Some t)) \<and>
     fifo_run zero (map fst (cq_log s)) [] = (contents (queue s), map snd (cq_log s))"
proof -
  from assms have inv: "cq_inv zero s" by (rule cq.reach_inv)
  then have "\<forall>i j. in_critical (cq_pcs s i) \<and> in_critical (cq_pcs s j) \<longrightarrow> i = j"
    by (auto simp: cq_inv_def)
  moreover have "\<forall>i op. cq_pcs s i = CqLocked op \<longrightarrow>
      (\<exists>t. ConcurrentQueue_act zero (CqBody i) s = Some t)"
    using cq_inv_body [OF inv] by blast
  ultimately show ?thesis using inv by (simp add: cq_inv_def)
qed

text \<open>Two goroutines: one pushes 5 while the other waits for the lock and then pops it.\<close>

definition cq_example_acts :: "nat cq_act list" where
  "cq_example_acts =
     [CqCall 0 (Push 5), CqLock 0, CqCall 1 Pop, CqBody 0, CqUnlock 0, CqLock 1, CqBody 1]"

theorem ConcurrentQueue_linearizable_witness:
  "\<exists>s. run (ConcurrentQueue_act (0 :: nat)) cq_example_acts NewConcurrentQueue = Some s \<and>
     cq_log s = [(Push 5, None), (Pop, Some (5, True))] \<and>
     fifo_run 0 (map fst (cq_log s)) [] = (contents (queue s), map snd (cq_log s))"
proof -
  have "\<exists>s. run (ConcurrentQueue_act (0 :: nat)) cq_example_acts NewConcurrentQueue = Some s \<and>
     cq_log s = [(Push 5, None), (Pop, Some (5, True))]"
    by (simp add: cq_example_acts_def NewConcurrentQueue_def NewQueue_def empty_store_def
        Queue_Push_def Queue_Pop_def alloc_def)
  then obtain s where s: "run (ConcurrentQueue_act (0 :: nat)) cq_example_acts NewConcurrentQueue = Some s"
    "cq_log s = [(Push 5, None), (Pop, Some (5, True))]" by blast
  have "reach (\<lambda>s. s = NewConcurrentQueue) (act_step (ConcurrentQueue_act (0 :: nat))) s"
    using s(1) by (rule run_from)
  from ConcurrentQueue_linearizable [OF this] s show ?thesis by blast
qed

end
