(* ===== verification/Semaphore.thy ===== *)
theory Semaphore
  imports Prelude
begin

text \<open>
  \<^verbatim>\<open>lab0/semaphore.go\<close>: the counting semaphore built from an atomic counter and a signal
  channel of capacity one, as a machine over goroutines.  Every atomic operation of
  \<open>Post\<close> and \<open>Wait\<close> is one action.  A goroutine that blocks in the second \<open>select\<close> of
  \<open>Wait\<close> is parked in the receive queue of the channel, in arrival order, because a send then
  hands its value directly to the first parked receiver and leaves the buffer empty.
\<close>

section \<open>The machine\<close>

text \<open>Program points.  \<open>WCas v\<close>: the loaded value was \<open>v > 0\<close> and the compare-and-swap is
  next.  \<open>WPoll\<close> and \<open>WBlock\<close>: before the first and the second \<open>select\<close>.  \<open>WRet e\<close>: \<open>Wait\<close>
  has returned \<open>nil\<close> (\<open>None\<close>) or the error of the context.\<close>

datatype sem_pc =
    SemIdle
  | PostAdd
  | PostSend
  | WLoad
  | WCas int
  | WPoll
  | WBlock
  | WParked
  | WRet "string option"

text \<open>\<open>ctx_err i\<close> is \<open>ctx.Err()\<close> of the context goroutine \<open>i\<close> waits with: \<open>None\<close> while it is
  not done.  The last two fields are history variables: completed \<open>available.Add(1)\<close>s and
  \<open>Wait\<close>s that took a resource.\<close>

record Semaphore =
  signal :: nat
  available :: int
  parked :: "tid list"
  sem_pcs :: "tid \<Rightarrow> sem_pc"
  ctx_err :: "tid \<Rightarrow> string option"
  posted :: nat
  acquired :: nat

definition NewSemaphore :: Semaphore where
  "NewSemaphore = \<lparr>signal = 0, available = 0, parked = [], sem_pcs = (\<lambda>_. SemIdle),
     ctx_err = (\<lambda>_. None), posted = 0, acquired = 0\<rparr>"

abbreviation set_pc :: "Semaphore \<Rightarrow> tid \<Rightarrow> sem_pc \<Rightarrow> Semaphore" where
  "set_pc s i p \<equiv> s\<lparr>sem_pcs := (sem_pcs s)(i := p)\<rparr>"

text \<open>\<open>Post\<close>: the atomic increment, then the non-blocking send.\<close>

fun Semaphore_Post :: "tid \<Rightarrow> Semaphore \<Rightarrow> Semaphore option" where
  "Semaphore_Post i s =
     (case sem_pcs s i of
        PostAdd \<Rightarrow> Some ((set_pc s i PostSend)\<lparr>available := available s + 1, posted := Suc (posted s)\<rparr>)
      | PostSend \<Rightarrow>
          (case parked s of
             w # ws \<Rightarrow> Some ((set_pc (set_pc s w WLoad) i SemIdle)\<lparr>parked := ws\<rparr>)
           | [] \<Rightarrow>
               (if signal s < 1 then Some ((set_pc s i SemIdle)\<lparr>signal := Suc (signal s)\<rparr>)
                else Some (set_pc s i SemIdle)))
      | _ \<Rightarrow> None)"

text \<open>\<open>Wait\<close>.  In the second \<open>select\<close> both cases can be ready: the flag says whether the
  run-time system picks the cancelled context.\<close>

fun Semaphore_Wait :: "tid \<Rightarrow> bool \<Rightarrow> Semaphore \<Rightarrow> Semaphore option" where
  "Semaphore_Wait i pick_ctx s =
     (case sem_pcs s i of
        WLoad \<Rightarrow> Some (set_pc s i (if available s > 0 then WCas (available s) else WPoll))
      | WCas v \<Rightarrow>
          (if available s = v
           then Some ((set_pc s i (WRet None))\<lparr>available := v - 1, acquired := Suc (acquired s)\<rparr>)
           else Some (set_pc s i WLoad))
      | WPoll \<Rightarrow>
          Some (set_pc s i (case ctx_err s i of Some e \<Rightarrow> WRet (Some e) | None \<Rightarrow> WBlock))
      | WBlock \<Rightarrow>
          (if signal s > 0 \<and> \<not> (pick_ctx \<and> ctx_err s i \<noteq> None)
           then Some ((set_pc s i WLoad)\<lparr>signal := signal s - 1\<rparr>)
           else (case ctx_err s i of
                   Some e \<Rightarrow> Some (set_pc s i (WRet (Some e)))
                 | None \<Rightarrow> Some ((set_pc s i WParked)\<lparr>parked := parked s @ [i]\<rparr>)))
      | WParked \<Rightarrow>
          (case ctx_err s i of
             Some e \<Rightarrow> Some ((set_pc s i (WRet (Some e)))\<lparr>parked := removeAll i (parked s)\<rparr>)
           | None \<Rightarrow> None)
      | _ \<Rightarrow> None)"

datatype sem_act =
    CallPost tid
  | CallWait tid
  | Cancel tid string
  | StepPost tid
  | StepWait tid bool
  | Leave tid

fun Semaphore_act :: "sem_act \<Rightarrow> Semaphore \<Rightarrow> Semaphore option" where
  "Semaphore_act (CallPost i) s = (if sem_pcs s i = SemIdle then Some (set_pc s i PostAdd) else None)"
| "Semaphore_act (CallWait i) s = (if sem_pcs s i = SemIdle then Some (set_pc s i WLoad) else None)"
| "Semaphore_act (Cancel i e) s =
     (if ctx_err s i = None then Some (s\<lparr>ctx_err := (ctx_err s)(i := Some e)\<rparr>) else None)"
| "Semaphore_act (StepPost i) s = Semaphore_Post i s"
| "Semaphore_act (StepWait i b) s = Semaphore_Wait i b s"
| "Semaphore_act (Leave i) s =
     (case sem_pcs s i of WRet _ \<Rightarrow> Some (set_pc s i SemIdle) | _ \<Rightarrow> None)"

abbreviation sem_reach :: "Semaphore \<Rightarrow> bool" where
  "sem_reach \<equiv> reach (\<lambda>s. s = NewSemaphore) (act_step Semaphore_act)"

section \<open>Safety: conservation of resources\<close>

definition sem_inv :: "Semaphore \<Rightarrow> bool" where
  "sem_inv s \<longleftrightarrow>
     0 \<le> available s \<and> available s = int (posted s) - int (acquired s) \<and> signal s \<le> 1 \<and>
     (parked s \<noteq> [] \<longrightarrow> signal s = 0) \<and> distinct (parked s) \<and>
     (\<forall>i. sem_pcs s i = WParked \<longleftrightarrow> i \<in> set (parked s)) \<and> (\<forall>i v. sem_pcs s i = WCas v \<longrightarrow> 0 < v)"

lemma sem_inv_init: "sem_inv NewSemaphore"
  by (simp add: sem_inv_def NewSemaphore_def)

lemma sem_inv_not_parked: "sem_inv s \<Longrightarrow> sem_pcs s i \<noteq> WParked \<Longrightarrow> i \<notin> set (parked s)"
  by (simp add: sem_inv_def)

text \<open>Moving a goroutine that is not parked to a program point that is not parked.\<close>

lemma sem_inv_set_pc:
  assumes "sem_inv s" and "sem_pcs s i \<noteq> WParked" and "p \<noteq> WParked" and "\<forall>v. p = WCas v \<longrightarrow> 0 < v"
  shows "sem_inv (set_pc s i p)"
proof -
  have "i \<notin> set (parked s)" using assms(1,2) by (rule sem_inv_not_parked)
  with assms show ?thesis by (simp add: sem_inv_def)
qed

lemma sem_inv_Post:
  assumes "Semaphore_Post i s = Some t" and inv: "sem_inv s"
  shows "sem_inv t"
proof -
  from assms(1) have np: "sem_pcs s i \<noteq> WParked" by (auto split: sem_pc.splits)
  with inv have ni: "i \<notin> set (parked s)" by (rule sem_inv_not_parked)
  from assms(1) consider "sem_pcs s i = PostAdd" | "sem_pcs s i = PostSend" "parked s = []"
    | w ws where "sem_pcs s i = PostSend" "parked s = w # ws"
    by (auto split: sem_pc.splits list.splits)
  then show ?thesis
  proof cases
    case 1
    with assms(1) sem_inv_set_pc [OF inv np, of PostSend] show ?thesis by (auto simp: sem_inv_def)
  next
    case 2
    with assms(1) sem_inv_set_pc [OF inv np, of SemIdle] show ?thesis
      by (auto simp: sem_inv_def split: if_splits)
  next
    case (3 w ws)
    then have "t = s\<lparr>sem_pcs := (sem_pcs s)(w := WLoad, i := SemIdle), parked := ws\<rparr>"
      using assms(1) by simp
    with 3 inv ni show ?thesis by (simp add: sem_inv_def)
  qed
qed

lemma sem_inv_Wait:
  assumes "Semaphore_Wait i b s = Some t" and inv: "sem_inv s"
  shows "sem_inv t"
proof (cases "sem_pcs s i")
  case WLoad
  with assms(1) sem_inv_set_pc [OF inv, of i] show ?thesis by (auto split: if_splits)
next
  case (WCas v)
  then have "0 < v" using inv by (simp add: sem_inv_def)
  with WCas assms(1) sem_inv_set_pc [OF inv, of i WLoad] sem_inv_set_pc [OF inv, of i "WRet None"]
  show ?thesis by (auto simp: sem_inv_def split: if_splits)
next
  case WPoll
  with assms(1) sem_inv_set_pc [OF inv, of i] show ?thesis by (auto split: option.splits)
next
  case WBlock
  then have ni: "i \<notin> set (parked s)" using sem_inv_not_parked [OF inv, of i] by simp
  from WBlock assms(1) consider "t = (set_pc s i WLoad)\<lparr>signal := signal s - 1\<rparr>"
    | e where "t = set_pc s i (WRet (Some e))"
    | "signal s = 0" "t = (set_pc s i WParked)\<lparr>parked := parked s @ [i]\<rparr>"
    by (auto split: if_splits option.splits)
  then show ?thesis
  proof cases
    case 1
    with WBlock sem_inv_set_pc [OF inv, of i WLoad] show ?thesis by (auto simp: sem_inv_def)
  next
    case (2 e)
    with WBlock sem_inv_set_pc [OF inv, of i "WRet (Some e)"] show ?thesis by simp
  next
    case 3
    with inv ni show ?thesis by (auto simp: sem_inv_def)
  qed
next
  case WParked
  with assms(1) inv show ?thesis by (auto simp: sem_inv_def distinct_removeAll split: option.splits if_splits)
qed (use assms in auto)

lemma sem_inv_act:
  assumes "Semaphore_act a s = Some t" and "sem_inv s"
  shows "sem_inv t"
proof (cases a)
  case (StepPost i)
  with assms show ?thesis by (auto intro: sem_inv_Post)
next
  case (StepWait i b)
  with assms show ?thesis by (auto intro: sem_inv_Wait)
next
  case (Cancel i e)
  with assms show ?thesis by (auto simp: sem_inv_def split: if_splits)
qed (use assms in \<open>auto intro!: sem_inv_set_pc split: if_splits sem_pc.splits\<close>)

interpretation sem: machine_invariant "\<lambda>s. s = NewSemaphore" Semaphore_act sem_inv
  by unfold_locales (auto intro: sem_inv_act sem_inv_init)


section \<open>Wake-ups\<close>

text \<open>The machine in which only goroutine \<open>w\<close> ever calls \<open>Wait\<close>.\<close>

fun single_waiter_act :: "tid \<Rightarrow> sem_act \<Rightarrow> Semaphore \<Rightarrow> Semaphore option" where
  "single_waiter_act w (CallWait i) s = (if i = w then Semaphore_act (CallWait i) s else None)"
| "single_waiter_act w a s = Semaphore_act a s"

fun waiting_pc :: "sem_pc \<Rightarrow> bool" where
  "waiting_pc WPoll = True"
| "waiting_pc WBlock = True"
| "waiting_pc WParked = True"
| "waiting_pc _ = False"

fun wait_pc :: "sem_pc \<Rightarrow> bool" where
  "wait_pc SemIdle = False"
| "wait_pc PostAdd = False"
| "wait_pc PostSend = False"
| "wait_pc _ = True"

text \<open>A waiter that has seen an empty semaphore while resources are there has a wake-up
  coming: a token in the channel or a \<open>Post\<close> about to send.\<close>

definition wakeup_inv :: "tid \<Rightarrow> Semaphore \<Rightarrow> bool" where
  "wakeup_inv w s \<longleftrightarrow>
     sem_inv s \<and> (\<forall>i. wait_pc (sem_pcs s i) \<longrightarrow> i = w) \<and>
     (waiting_pc (sem_pcs s w) \<and> 0 < available s \<longrightarrow> signal s = 1 \<or> (\<exists>i. sem_pcs s i = PostSend))"

lemma wakeup_inv_Post:
  assumes "Semaphore_Post i s = Some t" and "wakeup_inv w s"
  shows "wakeup_inv w t"
proof -
  from assms have si: "sem_inv s" "sem_inv t" using sem_inv_Post by (auto simp: wakeup_inv_def)
  have own: "\<forall>j. wait_pc (sem_pcs s j) \<longrightarrow> j = w" using assms(2) by (simp add: wakeup_inv_def)
  from assms(1) consider "sem_pcs s i = PostAdd" | "sem_pcs s i = PostSend"
    by (auto split: sem_pc.splits)
  then show ?thesis
  proof cases
    case 1
    with assms si own show ?thesis by (auto simp: wakeup_inv_def split: if_splits)
  next
    case 2
    show ?thesis
    proof (cases "parked s")
      case Nil
      with 2 assms si own show ?thesis by (auto simp: wakeup_inv_def sem_inv_def split: if_splits)
    next
      case (Cons x xs)
      then have "sem_pcs s x = WParked" using si(1) by (auto simp: sem_inv_def)
      then have "x = w" using own by (metis wait_pc.simps(8))
      with 2 Cons assms si own show ?thesis by (auto simp: wakeup_inv_def split: if_splits)
    qed
  qed
qed

lemma Wait_frame: "Semaphore_Wait i b s = Some t \<Longrightarrow> j \<noteq> i \<Longrightarrow> sem_pcs t j = sem_pcs s j"
  by (cases "sem_pcs s i") (auto split: if_splits option.splits)

lemma Wait_pc: "Semaphore_Wait i b s = Some t \<Longrightarrow> wait_pc (sem_pcs s i)"
  by (cases "sem_pcs s i") auto

lemma Wait_still_waiting:
  assumes "Semaphore_Wait i b s = Some t" and "waiting_pc (sem_pcs t i)" and "0 < available t"
    and "signal s \<le> 1"
  shows "available t = available s \<and> signal t = signal s \<and> waiting_pc (sem_pcs s i)"
  using assms by (cases "sem_pcs s i") (auto split: if_splits option.splits)

lemma wakeup_inv_Wait:
  assumes "Semaphore_Wait i b s = Some t" and inv: "wakeup_inv w s"
  shows "wakeup_inv w t"
proof -
  have si: "sem_inv s" "sem_inv t" using assms sem_inv_Wait by (auto simp: wakeup_inv_def)
  have own: "\<forall>j. wait_pc (sem_pcs s j) \<longrightarrow> j = w" using inv by (simp add: wakeup_inv_def)
  then have iw: "i = w" using Wait_pc [OF assms(1)] by blast
  have frame: "j \<noteq> w \<Longrightarrow> sem_pcs t j = sem_pcs s j" for j using Wait_frame [OF assms(1)] iw by simp
  have "signal t = 1 \<or> (\<exists>j. sem_pcs t j = PostSend)"
    if "waiting_pc (sem_pcs t w)" and "0 < available t"
  proof -
    have sw: "available t = available s" "signal t = signal s" "waiting_pc (sem_pcs s w)"
      using Wait_still_waiting [OF assms(1)] that iw si(1) by (auto simp: sem_inv_def)
    then have "signal s = 1 \<or> (\<exists>j. sem_pcs s j = PostSend)"
      using inv that by (simp add: wakeup_inv_def)
    with sw frame show ?thesis by (metis waiting_pc.simps(6))
  qed
  moreover have "\<forall>j. wait_pc (sem_pcs t j) \<longrightarrow> j = w" using own frame by metis
  ultimately show ?thesis using si(2) by (auto simp: wakeup_inv_def)
qed

lemma wakeup_inv_frame:
  assumes "wakeup_inv w s" and "sem_inv t" and "available t = available s" and "signal t = signal s"
    and "\<And>j. wait_pc (sem_pcs t j) \<Longrightarrow> wait_pc (sem_pcs s j)"
    and "waiting_pc (sem_pcs t w) \<Longrightarrow> waiting_pc (sem_pcs s w)"
    and "\<And>j. sem_pcs s j = PostSend \<Longrightarrow> sem_pcs t j = PostSend"
  shows "wakeup_inv w t"
  using assms unfolding wakeup_inv_def by metis

lemma wakeup_inv_act:
  assumes "single_waiter_act w a s = Some t" and "wakeup_inv w s"
  shows "wakeup_inv w t"
proof (cases a)
  case (StepPost i)
  with assms show ?thesis by (auto intro: wakeup_inv_Post)
next
  case (StepWait i b)
  with assms show ?thesis by (auto intro: wakeup_inv_Wait)
next
  case (CallWait i)
  with assms have "sem_inv t" using sem_inv_act [of "CallWait i" s t]
    by (auto simp: wakeup_inv_def split: if_splits)
  with assms CallWait show ?thesis by (auto simp: wakeup_inv_def split: if_splits)
next
  case (CallPost i)
  with assms have t: "t = set_pc s i PostAdd" "sem_pcs s i = SemIdle" by (auto split: if_splits)
  show ?thesis
    by (rule wakeup_inv_frame [OF assms(2)])
      (use t assms CallPost sem_inv_act [of a s t] in \<open>auto simp: wakeup_inv_def split: if_splits\<close>)
next
  case (Cancel i e)
  with assms sem_inv_act [of a s t] show ?thesis by (auto simp: wakeup_inv_def split: if_splits)
next
  case (Leave i)
  with assms obtain e where t: "t = set_pc s i SemIdle" "sem_pcs s i = WRet e"
    by (auto split: sem_pc.splits)
  show ?thesis
    by (rule wakeup_inv_frame [OF assms(2)])
      (use t assms Leave sem_inv_act [of a s t] in \<open>auto simp: wakeup_inv_def split: if_splits\<close>)
qed

lemma wakeup_inv_init: "wakeup_inv w NewSemaphore"
  using sem_inv_init by (simp add: wakeup_inv_def NewSemaphore_def)

interpretation wake: machine_invariant "\<lambda>s. s = NewSemaphore" "single_waiter_act w" "wakeup_inv w"
  for w :: tid
  by unfold_locales (auto intro: wakeup_inv_act wakeup_inv_init)

text \<open>
  C36. With a single waiting goroutine no wake-up is lost: if it is parked in \<open>Wait\<close> although
  a resource is available, some \<open>Post\<close> is still about to send, and that send returns the
  waiter to the top of its loop.
\<close>

theorem Semaphore_no_lost_wakeup:
  assumes "reach (\<lambda>s. s = NewSemaphore) (act_step (single_waiter_act w)) s"
    and "sem_pcs s w = WParked" and "0 < available s"
  shows "\<exists>i t. sem_pcs s i = PostSend \<and> Semaphore_Post i s = Some t \<and> sem_pcs t w = WLoad"
proof -
  from assms(1) have inv: "wakeup_inv w s" by (rule wake.reach_inv)
  then have si: "sem_inv s" and own: "\<forall>j. wait_pc (sem_pcs s j) \<longrightarrow> j = w"
    by (auto simp: wakeup_inv_def)
  have wp: "w \<in> set (parked s)" using si assms(2) by (simp add: sem_inv_def)
  then obtain x xs where p: "parked s = x # xs" by (cases "parked s") auto
  then have "sem_pcs s x = WParked" using si by (auto simp: sem_inv_def)
  then have x: "x = w" using own by (metis wait_pc.simps(8))
  have "signal s = 0" using si p by (simp add: sem_inv_def)
  with inv assms obtain i where i: "sem_pcs s i = PostSend" by (auto simp: wakeup_inv_def)
  then have "i \<noteq> w" using assms(2) by auto
  with i p x show ?thesis by (intro exI [of _ i]) auto
qed

text \<open>The waiter parks, then a \<open>Post\<close> increments the counter and has not sent yet.\<close>

definition wakeup_acts :: "sem_act list" where
  "wakeup_acts =
     [CallWait 1, StepWait 1 False, StepWait 1 False, StepWait 1 False, CallPost 2, StepPost 2]"

theorem Semaphore_no_lost_wakeup_witness:
  "\<exists>s i t. run (single_waiter_act 1) wakeup_acts NewSemaphore = Some s \<and> sem_pcs s 1 = WParked \<and>
     available s = 1 \<and> sem_pcs s i = PostSend \<and> Semaphore_Post i s = Some t \<and> sem_pcs t 1 = WLoad"
proof -
  have "\<exists>s. run (single_waiter_act 1) wakeup_acts NewSemaphore = Some s \<and>
      sem_pcs s 1 = WParked \<and> available s = 1"
    by (simp add: wakeup_acts_def NewSemaphore_def)
  then obtain s where s: "run (single_waiter_act 1) wakeup_acts NewSemaphore = Some s"
    "sem_pcs s 1 = WParked" "available s = 1" by blast
  have "0 < available s" using s(3) by simp
  from Semaphore_no_lost_wakeup [OF run_from [OF s(1)] s(2) this] s show ?thesis by blast
qed

text \<open>The witness of the conservation property: two posts, one successful wait.\<close>

definition conservation_acts :: "sem_act list" where
  "conservation_acts =
     [CallPost 1, StepPost 1, StepPost 1, CallPost 1, StepPost 1, StepPost 1,
      CallWait 2, StepWait 2 False, StepWait 2 False]"


subsection \<open>Two waiters\<close>

text \<open>Both waiters have seen zero and have not reached the second \<open>select\<close> when two \<open>Post\<close>s
  run.  The channel holds one token only.\<close>

definition lost_wakeup_acts :: "sem_act list" where
  "lost_wakeup_acts =
     [CallWait 1, StepWait 1 False, StepWait 1 False,
      CallWait 2, StepWait 2 False, StepWait 2 False,
      CallPost 3, StepPost 3, StepPost 3, CallPost 3, StepPost 3, StepPost 3,
      StepWait 1 False, StepWait 1 False, StepWait 1 False, Leave 1, StepWait 2 False]"

text \<open>
  With two waiters a wake-up can be lost: two \<open>Post\<close>s can leave one waiter parked with a
  resource available, every other goroutine outside the semaphore, no token in the channel,
  and no step of its own enabled until its context is done.
\<close>

theorem Semaphore_lost_wakeup:
  "\<exists>s. sem_reach s \<and> sem_pcs s 2 = WParked \<and> available s = 1 \<and> signal s = 0 \<and>
     {i. sem_pcs s i \<noteq> SemIdle} = {2} \<and> Semaphore_Wait 2 True s = None \<and> Semaphore_Wait 2 False s = None"
proof -
  have "\<exists>s. run Semaphore_act lost_wakeup_acts NewSemaphore = Some s \<and> sem_pcs s 2 = WParked \<and>
     available s = 1 \<and> signal s = 0 \<and> (\<forall>i. i \<noteq> 2 \<longrightarrow> sem_pcs s i = SemIdle) \<and> ctx_err s 2 = None"
    by (simp add: lost_wakeup_acts_def NewSemaphore_def)
  then obtain s where "run Semaphore_act lost_wakeup_acts NewSemaphore = Some s"
    "sem_pcs s 2 = WParked" "available s = 1" "signal s = 0"
    "\<forall>i. i \<noteq> 2 \<longrightarrow> sem_pcs s i = SemIdle" "ctx_err s 2 = None" by blast
  then show ?thesis by (intro exI [of _ s]) (auto intro: run_from)
qed

end
