(* ===== verification/MergeChannels.thy ===== *)
theory MergeChannels
  imports Prelude
begin

text \<open>
  \<^verbatim>\<open>lab0/merge_channels.go\<close>: \<open>MergeChannels\<close>, \<open>MergeFetches\<close> and \<open>MergeChannelsOrCancel\<close> as
  machines over two reader goroutines, the closing goroutine and the environment.  The first
  two differ only in what a reader pulls from, so they are one machine over an interface (the
  locale \<open>merge_source\<close>), interpreted on Go channels and on \<open>Fetcher\<close>s.
\<close>

section \<open>Merging two sources\<close>

datatype side = SideA | SideB

text \<open>A reader: about to receive (or to call \<open>Fetch\<close>), about to execute \<open>out <- v\<close>, or
  returned (after \<open>wg.Done()\<close>).\<close>

datatype 'a rd_pc = RdRecv | RdSend 'a | RdDone

text \<open>The state.  \<open>srcs\<close>: the two inputs.  \<open>out_buf\<close>, \<open>received\<close>: what the output channel
  buffers and what its receiver has taken.  \<open>consumed\<close>: history of what each reader took from
  its input.  \<open>panicked\<close>: a send on a closed channel or a second close happened.\<close>

record ('src, 'a) merge_state =
  srcs :: "side \<Rightarrow> 'src"
  pcs :: "side \<Rightarrow> 'a rd_pc"
  wg :: nat
  out_buf :: "'a list"
  received :: "'a list"
  out_closed :: bool
  panicked :: bool
  consumed :: "side \<Rightarrow> 'a list"

datatype ('e, 'a) merge_act = Pull side | Send side | Take | Close | Env side 'e

definition merge_init :: "'src \<Rightarrow> 'src \<Rightarrow> ('src, 'a) merge_state" where
  "merge_init a b = \<lparr>srcs = (\<lambda>x. case x of SideA \<Rightarrow> a | SideB \<Rightarrow> b), pcs = (\<lambda>_. RdRecv), wg = 2,
     out_buf = [], received = [], out_closed = False, panicked = False, consumed = (\<lambda>_. [])\<rparr>"

text \<open>\<open>out <- v\<close> on a channel of capacity \<open>cap\<close>: blocked (\<open>None\<close>) while the buffer is full; on
  an unbuffered channel the value goes to the receiver directly.\<close>

definition out_send :: "nat \<Rightarrow> 'a \<Rightarrow> ('src, 'a, 'z) merge_state_scheme
    \<Rightarrow> ('src, 'a, 'z) merge_state_scheme option" where
  "out_send cap v s =
     (if out_closed s then Some (s\<lparr>panicked := True\<rparr>)
      else if length (out_buf s) < cap then Some (s\<lparr>out_buf := out_buf s @ [v]\<rparr>)
      else if out_buf s = [] then Some (s\<lparr>received := received s @ [v]\<rparr>)
      else None)"

text \<open>One action, over a source that \<open>pull\<close> reads (\<open>None\<close>: blocked; \<open>Some (_, None)\<close>: closed or
  exhausted) and that the environment changes with \<open>env\<close>.  \<open>Close\<close> is the goroutine that waits
  for the group and closes \<open>out\<close>.\<close>

fun merge_step :: "('src \<Rightarrow> ('src \<times> 'a option) option) \<Rightarrow> ('e \<Rightarrow> 'src \<Rightarrow> 'src option) \<Rightarrow> nat
    \<Rightarrow> ('e, 'a) merge_act \<Rightarrow> ('src, 'a) merge_state \<Rightarrow> ('src, 'a) merge_state option" where
  "merge_step pull env cap (Pull x) s =
     (if pcs s x = RdRecv then
        (case pull (srcs s x) of
           None \<Rightarrow> None
         | Some (c, Some v) \<Rightarrow>
             Some (s\<lparr>srcs := (srcs s)(x := c), pcs := (pcs s)(x := RdSend v),
                     consumed := (consumed s)(x := consumed s x @ [v])\<rparr>)
         | Some (c, None) \<Rightarrow>
             Some (s\<lparr>srcs := (srcs s)(x := c), pcs := (pcs s)(x := RdDone), wg := wg s - 1\<rparr>))
      else None)"
| "merge_step pull env cap (Send x) s =
     (case pcs s x of
        RdSend v \<Rightarrow> map_option (\<lambda>t. t\<lparr>pcs := (pcs t)(x := RdRecv)\<rparr>) (out_send cap v s)
      | _ \<Rightarrow> None)"
| "merge_step pull env cap Take s =
     (case out_buf s of
        [] \<Rightarrow> None
      | v # vs \<Rightarrow> Some (s\<lparr>out_buf := vs, received := received s @ [v]\<rparr>))"
| "merge_step pull env cap Close s =
     (if wg s = 0 \<and> \<not> out_closed s then Some (s\<lparr>out_closed := True\<rparr>) else None)"
| "merge_step pull env cap (Env x e) s =
     (case env e (srcs s x) of None \<Rightarrow> None | Some c \<Rightarrow> Some (s\<lparr>srcs := (srcs s)(x := c)\<rparr>))"

text \<open>Everything sent to the output so far, in order.\<close>

definition delivered :: "('src, 'a, 'z) merge_state_scheme \<Rightarrow> 'a list" where
  "delivered s = received s @ out_buf s"

subsection \<open>Interleavings\<close>

lemma shuffles_snoc_left: "zs \<in> shuffles xs ys \<Longrightarrow> zs @ [v] \<in> shuffles (xs @ [v]) ys"
proof (induction zs arbitrary: xs ys)
  case (Cons z zs)
  then show ?case by (auto simp: Cons_in_shuffles_iff)
qed auto

lemma shuffles_snoc_right: "zs \<in> shuffles xs ys \<Longrightarrow> zs @ [v] \<in> shuffles xs (ys @ [v])"
  using shuffles_snoc_left [of zs ys xs v] by (simp add: shuffles_commutes)

subsection \<open>The interface of a source\<close>

fun pending :: "'a rd_pc \<Rightarrow> 'a list" where
  "pending (RdSend v) = [v]"
| "pending _ = []"

definition running :: "'a rd_pc \<Rightarrow> nat" where
  "running p = (if p = RdDone then 0 else 1)"

locale merge_source =
  fixes pull :: "'src \<Rightarrow> ('src \<times> 'a option) option" and env :: "'e \<Rightarrow> 'src \<Rightarrow> 'src option"
    and src_live :: "'a list \<Rightarrow> 'src \<Rightarrow> bool" and src_fin :: "'a list \<Rightarrow> 'src \<Rightarrow> bool"
  assumes pull_value: "pull c = Some (c', Some v) \<Longrightarrow> src_live cs c \<Longrightarrow> src_live (cs @ [v]) c'"
    and pull_end: "pull c = Some (c', None) \<Longrightarrow> src_live cs c \<Longrightarrow> src_fin cs c'"
    and env_live: "env e c = Some c' \<Longrightarrow> src_live cs c \<Longrightarrow> src_live cs c'"
    and env_fin: "env e c = Some c' \<Longrightarrow> src_fin cs c \<Longrightarrow> src_fin cs c'"
begin

definition src_ok :: "('src, 'a) merge_state \<Rightarrow> side \<Rightarrow> bool" where
  "src_ok s x \<longleftrightarrow> (if pcs s x = RdDone then src_fin (consumed s x) (srcs s x)
                   else src_live (consumed s x) (srcs s x))"

definition merge_inv :: "('src, 'a) merge_state \<Rightarrow> bool" where
  "merge_inv s \<longleftrightarrow>
     \<not> panicked s \<and> wg s = running (pcs s SideA) + running (pcs s SideB) \<and>
     (out_closed s \<longrightarrow> wg s = 0) \<and> (\<forall>x. src_ok s x) \<and>
     (\<exists>da db. consumed s SideA = da @ pending (pcs s SideA) \<and>
              consumed s SideB = db @ pending (pcs s SideB) \<and> delivered s \<in> shuffles da db)"

lemma inv_pull:
  assumes "merge_step pull env cap (Pull x) s = Some t" and "merge_inv s"
  shows "merge_inv t"
proof -
  from assms(1) have pc: "pcs s x = RdRecv" by (auto split: if_splits)
  with assms(2) have live: "src_live (consumed s x) (srcs s x)" by (simp add: merge_inv_def src_ok_def)
  from assms pc obtain c r where p: "pull (srcs s x) = Some (c, r)"
    by (auto split: option.splits)
  show ?thesis
  proof (cases r)
    case None
    with assms p pc pull_end [of "srcs s x" c, OF _ live] show ?thesis
      by (cases x) (auto simp: merge_inv_def src_ok_def running_def delivered_def)
  next
    case (Some v)
    with assms p pc pull_value [of "srcs s x" c v, OF _ live] show ?thesis
      by (cases x) (auto simp: merge_inv_def src_ok_def running_def delivered_def)
  qed
qed

lemma inv_send:
  assumes "merge_step pull env cap (Send x) s = Some t" and inv: "merge_inv s"
  shows "merge_inv t"
proof -
  from assms(1) obtain v where pc: "pcs s x = RdSend v" by (auto split: rd_pc.splits)
  have open_out: "\<not> out_closed s"
    using inv pc by (cases x) (auto simp: merge_inv_def running_def)
  from assms(1) pc open_out have dt: "delivered t = delivered s @ [v]"
    and t: "pcs t = (pcs s)(x := RdRecv)" "consumed t = consumed s" "srcs t = srcs s" "wg t = wg s"
      "out_closed t = out_closed s" "panicked t = panicked s"
    by (auto simp: out_send_def delivered_def split: if_splits)
  from inv obtain da db where d: "consumed s SideA = da @ pending (pcs s SideA)"
    "consumed s SideB = db @ pending (pcs s SideB)" "delivered s \<in> shuffles da db"
    by (auto simp: merge_inv_def)
  have "\<exists>da db. consumed t SideA = da @ pending (pcs t SideA) \<and>
      consumed t SideB = db @ pending (pcs t SideB) \<and> delivered t \<in> shuffles da db"
  proof (cases x)
    case SideA
    then show ?thesis using d t pc dt shuffles_snoc_left [OF d(3), of v]
      by (intro exI [of _ "da @ [v]"] exI [of _ db]) auto
  next
    case SideB
    then show ?thesis using d t pc dt shuffles_snoc_right [OF d(3), of v]
      by (intro exI [of _ da] exI [of _ "db @ [v]"]) auto
  qed
  moreover have "\<forall>y. src_ok t y" using inv t pc by (auto simp: merge_inv_def src_ok_def)
  moreover have "running (pcs t y) = running (pcs s y)" for y using t pc by (auto simp: running_def)
  ultimately show ?thesis using inv t by (auto simp: merge_inv_def)
qed

lemma inv_env:
  assumes "merge_step pull env cap (Env x e) s = Some t" and "merge_inv s"
  shows "merge_inv t"
proof -
  from assms(1) obtain c where c: "env e (srcs s x) = Some c" "t = s\<lparr>srcs := (srcs s)(x := c)\<rparr>"
    by (auto split: option.splits)
  have "src_ok t y" for y
    using assms(2) c env_live [OF c(1)] env_fin [OF c(1)] by (auto simp: merge_inv_def src_ok_def)
  with assms(2) c(2) show ?thesis by (auto simp: merge_inv_def delivered_def)
qed

lemma inv_step:
  assumes "merge_step pull env cap act s = Some t" and "merge_inv s"
  shows "merge_inv t"
proof (cases act)
  case (Pull x)
  with assms show ?thesis by (blast intro: inv_pull)
next
  case (Send x)
  with assms show ?thesis by (blast intro: inv_send)
next
  case (Env x e)
  with assms show ?thesis by (blast intro: inv_env)
qed (use assms in \<open>auto simp: merge_inv_def src_ok_def delivered_def split: list.splits if_splits\<close>)

lemma inv_init: "src_live [] a \<Longrightarrow> src_live [] b \<Longrightarrow> merge_inv (merge_init a b)"
  by (auto simp: merge_inv_def merge_init_def src_ok_def running_def delivered_def split: side.splits)

lemma inv_reach:
  assumes "reach (\<lambda>s. s = merge_init a b) (act_step (merge_step pull env cap)) s"
    and "src_live [] a" and "src_live [] b"
  shows "merge_inv s"
  using assms(1)
  by (induction rule: reach.induct) (auto elim: act_stepE intro: inv_init inv_step assms(2,3))

text \<open>The closed output holds an interleaving of all that the two readers took, and both
  sources were read to their end.\<close>

lemma closed_complete:
  assumes "merge_inv s" and "out_closed s"
  shows "delivered s \<in> shuffles (consumed s SideA) (consumed s SideB) \<and>
         src_fin (consumed s SideA) (srcs s SideA) \<and> src_fin (consumed s SideB) (srcs s SideB)"
proof -
  from assms have d: "pcs s SideA = RdDone" "pcs s SideB = RdDone"
    by (auto simp: merge_inv_def running_def split: if_splits)
  then have "src_fin (consumed s x) (srcs s x)" for x
    using assms(1) by (cases x) (auto simp: merge_inv_def src_ok_def split: if_splits)
  with d assms(1) show ?thesis by (auto simp: merge_inv_def)
qed

text \<open>While the output is open and no source blocks, some goroutine or the receiver can move.\<close>

lemma not_stuck:
  assumes "merge_inv s" and "\<not> out_closed s" and "\<And>x. pull (srcs s x) \<noteq> None"
  shows "\<exists>act t. (\<forall>x e. act \<noteq> Env x e) \<and> merge_step pull env cap act s = Some t"
proof (cases "wg s = 0")
  case True
  with assms(2) have "\<exists>t. merge_step pull env cap Close s = Some t" by simp
  then show ?thesis by blast
next
  case False
  then obtain x where x: "pcs s x \<noteq> RdDone" using assms(1)
    by (auto simp: merge_inv_def running_def split: if_splits)
  show ?thesis
  proof (cases "pcs s x")
    case RdRecv
    then have "\<exists>t. merge_step pull env cap (Pull x) s = Some t"
      using assms(3) [of x] by (auto split: option.splits)
    then show ?thesis by blast
  next
    case (RdSend v)
    then have "(\<exists>t. merge_step pull env cap (Send x) s = Some t) \<or> (\<exists>t. merge_step pull env cap Take s = Some t)"
      using assms(2) by (cases "out_buf s") (auto simp: out_send_def)
    then show ?thesis by blast
  qed (use x in simp)
qed

end

section \<open>Channels as sources: \<open>MergeChannels\<close>\<close>

text \<open>A channel with the values sent and not received yet; \<open>ch_sent\<close> is the history of all
  values sent on it.\<close>

record 'a chan =
  ch_buf :: "'a list"
  ch_closed :: bool
  ch_sent :: "'a list"

definition new_chan :: "'a chan" where
  "new_chan = \<lparr>ch_buf = [], ch_closed = False, ch_sent = []\<rparr>"

datatype 'a chan_event = ChSend 'a | ChClose

text \<open>\<open>v, ok := <-channelA\<close>.\<close>

definition chan_recv :: "'a chan \<Rightarrow> ('a chan \<times> 'a option) option" where
  "chan_recv c =
     (case ch_buf c of
        v # vs \<Rightarrow> Some (c\<lparr>ch_buf := vs\<rparr>, Some v)
      | [] \<Rightarrow> (if ch_closed c then Some (c, None) else None))"

fun chan_env :: "'a chan_event \<Rightarrow> 'a chan \<Rightarrow> 'a chan option" where
  "chan_env (ChSend v) c =
     (if ch_closed c then None else Some (c\<lparr>ch_buf := ch_buf c @ [v], ch_sent := ch_sent c @ [v]\<rparr>))"
| "chan_env ChClose c = (if ch_closed c then None else Some (c\<lparr>ch_closed := True\<rparr>))"

definition chan_live :: "'a list \<Rightarrow> 'a chan \<Rightarrow> bool" where
  "chan_live cs c \<longleftrightarrow> ch_sent c = cs @ ch_buf c"

definition chan_fin :: "'a list \<Rightarrow> 'a chan \<Rightarrow> bool" where
  "chan_fin cs c \<longleftrightarrow> ch_closed c \<and> ch_buf c = [] \<and> ch_sent c = cs"

lemma chan_env_live: "chan_env e c = Some c' \<Longrightarrow> chan_live cs c \<Longrightarrow> chan_live cs c'"
  by (cases e) (auto simp: chan_live_def split: if_splits)

lemma chan_env_fin: "chan_env e c = Some c' \<Longrightarrow> chan_fin cs c \<Longrightarrow> chan_fin cs c'"
  by (cases e) (auto simp: chan_fin_def split: if_splits)

lemma chan_recv_value: "chan_recv c = Some (c', Some v) \<Longrightarrow> chan_live cs c \<Longrightarrow> chan_live (cs @ [v]) c'"
  by (auto simp: chan_recv_def chan_live_def split: list.splits if_splits)

lemma chan_recv_end: "chan_recv c = Some (c', None) \<Longrightarrow> chan_live cs c \<Longrightarrow> chan_fin cs c' \<and> c' = c"
  by (auto simp: chan_recv_def chan_live_def chan_fin_def split: list.splits if_splits)

interpretation mc: merge_source chan_recv chan_env chan_live chan_fin
  by unfold_locales (auto intro: chan_env_live chan_env_fin chan_recv_value dest: chan_recv_end)

definition MergeChannels :: "nat \<Rightarrow> ('a chan_event, 'a) merge_act
    \<Rightarrow> ('a chan, 'a) merge_state \<Rightarrow> ('a chan, 'a) merge_state option" where
  "MergeChannels cap = merge_step chan_recv chan_env cap"

abbreviation mc_reach :: "nat \<Rightarrow> ('a chan, 'a) merge_state \<Rightarrow> bool" where
  "mc_reach cap \<equiv> reach (\<lambda>s. s = merge_init new_chan new_chan) (act_step (MergeChannels cap))"

lemma mc_reach_inv: "mc_reach cap s \<Longrightarrow> mc.merge_inv s"
  by (rule mc.inv_reach) (auto simp: MergeChannels_def chan_live_def new_chan_def)

text \<open>
  C19. \<open>MergeChannels\<close>: no schedule sends on a closed channel; and when \<open>out\<close> is closed, both
  inputs were closed and drained and what \<open>out\<close> carried is an interleaving of exactly the
  values sent on \<open>a\<close> and on \<open>b\<close>, each in its own order.
\<close>

theorem MergeChannels_complete:
  assumes "mc_reach cap s"
  shows "\<not> panicked s \<and>
    (out_closed s \<longrightarrow> ch_closed (srcs s SideA) \<and> ch_closed (srcs s SideB) \<and>
       delivered s \<in> shuffles (ch_sent (srcs s SideA)) (ch_sent (srcs s SideB)))"
proof -
  from assms have inv: "mc.merge_inv s" by (rule mc_reach_inv)
  show ?thesis using mc.closed_complete [OF inv] inv by (auto simp: mc.merge_inv_def chan_fin_def)
qed

definition mc_example :: "(nat chan_event, nat) merge_act list" where
  "mc_example = [Env SideA (ChSend 1), Env SideB (ChSend 2), Pull SideB, Pull SideA, Send SideB,
     Env SideA ChClose, Env SideB ChClose, Pull SideB, Send SideA, Pull SideA, Close]"

theorem MergeChannels_complete_witness:
  "\<exists>s. run (MergeChannels 0) mc_example (merge_init new_chan new_chan) = Some s \<and> out_closed s \<and>
     delivered s = [2, 1] \<and> delivered s \<in> shuffles (ch_sent (srcs s SideA)) (ch_sent (srcs s SideB))"
proof -
  have "\<exists>s. run (MergeChannels 0) mc_example (merge_init new_chan new_chan) = Some s \<and>
      out_closed s \<and> delivered s = [2, 1]"
    by (simp add: mc_example_def MergeChannels_def merge_init_def new_chan_def chan_recv_def
        out_send_def delivered_def)
  then obtain s where s: "run (MergeChannels 0) mc_example (merge_init new_chan new_chan) = Some s"
    "out_closed s" "delivered s = [2, 1]" by blast
  from MergeChannels_complete [OF run_from [OF s(1)]] s show ?thesis by blast
qed

text \<open>
  C37. \<open>MergeChannels\<close> does not get stuck: while \<open>out\<close> is open and each input is closed or has
  a value, some step of a reader, of the closing goroutine or of the receiver is enabled.
\<close>

theorem MergeChannels_not_stuck:
  assumes "mc_reach cap s" and "\<not> out_closed s"
    and "\<And>x. ch_closed (srcs s x) \<or> ch_buf (srcs s x) \<noteq> []"
  shows "\<exists>act t. (\<forall>x e. act \<noteq> Env x e) \<and> MergeChannels cap act s = Some t"
proof -
  from assms(1) have "mc.merge_inv s" by (rule mc_reach_inv)
  moreover have "chan_recv (srcs s x) \<noteq> None" for x
    using assms(3) [of x] by (auto simp: chan_recv_def split: list.splits)
  ultimately show ?thesis
    using mc.not_stuck [of s cap] assms(2) by (simp add: MergeChannels_def)
qed

theorem MergeChannels_not_stuck_witness:
  "\<exists>s act t. run (MergeChannels 1) [Env SideA (ChSend (7 :: nat)), Env SideB ChClose]
       (merge_init new_chan new_chan) = Some s \<and> \<not> out_closed s \<and>
     (\<forall>x e. act \<noteq> Env x e) \<and> MergeChannels 1 act s = Some t"
proof -
  let ?s = "(merge_init new_chan new_chan)\<lparr>srcs := (\<lambda>x. case x of
      SideA \<Rightarrow> \<lparr>ch_buf = [7 :: nat], ch_closed = False, ch_sent = [7]\<rparr>
    | SideB \<Rightarrow> \<lparr>ch_buf = [], ch_closed = True, ch_sent = []\<rparr>)\<rparr>"
  have r: "run (MergeChannels 1) [Env SideA (ChSend (7 :: nat)), Env SideB ChClose]
       (merge_init new_chan new_chan) = Some ?s"
    by (auto simp: MergeChannels_def merge_init_def new_chan_def fun_eq_iff split: side.splits)
  moreover have "\<not> out_closed ?s" by (simp add: merge_init_def)
  moreover have "ch_closed (srcs ?s x) \<or> ch_buf (srcs ?s x) \<noteq> []" for x by (cases x) simp_all
  ultimately show ?thesis using MergeChannels_not_stuck [OF run_from [OF r]] by blast
qed

section \<open>Fetchers as sources: \<open>MergeFetches\<close>\<close>

text \<open>A fetcher that returns a finite list of strings and then \<open>"", false\<close>; it records whether
  \<open>Fetch\<close> was called again after it returned \<open>false\<close>.\<close>

record fetcher =
  f_rest :: "string list"
  f_all :: "string list"
  f_over :: bool
  f_abused :: bool

definition new_fetcher :: "string list \<Rightarrow> fetcher" where
  "new_fetcher xs = \<lparr>f_rest = xs, f_all = xs, f_over = False, f_abused = False\<rparr>"

definition Fetch :: "fetcher \<Rightarrow> (fetcher \<times> string option) option" where
  "Fetch f =
     (case f_rest f of
        v # vs \<Rightarrow> Some (f\<lparr>f_rest := vs\<rparr>, Some v)
      | [] \<Rightarrow> Some (f\<lparr>f_over := True, f_abused := f_abused f \<or> f_over f\<rparr>, None))"

definition no_env :: "unit \<Rightarrow> fetcher \<Rightarrow> fetcher option" where
  "no_env e f = None"

definition fetch_live :: "string list \<Rightarrow> fetcher \<Rightarrow> bool" where
  "fetch_live cs f \<longleftrightarrow> f_all f = cs @ f_rest f \<and> \<not> f_over f \<and> \<not> f_abused f"

definition fetch_fin :: "string list \<Rightarrow> fetcher \<Rightarrow> bool" where
  "fetch_fin cs f \<longleftrightarrow> f_all f = cs \<and> \<not> f_abused f"

interpretation mf: merge_source Fetch no_env fetch_live fetch_fin
  by unfold_locales (auto simp: Fetch_def no_env_def fetch_live_def fetch_fin_def split: list.splits)

definition MergeFetches :: "nat \<Rightarrow> (unit, string) merge_act
    \<Rightarrow> (fetcher, string) merge_state \<Rightarrow> (fetcher, string) merge_state option" where
  "MergeFetches cap = merge_step Fetch no_env cap"

text \<open>
  \<open>MergeFetches\<close> never calls \<open>Fetch\<close> on a fetcher that has returned \<open>false\<close>, never sends on
  the closed channel, and closes \<open>out\<close> only after an interleaving of everything the two
  fetchers return was written to it.
\<close>

theorem MergeFetches_complete:
  assumes "reach (\<lambda>s. s = merge_init (new_fetcher xs) (new_fetcher ys)) (act_step (MergeFetches cap)) s"
  shows "\<not> panicked s \<and> (\<forall>x. \<not> f_abused (srcs s x)) \<and>
    (out_closed s \<longrightarrow> delivered s \<in> shuffles (f_all (srcs s SideA)) (f_all (srcs s SideB)))"
proof -
  from assms have inv: "mf.merge_inv s"
    by (intro mf.inv_reach) (auto simp: MergeFetches_def fetch_live_def new_fetcher_def)
  have "\<not> f_abused (srcs s x)" for x
    using inv by (cases "pcs s x = RdDone")
      (auto simp: mf.merge_inv_def mf.src_ok_def fetch_live_def fetch_fin_def dest: spec [of _ x])
  then show ?thesis using mf.closed_complete [OF inv] inv by (auto simp: mf.merge_inv_def fetch_fin_def)
qed

theorem MergeFetches_complete_witness:
  "\<exists>s. run (MergeFetches 2) [Pull SideA, Send SideA, Pull SideB, Pull SideA, Close]
       (merge_init (new_fetcher [''x'']) (new_fetcher [])) = Some s \<and> out_closed s \<and>
     \<not> panicked s \<and> (\<forall>x. \<not> f_abused (srcs s x)) \<and>
     delivered s \<in> shuffles (f_all (srcs s SideA)) (f_all (srcs s SideB))"
proof -
  have "\<exists>s. run (MergeFetches 2) [Pull SideA, Send SideA, Pull SideB, Pull SideA, Close]
       (merge_init (new_fetcher [''x'']) (new_fetcher [])) = Some s \<and> out_closed s"
    by (simp add: MergeFetches_def merge_init_def new_fetcher_def Fetch_def out_send_def)
  then obtain s where s: "run (MergeFetches 2) [Pull SideA, Send SideA, Pull SideB, Pull SideA, Close]
       (merge_init (new_fetcher [''x'']) (new_fetcher [])) = Some s" "out_closed s" by blast
  from MergeFetches_complete [OF run_from [OF s(1)]] s show ?thesis by blast
qed

section \<open>Merging with cancellation: \<open>MergeChannelsOrCancel\<close>\<close>

text \<open>The caller of \<open>MergeChannelsOrCancel\<close>: before the first \<open>select\<close>, waiting on \<open>errCh\<close>, or
  returned with \<open>nil\<close> or an error.\<close>

datatype main_pc = MInit | MWait | MRet "string option"

text \<open>\<open>ctx\<close>: the error of the context once it is done.  \<open>polled x\<close>: the reader has passed the
  first \<open>select\<close> of this iteration.  \<open>errCh\<close>: the buffer of the channel of that name.\<close>

record 'a cancel_state = "('a chan, 'a) merge_state" +
  ctx :: "string option"
  spawned :: bool
  polled :: "side \<Rightarrow> bool"
  errCh :: "string option option"
  main :: main_pc

datatype 'a cancel_act =
    CStart
  | CPoll side
  | CSelCtx side
  | CSelRecv side
  | CSend side
  | CTake
  | CClose
  | CErr
  | CReturn
  | CEnv side "'a chan_event"
  | CCancel string

definition cancel_init :: "'a cancel_state" where
  "cancel_init = \<lparr>srcs = (\<lambda>_. new_chan), pcs = (\<lambda>_. RdRecv), wg = 0, out_buf = [], received = [],
     out_closed = False, panicked = False, consumed = (\<lambda>_. []), ctx = None, spawned = False,
     polled = (\<lambda>_. False), errCh = None, main = MInit\<rparr>"

definition rd_return :: "side \<Rightarrow> 'a cancel_state \<Rightarrow> 'a cancel_state" where
  "rd_return x s = s\<lparr>pcs := (pcs s)(x := RdDone), wg := wg s - 1\<rparr>"

definition reading :: "'a cancel_state \<Rightarrow> side \<Rightarrow> bool" where
  "reading s x \<longleftrightarrow> spawned s \<and> pcs s x = RdRecv"

definition close_out :: "'a cancel_state \<Rightarrow> 'a cancel_state" where
  "close_out s = (if out_closed s then s\<lparr>panicked := True\<rparr> else s\<lparr>out_closed := True\<rparr>)"

fun MergeChannelsOrCancel :: "nat \<Rightarrow> 'a cancel_act \<Rightarrow> 'a cancel_state \<Rightarrow> 'a cancel_state option" where
  "MergeChannelsOrCancel cap CStart s =
     (if main s = MInit then
        (case ctx s of
           Some e \<Rightarrow> Some ((close_out s)\<lparr>main := MRet (Some e)\<rparr>)
         | None \<Rightarrow> Some (s\<lparr>spawned := True, wg := 2, main := MWait\<rparr>))
      else None)"
| "MergeChannelsOrCancel cap (CPoll x) s =
     (if reading s x \<and> \<not> polled s x then
        Some (if ctx s \<noteq> None then rd_return x s else s\<lparr>polled := (polled s)(x := True)\<rparr>)
      else None)"
| "MergeChannelsOrCancel cap (CSelCtx x) s =
     (if reading s x \<and> polled s x \<and> ctx s \<noteq> None then Some (rd_return x s) else None)"
| "MergeChannelsOrCancel cap (CSelRecv x) s =
     (if reading s x \<and> polled s x then
        (case chan_recv (srcs s x) of
           None \<Rightarrow> None
         | Some (c, None) \<Rightarrow> Some (rd_return x (s\<lparr>srcs := (srcs s)(x := c)\<rparr>))
         | Some (c, Some v) \<Rightarrow>
             Some (s\<lparr>srcs := (srcs s)(x := c), pcs := (pcs s)(x := RdSend v),
                     polled := (polled s)(x := False),
                     consumed := (consumed s)(x := consumed s x @ [v])\<rparr>))
      else None)"
| "MergeChannelsOrCancel cap (CSend x) s =
     (case pcs s x of
        RdSend v \<Rightarrow> map_option (\<lambda>t. t\<lparr>pcs := (pcs t)(x := RdRecv)\<rparr>) (out_send cap v s)
      | _ \<Rightarrow> None)"
| "MergeChannelsOrCancel cap CTake s =
     (case out_buf s of
        [] \<Rightarrow> None
      | v # vs \<Rightarrow> Some (s\<lparr>out_buf := vs, received := received s @ [v]\<rparr>))"
| "MergeChannelsOrCancel cap CClose s =
     (if spawned s \<and> wg s = 0 \<and> \<not> out_closed s then Some (close_out s) else None)"
| "MergeChannelsOrCancel cap CErr s =
     (if spawned s \<and> out_closed s \<and> errCh s = None \<and> main s = MWait
      then Some (s\<lparr>errCh := Some (ctx s)\<rparr>) else None)"
| "MergeChannelsOrCancel cap CReturn s =
     (case (main s, errCh s) of
        (MWait, Some e) \<Rightarrow> Some (s\<lparr>main := MRet e, errCh := None\<rparr>)
      | _ \<Rightarrow> None)"
| "MergeChannelsOrCancel cap (CEnv x e) s =
     (case chan_env e (srcs s x) of None \<Rightarrow> None | Some c \<Rightarrow> Some (s\<lparr>srcs := (srcs s)(x := c)\<rparr>))"
| "MergeChannelsOrCancel cap (CCancel e) s =
     (if ctx s = None then Some (s\<lparr>ctx := Some e\<rparr>) else None)"

definition verdict_ok :: "'a cancel_state \<Rightarrow> string option \<Rightarrow> bool" where
  "verdict_ok s e \<longleftrightarrow> out_closed s \<and>
     (case e of None \<Rightarrow> spawned s \<and> (\<forall>x. chan_fin (consumed s x) (srcs s x)) | Some m \<Rightarrow> ctx s = Some m)"

definition merged :: "'a cancel_state \<Rightarrow> bool" where
  "merged s \<longleftrightarrow> (\<exists>da db. consumed s SideA = da @ pending (pcs s SideA) \<and>
     consumed s SideB = db @ pending (pcs s SideB) \<and> delivered s \<in> shuffles da db)"

definition cancel_inv :: "'a cancel_state \<Rightarrow> bool" where
  "cancel_inv s \<longleftrightarrow>
     \<not> panicked s \<and> merged s \<and> (\<forall>x. chan_live (consumed s x) (srcs s x)) \<and>
     (spawned s \<longrightarrow> wg s = running (pcs s SideA) + running (pcs s SideB) \<and> (out_closed s \<longrightarrow> wg s = 0)) \<and>
     (\<not> spawned s \<longrightarrow> (\<forall>x. pcs s x = RdRecv)) \<and>
     (main s = MInit \<longrightarrow> \<not> spawned s \<and> \<not> out_closed s) \<and> (main s = MWait \<longrightarrow> spawned s) \<and>
     (\<forall>x. pcs s x = RdDone \<longrightarrow> ctx s \<noteq> None \<or> chan_fin (consumed s x) (srcs s x)) \<and>
     (\<forall>e. errCh s = Some e \<longrightarrow> verdict_ok s e) \<and> (\<forall>e. main s = MRet e \<longrightarrow> verdict_ok s e)"

lemma verdict_ok_mono:
  assumes "verdict_ok s e" and "out_closed t" and "spawned t = spawned s"
    and "\<And>x. chan_fin (consumed s x) (srcs s x) \<Longrightarrow> chan_fin (consumed t x) (srcs t x)"
    and "\<And>m. ctx s = Some m \<Longrightarrow> ctx t = Some m"
  shows "verdict_ok t e"
  using assms by (cases e) (auto simp: verdict_ok_def)

lemma verdict_ok_frame [simp]:
  "verdict_ok (s\<lparr>polled := p\<rparr>) e = verdict_ok s e"
  "verdict_ok (s\<lparr>out_buf := b, received := r\<rparr>) e = verdict_ok s e"
  "verdict_ok (s\<lparr>errCh := c\<rparr>) e = verdict_ok s e"
  "verdict_ok (s\<lparr>errCh := c, main := m\<rparr>) e = verdict_ok s e"
  by (simp_all add: verdict_ok_def split: option.split)

lemma cancel_inv_init: "cancel_inv cancel_init"
  by (simp add: cancel_inv_def cancel_init_def merged_def delivered_def chan_live_def new_chan_def)

lemma cancel_open:
  assumes "cancel_inv s" and "spawned s" and "pcs s x \<noteq> RdDone"
  shows "\<not> out_closed s \<and> main s \<noteq> MRet e \<and> errCh s = None"
proof -
  have "0 < wg s" using assms by (cases x) (auto simp: cancel_inv_def running_def)
  then have "\<not> out_closed s" using assms by (auto simp: cancel_inv_def)
  then show ?thesis using assms(1) by (auto simp: cancel_inv_def verdict_ok_def)
qed

lemma cancel_inv_return:
  assumes inv: "cancel_inv s" and rd: "spawned s" "pcs s x = RdRecv"
    and why: "ctx s \<noteq> None \<or> chan_fin (consumed s x) (srcs s x)"
  shows "cancel_inv (rd_return x s)"
proof -
  have "merged (rd_return x s)"
    using inv rd by (cases x) (auto simp: cancel_inv_def merged_def rd_return_def delivered_def)
  with inv rd why cancel_open [OF inv rd(1), of x] show ?thesis
    by (cases x) (auto simp: cancel_inv_def rd_return_def running_def)
qed

lemma cancel_inv_recv:
  assumes inv: "cancel_inv s" and act: "MergeChannelsOrCancel cap (CSelRecv x) s = Some t"
  shows "cancel_inv t"
proof -
  from act have rd: "spawned s" "pcs s x = RdRecv" and p: "polled s x"
    by (auto simp: reading_def split: if_splits)
  then obtain c r where cr: "chan_recv (srcs s x) = Some (c, r)"
    using act by (auto simp: reading_def split: option.splits)
  have live: "chan_live (consumed s x) (srcs s x)" using inv by (simp add: cancel_inv_def)
  show ?thesis
  proof (cases r)
    case None
    with cr live have "chan_fin (consumed s x) (srcs s x)" and c: "c = srcs s x"
      using chan_recv_end by blast+
    moreover have "t = rd_return x s" using act rd p cr None c by (simp add: reading_def)
    ultimately show ?thesis using cancel_inv_return [OF inv rd] by simp
  next
    case (Some v)
    then have t: "t = s\<lparr>srcs := (srcs s)(x := c), pcs := (pcs s)(x := RdSend v),
        polled := (polled s)(x := False), consumed := (consumed s)(x := consumed s x @ [v])\<rparr>"
      using act rd p cr by (simp add: reading_def)
    have "merged t" using inv rd t by (cases x) (auto simp: cancel_inv_def merged_def delivered_def)
    moreover have "chan_live (consumed s x @ [v]) c" using chan_recv_value [OF _ live] cr Some by blast
    ultimately show ?thesis
      using inv rd t cancel_open [OF inv rd(1), of x] by (cases x) (auto simp: cancel_inv_def running_def)
  qed
qed

lemma cancel_inv_send:
  assumes inv: "cancel_inv s" and act: "MergeChannelsOrCancel cap (CSend x) s = Some t"
  shows "cancel_inv t"
proof -
  from act obtain v where pc: "pcs s x = RdSend v" by (auto split: rd_pc.splits)
  have sp: "spawned s" using inv pc by (auto simp: cancel_inv_def)
  have op: "\<not> out_closed s \<and> main s \<noteq> MRet e \<and> errCh s = None" for e
    using cancel_open [OF inv sp, of x] pc by simp
  from act pc op have dt: "delivered t = delivered s @ [v]"
    and t: "pcs t = (pcs s)(x := RdRecv)" "consumed t = consumed s" "srcs t = srcs s" "wg t = wg s"
      "out_closed t = out_closed s" "panicked t = panicked s" "ctx t = ctx s" "spawned t = spawned s"
      "errCh t = errCh s" "main t = main s"
    by (auto simp: out_send_def delivered_def split: if_splits)
  from inv obtain da db where d: "consumed s SideA = da @ pending (pcs s SideA)"
    "consumed s SideB = db @ pending (pcs s SideB)" "delivered s \<in> shuffles da db"
    by (auto simp: cancel_inv_def merged_def)
  have "merged t"
  proof (cases x)
    case SideA
    then show ?thesis using d t pc dt shuffles_snoc_left [OF d(3), of v]
      unfolding merged_def by (intro exI [of _ "da @ [v]"] exI [of _ db]) auto
  next
    case SideB
    then show ?thesis using d t pc dt shuffles_snoc_right [OF d(3), of v]
      unfolding merged_def by (intro exI [of _ da] exI [of _ "db @ [v]"]) auto
  qed
  moreover have "running (pcs t y) = running (pcs s y)" for y using t pc by (auto simp: running_def)
  ultimately show ?thesis using inv t op sp by (auto simp: cancel_inv_def)
qed

lemma cancel_inv_env:
  assumes inv: "cancel_inv s" and act: "MergeChannelsOrCancel cap (CEnv x e) s = Some t"
  shows "cancel_inv t"
proof -
  from act obtain c where c: "chan_env e (srcs s x) = Some c" "t = s\<lparr>srcs := (srcs s)(x := c)\<rparr>"
    by (auto split: option.splits)
  have fin: "chan_fin (consumed s y) (srcs s y) \<Longrightarrow> chan_fin (consumed t y) (srcs t y)" for y
    using c chan_env_fin [OF c(1)] by auto
  have live: "chan_live (consumed t y) (srcs t y)" for y
    using inv c chan_env_live [OF c(1)] by (auto simp: cancel_inv_def)
  have ver: "verdict_ok s m \<Longrightarrow> verdict_ok t m" for m
    by (rule verdict_ok_mono [of s]) (use c fin in \<open>auto simp: verdict_ok_def\<close>)
  have "merged t" using inv c by (simp add: cancel_inv_def merged_def delivered_def)
  moreover have "\<forall>y. pcs s y = RdDone \<longrightarrow> ctx s \<noteq> None \<or> chan_fin (consumed t y) (srcs t y)"
    using inv fin by (auto simp: cancel_inv_def)
  ultimately show ?thesis using inv live ver c(2) by (auto simp: cancel_inv_def)
qed

lemma cancel_inv_close:
  assumes inv: "cancel_inv s" and sp: "spawned s" "wg s = 0" "\<not> out_closed s"
  shows "cancel_inv (close_out s)"
proof -
  have "errCh s = None" "main s = MWait"
    using inv sp by (auto simp: cancel_inv_def verdict_ok_def intro: main_pc.exhaust)
  with inv sp show ?thesis
    by (auto simp: cancel_inv_def close_out_def merged_def delivered_def)
qed

lemma cancel_inv_err:
  assumes inv: "cancel_inv s" and sp: "spawned s" "out_closed s" "main s = MWait"
  shows "cancel_inv (s\<lparr>errCh := Some (ctx s)\<rparr>)"
proof -
  have "pcs s x = RdDone" for x
    using inv sp by (cases x) (auto simp: cancel_inv_def running_def split: if_splits)
  then have "verdict_ok (s\<lparr>errCh := Some (ctx s)\<rparr>) (ctx s)"
    using inv sp by (auto simp: cancel_inv_def verdict_ok_def split: option.splits)
  with inv sp show ?thesis by (auto simp: cancel_inv_def merged_def delivered_def)
qed

lemma cancel_inv_start:
  assumes inv: "cancel_inv s" and act: "MergeChannelsOrCancel cap CStart s = Some t"
  shows "cancel_inv t"
proof -
  have mi: "main s = MInit" using act by (simp split: if_splits)
  then have ns: "\<not> spawned s" "\<not> out_closed s" "\<forall>x. pcs s x = RdRecv" "errCh s = None"
    using inv by (auto simp: cancel_inv_def verdict_ok_def)
  show ?thesis
  proof (cases "ctx s")
    case None
    with act mi inv ns show ?thesis
      by (auto simp: cancel_inv_def merged_def delivered_def running_def)
  next
    case (Some m)
    then have t: "t = s\<lparr>out_closed := True, main := MRet (Some m)\<rparr>"
      using act mi ns by (simp add: close_out_def)
    have "verdict_ok t (Some m)" by (simp add: t verdict_ok_def Some)
    with t inv ns show ?thesis by (auto simp: cancel_inv_def merged_def delivered_def)
  qed
qed

lemma cancel_inv_cancel:
  assumes inv: "cancel_inv s" and c: "ctx s = None"
  shows "cancel_inv (s\<lparr>ctx := Some e\<rparr>)"
proof -
  have "verdict_ok s m \<Longrightarrow> verdict_ok (s\<lparr>ctx := Some e\<rparr>) m" for m
    by (rule verdict_ok_mono [of s]) (use c in \<open>auto simp: verdict_ok_def\<close>)
  with inv show ?thesis by (auto simp: cancel_inv_def merged_def delivered_def)
qed

lemma cancel_inv_act:
  assumes act: "MergeChannelsOrCancel cap a s = Some t" and inv: "cancel_inv s"
  shows "cancel_inv t"
proof (cases a)
  case (CPoll x)
  with act consider "t = rd_return x s" "reading s x" "ctx s \<noteq> None"
    | "t = s\<lparr>polled := (polled s)(x := True)\<rparr>" by (auto split: if_splits)
  then show ?thesis
  proof cases
    case 1
    then show ?thesis using cancel_inv_return [OF inv] by (auto simp: reading_def)
  next
    case 2
    then show ?thesis using inv by (auto simp: cancel_inv_def merged_def delivered_def)
  qed
next
  case (CSelCtx x)
  with act show ?thesis using cancel_inv_return [OF inv] by (auto simp: reading_def split: if_splits)
next
  case CTake
  with act inv show ?thesis
    by (auto simp: cancel_inv_def merged_def delivered_def split: list.splits)
next
  case CReturn
  with act obtain e where "main s = MWait" "errCh s = Some e" "t = s\<lparr>errCh := None, main := MRet e\<rparr>"
    by (auto split: main_pc.splits option.splits)
  with inv show ?thesis by (auto simp: cancel_inv_def merged_def delivered_def)
qed (use act inv in \<open>auto intro: cancel_inv_recv cancel_inv_send cancel_inv_env cancel_inv_start
       cancel_inv_close cancel_inv_err cancel_inv_cancel split: if_splits\<close>)

interpretation mcc: machine_invariant "\<lambda>s. s = cancel_init" "MergeChannelsOrCancel cap" cancel_inv
  for cap :: nat
  by unfold_locales (auto intro: cancel_inv_act cancel_inv_init)

text \<open>
  C20. When \<open>MergeChannelsOrCancel\<close> returns, \<open>out\<close> is closed exactly once and nothing is sent on
  it afterwards, every value read from an input was written to it, and the result is right:
  \<open>nil\<close> only if both inputs were closed and merged completely, an error only if it is the
  error of the context.
\<close>

theorem MergeChannelsOrCancel_result:
  assumes "reach (\<lambda>s. s = cancel_init) (act_step (MergeChannelsOrCancel cap)) s" and "main s = MRet e"
  shows "out_closed s \<and> \<not> panicked s \<and> delivered s \<in> shuffles (consumed s SideA) (consumed s SideB) \<and>
    (e = None \<longrightarrow> delivered s \<in> shuffles (ch_sent (srcs s SideA)) (ch_sent (srcs s SideB))) \<and>
    (\<forall>m. e = Some m \<longrightarrow> ctx s = Some m)"
proof -
  from assms(1) have inv: "cancel_inv s" by (rule mcc.reach_inv)
  have v: "verdict_ok s e" using inv assms(2) by (simp add: cancel_inv_def)
  have "pending (pcs s x) = []" for x
  proof (cases "spawned s \<and> pcs s x \<noteq> RdDone")
    case True
    then show ?thesis using cancel_open [OF inv, of x e] assms(2) by simp
  next
    case False
    then show ?thesis using inv by (auto simp: cancel_inv_def)
  qed
  then have "delivered s \<in> shuffles (consumed s SideA) (consumed s SideB)"
    using inv by (auto simp: cancel_inv_def merged_def)
  with v inv show ?thesis by (auto simp: verdict_ok_def cancel_inv_def chan_fin_def)
qed

definition cancel_example :: "nat cancel_act list" where
  "cancel_example = [CEnv SideA (ChSend 4), CStart, CPoll SideA, CPoll SideB, CSelRecv SideA,
     CCancel ''context canceled'', CSend SideA, CPoll SideA, CSelCtx SideB, CClose, CErr, CReturn]"

theorem MergeChannelsOrCancel_result_witness:
  "\<exists>s. run (MergeChannelsOrCancel 0) cancel_example cancel_init = Some s \<and>
     main s = MRet (Some ''context canceled'') \<and> out_closed s \<and> delivered s = [4] \<and>
     ctx s = Some ''context canceled''"
proof -
  have "\<exists>s. run (MergeChannelsOrCancel 0) cancel_example cancel_init = Some s \<and>
      main s = MRet (Some ''context canceled'') \<and> delivered s = [4]"
    by (simp add: cancel_example_def cancel_init_def new_chan_def chan_recv_def reading_def
        out_send_def delivered_def rd_return_def close_out_def)
  then obtain s where s: "run (MergeChannelsOrCancel 0) cancel_example cancel_init = Some s"
    "main s = MRet (Some ''context canceled'')" "delivered s = [4]" by blast
  from MergeChannelsOrCancel_result [OF run_from [OF s(1)] s(2)] s show ?thesis by blast
qed

end
