(* ===== verification/ParallelFetcher.thy ===== *)
theory ParallelFetcher
  imports Prelude
begin

text \<open>
  \<^verbatim>\<open>lab0/parallel_fetcher.go\<close>: \<open>ParallelFetcher.Fetch\<close> as a machine over goroutines.  The
  weighted semaphore of \<^verbatim>\<open>golang.org/x/sync/semaphore\<close> is a parameter: \<open>acq\<close> is
  \<open>Acquire(context.Background(), 1)\<close> (\<open>None\<close>: blocked, \<open>Inl\<close>: an error), \<open>rel\<close> is
  \<open>Release(1)\<close>; what the code relies on is the predicate \<open>weighted_ok\<close>.  The underlying
  \<open>Fetcher\<close> answers its successive calls from a list and then with \<open>"", false\<close>.
\<close>

section \<open>The machine\<close>

text \<open>\<open>PfInside\<close>: between the call of \<open>pf.fetcher.Fetch()\<close> and its return.  \<open>PfUnlock s fetched\<close>: it
  returned, \<open>callAgain\<close> is updated and the deferred \<open>Release\<close> is pending.\<close>

datatype pf_pc =
    PfIdle
  | PfCheck
  | PfAcquire
  | PfInside
  | PfUnlock string bool
  | PfRet string bool

text \<open>History variables: \<open>pf_over\<close>, the underlying fetcher has returned \<open>false\<close>; \<open>pf_late\<close>, a
  call of it began after that.\<close>

record 'w ParallelFetcher =
  sema :: 'w
  callAgain :: bool
  pf_rest :: "string list"
  pf_pcs :: "tid \<Rightarrow> pf_pc"
  pf_over :: bool
  pf_late :: bool

definition NewParallelFetcher :: "(int \<Rightarrow> 'w) \<Rightarrow> string list \<Rightarrow> int \<Rightarrow> 'w ParallelFetcher" where
  "NewParallelFetcher new_weighted answers maxConcurrencyLimit =
     \<lparr>sema = new_weighted (max maxConcurrencyLimit 1), callAgain = True, pf_rest = answers,
      pf_pcs = (\<lambda>_. PfIdle), pf_over = False, pf_late = False\<rparr>"

datatype pf_event = PfCall tid | PfStep tid

definition ParallelFetcher_Fetch :: "('w \<Rightarrow> (string + 'w) option) \<Rightarrow> ('w \<Rightarrow> 'w) \<Rightarrow> tid
    \<Rightarrow> 'w ParallelFetcher \<Rightarrow> 'w ParallelFetcher option" where
  "ParallelFetcher_Fetch acq rel i pf =
     (let goto = (\<lambda>pf p. pf\<lparr>pf_pcs := (pf_pcs pf)(i := p)\<rparr>) in
      case pf_pcs pf i of
        PfCheck \<Rightarrow> Some (goto pf (if \<not> callAgain pf then PfRet '''' False else PfAcquire))
      | PfAcquire \<Rightarrow>
          (case acq (sema pf) of
             None \<Rightarrow> None
           | Some (Inl err) \<Rightarrow> Some (goto pf (PfRet '''' False))
           | Some (Inr w) \<Rightarrow> Some ((goto pf PfInside)\<lparr>sema := w, pf_late := pf_late pf \<or> pf_over pf\<rparr>))
      | PfInside \<Rightarrow>
          (case pf_rest pf of
             s # ss \<Rightarrow> Some ((goto pf (PfUnlock s True))\<lparr>pf_rest := ss\<rparr>)
           | [] \<Rightarrow> Some ((goto pf (PfUnlock '''' False))\<lparr>callAgain := False, pf_over := True\<rparr>))
      | PfUnlock s fetched \<Rightarrow> Some ((goto pf (PfRet s fetched))\<lparr>sema := rel (sema pf)\<rparr>)
      | _ \<Rightarrow> None)"

fun pf_act :: "('w \<Rightarrow> (string + 'w) option) \<Rightarrow> ('w \<Rightarrow> 'w) \<Rightarrow> pf_event
    \<Rightarrow> 'w ParallelFetcher \<Rightarrow> 'w ParallelFetcher option" where
  "pf_act acq rel (PfCall i) pf =
     (case pf_pcs pf i of
        PfIdle \<Rightarrow> Some (pf\<lparr>pf_pcs := (pf_pcs pf)(i := PfCheck)\<rparr>)
      | PfRet s fetched \<Rightarrow> Some (pf\<lparr>pf_pcs := (pf_pcs pf)(i := PfCheck)\<rparr>)
      | _ \<Rightarrow> None)"
| "pf_act acq rel (PfStep i) pf = ParallelFetcher_Fetch acq rel i pf"

section \<open>What the code relies on in the semaphore\<close>

text \<open>\<open>held w\<close> is the weight currently acquired and \<open>size w\<close> the bound given to \<open>NewWeighted\<close>:
  \<open>Acquire\<close> takes one unit and never exceeds the bound, \<open>Release\<close> returns one.\<close>

definition weighted_ok :: "(int \<Rightarrow> 'w) \<Rightarrow> ('w \<Rightarrow> (string + 'w) option) \<Rightarrow> ('w \<Rightarrow> 'w) \<Rightarrow> ('w \<Rightarrow> nat)
    \<Rightarrow> ('w \<Rightarrow> int) \<Rightarrow> bool" where
  "weighted_ok new_weighted acq rel held wsize \<longleftrightarrow>
     (\<forall>n. held (new_weighted n) = 0 \<and> wsize (new_weighted n) = n) \<and>
     (\<forall>w w'. acq w = Some (Inr w') \<longrightarrow>
        held w' = Suc (held w) \<and> wsize w' = wsize w \<and> int (held w') \<le> wsize w) \<and>
     (\<forall>w. held (rel w) = held w - 1 \<and> wsize (rel w) = wsize w)"

section \<open>The concurrency bound\<close>

fun holding :: "pf_pc \<Rightarrow> bool" where
  "holding PfInside = True"
| "holding (PfUnlock s fetched) = True"
| "holding _ = False"

definition holders :: "'w ParallelFetcher \<Rightarrow> tid set" where
  "holders pf = {i. holding (pf_pcs pf i)}"

definition pf_inv :: "('w \<Rightarrow> nat) \<Rightarrow> ('w \<Rightarrow> int) \<Rightarrow> int \<Rightarrow> 'w ParallelFetcher \<Rightarrow> bool" where
  "pf_inv held wsize n pf \<longleftrightarrow>
     finite (holders pf) \<and> card (holders pf) = held (sema pf) \<and> wsize (sema pf) = n \<and>
     (0 < held (sema pf) \<longrightarrow> int (held (sema pf)) \<le> n)"

lemma holders_upd:
  "holders (pf\<lparr>pf_pcs := (pf_pcs pf)(i := p)\<rparr>) =
     (if holding p then insert i (holders pf) else holders pf - {i})"
  by (auto simp: holders_def)

lemma holders_frame [simp]:
  "holders (pf\<lparr>sema := w\<rparr>) = holders pf"
  "holders (pf\<lparr>callAgain := b\<rparr>) = holders pf"
  "holders (pf\<lparr>pf_rest := r\<rparr>) = holders pf"
  "holders (pf\<lparr>pf_over := b\<rparr>) = holders pf"
  "holders (pf\<lparr>pf_late := b\<rparr>) = holders pf"
  by (simp_all add: holders_def)

lemma pf_inv_move:
  assumes "pf_inv held wsize n pf" and "holding (pf_pcs pf i) = holding p"
    and "holders pf' = holders (pf\<lparr>pf_pcs := (pf_pcs pf)(i := p)\<rparr>)" and "sema pf' = sema pf"
  shows "pf_inv held wsize n pf'"
proof -
  have "holders pf' = holders pf"
    using assms(2,3) by (auto simp: holders_upd holders_def)
  with assms(1,4) show ?thesis by (simp add: pf_inv_def)
qed

lemma pf_inv_Fetch:
  assumes ok: "weighted_ok new_weighted acq rel held wsize"
    and act: "ParallelFetcher_Fetch acq rel i pf = Some pf'" and inv: "pf_inv held wsize n pf"
  shows "pf_inv held wsize n pf'"
proof (cases "pf_pcs pf i")
  case PfCheck
  with act show ?thesis
    by (intro pf_inv_move [OF inv, of i "if \<not> callAgain pf then PfRet '''' False else PfAcquire"])
      (auto simp: ParallelFetcher_Fetch_def)
next
  case PfAcquire
  with act consider err where "pf' = pf\<lparr>pf_pcs := (pf_pcs pf)(i := PfRet '''' False)\<rparr>"
      "acq (sema pf) = Some (Inl err)"
    | w where "acq (sema pf) = Some (Inr w)" "sema pf' = w"
      "holders pf' = holders (pf\<lparr>pf_pcs := (pf_pcs pf)(i := PfInside)\<rparr>)"
    by (auto simp: ParallelFetcher_Fetch_def split: option.splits sum.splits)
  then show ?thesis
  proof cases
    case 1
    with PfAcquire show ?thesis by (intro pf_inv_move [OF inv, of i "PfRet '''' False"]) auto
  next
    case (2 w)
    have "i \<notin> holders pf" using PfAcquire by (simp add: holders_def)
    moreover have "held w = Suc (held (sema pf))" "wsize w = wsize (sema pf)" "int (held w) \<le> wsize (sema pf)"
      using ok 2(1) unfolding weighted_ok_def by blast+
    ultimately show ?thesis using inv 2 by (simp add: pf_inv_def holders_upd)
  qed
next
  case PfInside
  with act obtain s fetched where "holders pf' = holders (pf\<lparr>pf_pcs := (pf_pcs pf)(i := PfUnlock s fetched)\<rparr>)"
    "sema pf' = sema pf" by (auto simp: ParallelFetcher_Fetch_def split: list.splits)
  with PfInside show ?thesis by (intro pf_inv_move [OF inv, of i "PfUnlock s fetched"]) auto
next
  case (PfUnlock s fetched)
  with act have p: "holders pf' = holders (pf\<lparr>pf_pcs := (pf_pcs pf)(i := PfRet s fetched)\<rparr>)"
    "sema pf' = rel (sema pf)" by (auto simp: ParallelFetcher_Fetch_def)
  have "i \<in> holders pf" using PfUnlock by (simp add: holders_def)
  then have "card (holders pf - {i}) = card (holders pf) - 1" by (rule card_Diff_singleton)
  moreover have "held (sema pf') = held (sema pf) - 1" "wsize (sema pf') = wsize (sema pf)"
    using ok unfolding weighted_ok_def p(2) by blast+
  moreover have "holders pf' = holders pf - {i}" using p(1) by (simp add: holders_upd)
  ultimately show ?thesis using inv unfolding pf_inv_def by (simp, linarith)
qed (use act in \<open>auto simp: ParallelFetcher_Fetch_def\<close>)

lemma pf_inv_act:
  assumes ok: "weighted_ok new_weighted acq rel held wsize"
    and act: "pf_act acq rel a pf = Some pf'" and inv: "pf_inv held wsize n pf"
  shows "pf_inv held wsize n pf'"
proof (cases a)
  case (PfCall i)
  with act show ?thesis
    by (intro pf_inv_move [OF inv, of i PfCheck]) (auto split: pf_pc.splits)
next
  case (PfStep i)
  with act show ?thesis using pf_inv_Fetch [OF ok _ inv] by simp
qed

lemma pf_inv_init:
  assumes "weighted_ok new_weighted acq rel held wsize"
  shows "pf_inv held wsize (max limit 1) (NewParallelFetcher new_weighted answers limit)"
  using assms by (simp add: pf_inv_def NewParallelFetcher_def holders_def weighted_ok_def)

lemma pf_reach_inv:
  assumes ok: "weighted_ok new_weighted acq rel held wsize"
    and "reach (\<lambda>s. s = NewParallelFetcher new_weighted answers limit) (act_step (pf_act acq rel)) pf"
  shows "pf_inv held wsize (max limit 1) pf"
  using assms(2)
  by (induction rule: reach.induct) (auto elim: act_stepE intro: pf_inv_init [OF ok] pf_inv_act [OF ok])

text \<open>
  C35. At any time at most \<open>max maxConcurrencyLimit 1\<close> goroutines are inside
  \<open>pf.fetcher.Fetch()\<close>.
\<close>

theorem ParallelFetcher_bound:
  assumes ok: "weighted_ok new_weighted acq rel held wsize"
    and r: "reach (\<lambda>s. s = NewParallelFetcher new_weighted answers limit) (act_step (pf_act acq rel)) pf"
  shows "int (card {i. pf_pcs pf i = PfInside}) \<le> max limit 1"
proof -
  from pf_reach_inv [OF ok r] have inv: "pf_inv held wsize (max limit 1) pf" .
  have "{i. pf_pcs pf i = PfInside} \<subseteq> holders pf" by (auto simp: holders_def)
  then have "card {i. pf_pcs pf i = PfInside} \<le> card (holders pf)"
    using inv by (intro card_mono) (auto simp: pf_inv_def)
  with inv show ?thesis by (auto simp: pf_inv_def)
qed

text \<open>A concrete semaphore: the held weight and the size.\<close>

definition count_acq :: "nat \<times> int \<Rightarrow> (string + nat \<times> int) option" where
  "count_acq w = (if int (fst w) < snd w then Some (Inr (Suc (fst w), snd w)) else None)"

definition count_rel :: "nat \<times> int \<Rightarrow> nat \<times> int" where
  "count_rel w = (fst w - 1, snd w)"

lemma count_weighted_ok: "weighted_ok (\<lambda>n. (0, n)) count_acq count_rel fst snd"
  by (auto simp: weighted_ok_def count_acq_def count_rel_def split: if_splits)

theorem ParallelFetcher_bound_witness:
  "\<exists>pf. run (pf_act count_acq count_rel) [PfCall 1, PfStep 1, PfStep 1, PfCall 2, PfStep 2]
       (NewParallelFetcher (\<lambda>n. (0, n)) [''x''] 0) = Some pf \<and> pf_pcs pf 1 = PfInside \<and>
     pf_act count_acq count_rel (PfStep 2) pf = None \<and>
     int (card {i. pf_pcs pf i = PfInside}) \<le> max 0 1"
proof -
  have "\<exists>pf. run (pf_act count_acq count_rel) [PfCall 1, PfStep 1, PfStep 1, PfCall 2, PfStep 2]
       (NewParallelFetcher (\<lambda>n. (0, n)) [''x''] 0) = Some pf \<and> pf_pcs pf 1 = PfInside \<and>
     pf_act count_acq count_rel (PfStep 2) pf = None"
    by (simp add: NewParallelFetcher_def ParallelFetcher_Fetch_def count_acq_def Let_def)
  then obtain pf where pf: "run (pf_act count_acq count_rel) [PfCall 1, PfStep 1, PfStep 1, PfCall 2, PfStep 2]
       (NewParallelFetcher (\<lambda>n. (0, n)) [''x''] 0) = Some pf" "pf_pcs pf 1 = PfInside"
     "pf_act count_acq count_rel (PfStep 2) pf = None" by blast
  from ParallelFetcher_bound [OF count_weighted_ok run_from [OF pf(1)]] pf show ?thesis by blast
qed

section \<open>Calls after the end\<close>

text \<open>Goroutine 2 passes the test of \<open>callAgain\<close> and blocks in \<open>Acquire\<close>; goroutine 1 gets
  \<open>false\<close> and releases; goroutine 2 then calls \<open>Fetch\<close> without looking again.\<close>

definition pf_late_acts :: "pf_event list" where
  "pf_late_acts = [PfCall 1, PfStep 1, PfStep 1, PfCall 2, PfStep 2, PfStep 1, PfStep 1, PfStep 2]"

text \<open>
  \<open>Fetch\<close> of the underlying fetcher can be called after it has returned \<open>false\<close>: with limit
  1 and an empty source, a goroutine that was waiting in \<open>Acquire\<close> calls it once fetched, although
  no call was in progress when \<open>false\<close> was returned and released.
\<close>

theorem ParallelFetcher_late_call:
  "\<exists>pf. reach (\<lambda>s. s = NewParallelFetcher (\<lambda>n. (0, n)) [] 1) (act_step (pf_act count_acq count_rel)) pf \<and>
     \<not> callAgain pf \<and> pf_pcs pf 1 = PfRet '''' False \<and> pf_pcs pf 2 = PfInside \<and> pf_late pf"
proof -
  have "\<exists>pf. run (pf_act count_acq count_rel) pf_late_acts (NewParallelFetcher (\<lambda>n. (0, n)) [] 1) = Some pf \<and>
     \<not> callAgain pf \<and> pf_pcs pf 1 = PfRet '''' False \<and> pf_pcs pf 2 = PfInside \<and> pf_late pf"
    by (simp add: pf_late_acts_def NewParallelFetcher_def ParallelFetcher_Fetch_def count_acq_def
        count_rel_def Let_def)
  then obtain pf where pf: "run (pf_act count_acq count_rel) pf_late_acts (NewParallelFetcher (\<lambda>n. (0, n)) [] 1) = Some pf"
    "\<not> callAgain pf" "pf_pcs pf 1 = PfRet '''' False" "pf_pcs pf 2 = PfInside" "pf_late pf" by blast
  from run_from [OF pf(1)] pf(2-) show ?thesis by blast
qed

end
