(* ===== verification/Persister.thy ===== *)
theory Persister
  imports Prelude
begin

text \<open>
  \<^verbatim>\<open>lab3/raft/persister.go\<close>: the stable storage of a Raft peer.  Byte slices are lists over a
  type of stored items; every read and every save copies, and a slice that was saved is never
  written in place, so sharing between a persister and its \<open>Copy\<close> is not observable.
\<close>

record 'b Persister =
  raftstate :: "'b list"
  snapshot :: "'b list"

definition MakePersister :: "'b Persister" where
  "MakePersister = \<lparr>raftstate = [], snapshot = []\<rparr>"

definition clone :: "'b list \<Rightarrow> 'b list" where
  "clone orig = map (\<lambda>i. orig ! i) [0..<length orig]"

definition Copy :: "'b Persister \<Rightarrow> 'b Persister" where
  "Copy ps = MakePersister\<lparr>raftstate := raftstate ps, snapshot := snapshot ps\<rparr>"

definition SaveRaftState :: "'b list \<Rightarrow> 'b Persister \<Rightarrow> 'b Persister" where
  "SaveRaftState state ps = ps\<lparr>raftstate := clone state\<rparr>"

definition ReadRaftState :: "'b Persister \<Rightarrow> 'b list" where
  "ReadRaftState ps = clone (raftstate ps)"

definition RaftStateSize :: "'b Persister \<Rightarrow> nat" where
  "RaftStateSize ps = length (raftstate ps)"

definition SaveStateAndSnapshot :: "'b list \<Rightarrow> 'b list \<Rightarrow> 'b Persister \<Rightarrow> 'b Persister" where
  "SaveStateAndSnapshot state snap ps = ps\<lparr>raftstate := clone state, snapshot := clone snap\<rparr>"

definition ReadSnapshot :: "'b Persister \<Rightarrow> 'b list" where
  "ReadSnapshot ps = clone (snapshot ps)"

definition SnapshotSize :: "'b Persister \<Rightarrow> nat" where
  "SnapshotSize ps = length (snapshot ps)"

lemma clone_id [simp]: "clone xs = xs"
  by (simp add: clone_def map_nth)

section \<open>The interface of stable storage\<close>

text \<open>What a client of the storage relies on: a read returns what was last saved, also through
  a copy, and saving one part leaves the other alone.\<close>

locale stable_storage =
  fixes save :: "'b list \<Rightarrow> 'p \<Rightarrow> 'p" and read :: "'p \<Rightarrow> 'b list" and copy :: "'p \<Rightarrow> 'p"
    and read_snap :: "'p \<Rightarrow> 'b list"
  assumes read_save: "read (save d p) = d"
    and read_copy: "read (copy p) = read p"
    and snap_save: "read_snap (save d p) = read_snap p"
    and snap_copy: "read_snap (copy p) = read_snap p"
begin

lemma read_after_crash: "read (copy (copy (save d p))) = d"
  by (simp add: read_copy read_save)

lemma last_save_wins: "read (copy (fold save ds (save d p))) = last (d # ds)"
proof (induction ds arbitrary: d p)
  case Nil
  then show ?case by (simp add: read_copy read_save)
next
  case (Cons e es)
  from Cons.IH [of e "save d p"] show ?case by simp
qed

end

interpretation stable: stable_storage SaveRaftState ReadRaftState Copy ReadSnapshot
  by unfold_locales
    (simp_all add: SaveRaftState_def ReadRaftState_def Copy_def ReadSnapshot_def)

end
