(* ===== verification/Raft.thy ===== *)
theory Raft
  imports Persister
begin

text \<open>
  \<^verbatim>\<open>lab3/raft/raft.go\<close>: one Raft peer.  Every section of the code that runs under \<open>rf.mu\<close> is one
  definition on the record \<open>Raft\<close>; an index or slice expression out of range is an \<open>Inl\<close>, and
  so is a send on the full \<open>cHeartbeat\<close> or \<open>cWinElection\<close> channel.  Goroutines the code starts
  (the vote solicitation, the heartbeat broadcast, the appliers) are counted in the record and
  run by definitions of their own, so that they interleave with everything else.

  The persisted bytes are the \<open>labgob\<close> stream at the level of its values: each \<open>Encode\<close>
  appends one item, each \<open>Decode\<close> takes the first item and fails on an item of another type.
\<close>

section \<open>Data\<close>

record 'c ApplyMsg =
  CommandValid :: bool
  am_Command :: "'c option"
  CommandIndex :: int

record 'c LogElement =
  le_Term :: int
  le_Command :: "'c option"
  le_Index :: int

datatype role = FOLLOWER | CANDIDATE | LEADER

text \<open>Where the \<open>ticker\<close> goroutine is: at the head of its loop, in the \<open>select\<close> of the
  follower or of the candidate case, or past \<open>go rf.broadcastHeartbeat()\<close> in the leader case.\<close>

datatype ticker_pc = TkTop | TkFollower | TkCandidate | TkLeader

datatype 'c gob_item = GobInt int | GobLog "'c LogElement list"

text \<open>The fields of the Go struct, then the goroutines that are started and have not run yet:
  for the vote solicitation its list holds the term of the campaign that started it.\<close>

record 'c Raft =
  npeers :: nat
  persister :: "'c gob_item Persister"
  me :: nat
  dead :: bool
  votedFor :: int
  numVotesReceived :: int
  state :: role
  currentTerm :: int
  rlog :: "'c LogElement list"
  commitIdx :: int
  nextIdx :: "int list"
  matchIdx :: "int list"
  appliedLast :: int
  cApplyMsg :: "'c ApplyMsg list"
  cWinElection :: nat
  cHeartbeat :: nat
  tick :: ticker_pc
  solicits :: "int list"
  broadcasts :: nat
  appliers :: nat

record RequestVoteArgs =
  rv_Term :: int
  IDcand :: nat
  LastLogIdx :: int
  LastLogTerm :: int

record RequestVoteReply =
  rvr_Term :: int
  VoteGranted :: bool

record 'c AppendEntriesArgs =
  ae_Term :: int
  LeaderId :: nat
  PrevLogIdx :: int
  PrevLogTerm :: int
  Entries :: "'c LogElement list"
  LeaderCommit :: int

record AppendEntriesResults =
  aer_Term :: int
  Success :: bool
  NextTryIdx :: int

section \<open>Helpers of the handlers\<close>

definition GetState :: "'c Raft \<Rightarrow> int \<times> bool" where
  "GetState rf = (currentTerm rf, state rf = LEADER)"

definition persist :: "'c Raft \<Rightarrow> 'c Raft" where
  "persist rf = rf\<lparr>persister :=
     SaveRaftState [GobInt (currentTerm rf), GobInt (votedFor rf), GobLog (rlog rf)] (persister rf)\<rparr>"

text \<open>The three \<open>Decode\<close>s stop at the first failure and keep what was decoded before it.\<close>

definition readPersist :: "'c gob_item list \<Rightarrow> 'c Raft \<Rightarrow> 'c Raft" where
  "readPersist data rf =
     (case data of
        GobInt t # rest \<Rightarrow>
          (case rest of
             GobInt v # rest2 \<Rightarrow>
               (case rest2 of
                  GobLog l # rest3 \<Rightarrow> rf\<lparr>currentTerm := t, votedFor := v, rlog := l\<rparr>
                | _ \<Rightarrow> rf\<lparr>currentTerm := t, votedFor := v\<rparr>)
           | _ \<Rightarrow> rf\<lparr>currentTerm := t\<rparr>)
      | _ \<Rightarrow> rf)"

definition lastLog :: "'c Raft \<Rightarrow> 'c LogElement go" where
  "lastLog rf = index (rlog rf) (int (length (rlog rf)) - 1)"

definition baseIdx :: "'c Raft \<Rightarrow> int go" where
  "baseIdx rf = go_bind (index (rlog rf) 0) (\<lambda>e. Inr (le_Index e))"

text \<open>\<open>rf.cHeartbeat <- struct{}{}\<close> and \<open>rf.cWinElection <- struct{}{}\<close>: buffers of 1000.\<close>

definition sendHeartbeat :: "'c Raft \<Rightarrow> 'c Raft go" where
  "sendHeartbeat rf = (if cHeartbeat rf < 1000 then Inr (rf\<lparr>cHeartbeat := Suc (cHeartbeat rf)\<rparr>) else Inl Blocked)"

definition sendWin :: "'c Raft \<Rightarrow> 'c Raft go" where
  "sendWin rf = (if cWinElection rf < 1000 then Inr (rf\<lparr>cWinElection := Suc (cWinElection rf)\<rparr>) else Inl Blocked)"

text \<open>The step to a higher term that both handlers and both reply paths contain.\<close>

definition newTerm :: "int \<Rightarrow> 'c Raft \<Rightarrow> 'c Raft" where
  "newTerm t rf = rf\<lparr>currentTerm := t, votedFor := -1, state := FOLLOWER\<rparr>"

section \<open>Voting\<close>

definition up_to_date :: "RequestVoteArgs \<Rightarrow> 'c LogElement \<Rightarrow> bool" where
  "up_to_date args lst \<longleftrightarrow>
     LastLogTerm args > le_Term lst \<or> (LastLogTerm args = le_Term lst \<and> LastLogIdx args \<ge> le_Index lst)"

definition RequestVote :: "RequestVoteArgs \<Rightarrow> 'c Raft \<Rightarrow> ('c Raft \<times> RequestVoteReply) go" where
  "RequestVote args rf =
     (if currentTerm rf > rv_Term args then Inr (rf, \<lparr>rvr_Term = currentTerm rf, VoteGranted = False\<rparr>)
      else
        let rf1 = (if currentTerm rf < rv_Term args then newTerm (rv_Term args) rf else rf) in
        go_bind (lastLog rf1) (\<lambda>lst.
          if up_to_date args lst \<and> (votedFor rf1 = -1 \<or> votedFor rf1 = int (IDcand args))
          then go_bind (sendHeartbeat (rf1\<lparr>votedFor := int (IDcand args)\<rparr>)) (\<lambda>rf2.
                 Inr (rf2, \<lparr>rvr_Term = rv_Term args, VoteGranted = True\<rparr>))
          else Inr (rf1, \<lparr>rvr_Term = rv_Term args, VoteGranted = False\<rparr>)))"

text \<open>\<open>for i := range rf.peers { rf.nextIdx[i] = nextIdx }\<close>.\<close>

definition setNextIdx :: "int \<Rightarrow> 'c Raft \<Rightarrow> 'c Raft go" where
  "setNextIdx n rf =
     (if npeers rf \<le> length (nextIdx rf)
      then Inr (rf\<lparr>nextIdx := replicate (npeers rf) n @ drop (npeers rf) (nextIdx rf)\<rparr>)
      else Inl IndexOutOfRange)"

text \<open>What \<open>sendRequestVote\<close> does once \<open>Call\<close> has returned \<open>ok\<close> with a reply.\<close>

definition sendRequestVote :: "bool \<Rightarrow> RequestVoteArgs \<Rightarrow> RequestVoteReply \<Rightarrow> 'c Raft \<Rightarrow> 'c Raft go" where
  "sendRequestVote ok args reply rf =
     (if \<not> ok then Inr rf
      else if currentTerm rf \<noteq> rv_Term args \<or> state rf \<noteq> CANDIDATE then Inr rf
      else if rvr_Term reply > currentTerm rf then Inr (newTerm (rvr_Term reply) rf)
      else if VoteGranted reply then
        (let rf1 = rf\<lparr>numVotesReceived := numVotesReceived rf + 1\<rparr> in
         if numVotesReceived rf1 > int (npeers rf1) div 2 then
           (let rf2 = persist rf1 in
            go_bind (lastLog rf2) (\<lambda>lst.
            go_bind (setNextIdx (le_Index lst + 1) rf2) (\<lambda>rf3.
              sendWin (rf3\<lparr>state := LEADER\<rparr>))))
         else Inr rf1)
      else Inr rf)"

section \<open>Log replication\<close>

text \<open>The loop that looks for the first entry of the conflicting term: \<open>i\<close> counts down to the
  base index; the result is \<open>i + 1\<close> at the first entry with another term.\<close>

function backup :: "'c LogElement list \<Rightarrow> int \<Rightarrow> int \<Rightarrow> int \<Rightarrow> int option go" where
  "backup log base term i =
     (if i \<ge> base then
        (case index log (i - base) of
           Inl e \<Rightarrow> Inl e
         | Inr x \<Rightarrow> if le_Term x \<noteq> term then Inr (Some (i + 1)) else backup log base term (i - 1))
      else Inr None)"
  by pat_completeness auto
termination
  by (relation "measure (\<lambda>(log, base, term, i). nat (i - base + 1))") auto

declare backup.simps [simp del]

text \<open>The accepting branch: cut the log after \<open>PrevLogIdx\<close>, append the entries, move
  \<open>commitIdx\<close> and start an applier, then persist.\<close>

definition installEntries :: "'c AppendEntriesArgs \<Rightarrow> int \<Rightarrow> 'c Raft
    \<Rightarrow> ('c Raft \<times> AppendEntriesResults) go" where
  "installEntries args base rf =
     go_bind (slice (rlog rf) 0 (PrevLogIdx args - base + 1)) (\<lambda>pre.
       let rf1 = rf\<lparr>rlog := pre @ Entries args\<rparr>;
           reply = \<lparr>aer_Term = ae_Term args, Success = True,
                    NextTryIdx = int (length (Entries args)) + PrevLogIdx args\<rparr> in
       if LeaderCommit args > commitIdx rf1 then
         go_bind (lastLog rf1) (\<lambda>lst.
           Inr (persist (rf1\<lparr>commitIdx := min (LeaderCommit args) (le_Index lst),
                             appliers := Suc (appliers rf1)\<rparr>), reply))
       else Inr (persist rf1, reply))"

definition AppendEntries :: "'c AppendEntriesArgs \<Rightarrow> 'c Raft \<Rightarrow> ('c Raft \<times> AppendEntriesResults) go" where
  "AppendEntries args rf =
     go_bind (lastLog rf) (\<lambda>lst.
     go_bind (baseIdx rf) (\<lambda>base.
       let lastLogIdx = le_Index lst in
       if currentTerm rf > ae_Term args then
         Inr (rf, \<lparr>aer_Term = currentTerm rf, Success = False, NextTryIdx = lastLogIdx + 1\<rparr>)
       else
         let rf1 = (if currentTerm rf < ae_Term args then newTerm (ae_Term args) rf else rf);
             reject = (\<lambda>n. \<lparr>aer_Term = ae_Term args, Success = False, NextTryIdx = n\<rparr>) in
         go_bind (sendHeartbeat rf1) (\<lambda>rf2.
           if PrevLogIdx args > lastLogIdx then Inr (rf2, reject (lastLogIdx + 1))
           else if PrevLogIdx args \<ge> base then
             go_bind (index (rlog rf2) (PrevLogIdx args - base)) (\<lambda>x.
               if le_Term x \<noteq> PrevLogTerm args then
                 go_bind (backup (rlog rf2) base (le_Term x) (PrevLogIdx args - 1)) (\<lambda>r.
                   case r of
                     Some n \<Rightarrow> Inr (rf2, reject n)
                   | None \<Rightarrow> Inr (persist rf2, reject 0))
               else installEntries args base rf2)
           else if PrevLogIdx args > base - 2 then installEntries args base rf2
           else Inr (persist rf2, reject 0))))"

text \<open>The applier goroutine.\<close>

fun applyFrom :: "nat \<Rightarrow> int \<Rightarrow> int \<Rightarrow> 'c LogElement list \<Rightarrow> 'c ApplyMsg list go" where
  "applyFrom 0 i base log = Inr []"
| "applyFrom (Suc n) i base log =
     go_bind (index log (i - base)) (\<lambda>e.
     go_bind (applyFrom n (i + 1) base log) (\<lambda>ms.
       Inr (\<lparr>CommandValid = True, am_Command = le_Command e, CommandIndex = i\<rparr> # ms)))"

definition applyCommitted :: "'c Raft \<Rightarrow> 'c Raft go" where
  "applyCommitted rf =
     (if appliedLast rf + 1 \<le> commitIdx rf then
        go_bind (baseIdx rf) (\<lambda>base.
        go_bind (applyFrom (nat (commitIdx rf - appliedLast rf)) (appliedLast rf + 1) base (rlog rf)) (\<lambda>ms.
          Inr (rf\<lparr>cApplyMsg := cApplyMsg rf @ ms, appliedLast := commitIdx rf\<rparr>)))
      else Inr (rf\<lparr>appliedLast := commitIdx rf\<rparr>))"

text \<open>The number of peers known to hold index \<open>i\<close>, the leader included.\<close>

definition matchCount :: "'c Raft \<Rightarrow> int \<Rightarrow> nat" where
  "matchCount rf i = 1 + length (filter (\<lambda>j. matchIdx rf ! j \<ge> i \<and> j \<noteq> me rf) [0..<npeers rf])"

function advanceCommit :: "int \<Rightarrow> int \<Rightarrow> 'c Raft \<Rightarrow> 'c Raft go" where
  "advanceCommit base i rf =
     (if i > commitIdx rf then
        (case index (rlog rf) (i - base) of
           Inl e \<Rightarrow> Inl e
         | Inr x \<Rightarrow>
             if currentTerm rf = le_Term x then
               (if length (matchIdx rf) < npeers rf then Inl IndexOutOfRange
                else if int (matchCount rf i) > int (npeers rf) div 2
                then Inr (rf\<lparr>commitIdx := i, appliers := Suc (appliers rf)\<rparr>)
                else advanceCommit base (i - 1) rf)
             else Inr rf)
      else Inr rf)"
  by pat_completeness auto
termination
  by (relation "measure (\<lambda>(base, i, rf). nat (i - commitIdx rf))") auto

declare advanceCommit.simps [simp del]

definition updateIdx :: "nat \<Rightarrow> int \<Rightarrow> int list \<Rightarrow> int list go" where
  "updateIdx k v xs = (if k < length xs then Inr (xs[k := v]) else Inl IndexOutOfRange)"

text \<open>What \<open>sendAppendEntries\<close> does once \<open>Call\<close> has returned.\<close>

definition sendAppendEntries :: "bool \<Rightarrow> nat \<Rightarrow> 'c AppendEntriesArgs \<Rightarrow> AppendEntriesResults
    \<Rightarrow> 'c Raft \<Rightarrow> 'c Raft go" where
  "sendAppendEntries ok server args reply rf =
     go_bind (baseIdx rf) (\<lambda>base.
       if \<not> ok \<or> currentTerm rf \<noteq> ae_Term args \<or> state rf \<noteq> LEADER then Inr rf
       else if currentTerm rf < aer_Term reply then Inr (persist (newTerm (aer_Term reply) rf))
       else
         go_bind
           (if Success reply then
              (if Entries args \<noteq> [] then
                 (let n = le_Index (last (Entries args)) + 1 in
                  go_bind (updateIdx server n (nextIdx rf)) (\<lambda>ns.
                  go_bind (updateIdx server (n - 1) (matchIdx rf)) (\<lambda>ms.
                    Inr (rf\<lparr>nextIdx := ns, matchIdx := ms\<rparr>))))
               else Inr rf)
            else go_bind (updateIdx server (NextTryIdx reply) (nextIdx rf)) (\<lambda>ns. Inr (rf\<lparr>nextIdx := ns\<rparr>)))
           (\<lambda>rf1. go_bind (lastLog rf1) (\<lambda>lst. advanceCommit base (le_Index lst) rf1)))"

text \<open>The message \<open>broadcastHeartbeat\<close> builds for peer \<open>i\<close>; \<open>None\<close> where it sends nothing.\<close>

definition heartbeatFor :: "'c Raft \<Rightarrow> int \<Rightarrow> nat \<Rightarrow> 'c AppendEntriesArgs option go" where
  "heartbeatFor rf base i =
     (if state rf = LEADER \<and> i \<noteq> me rf then
        go_bind (index (nextIdx rf) (int i)) (\<lambda>n.
          if n \<le> base then Inr None
          else
            go_bind (if n - 1 \<ge> base then go_bind (index (rlog rf) (n - 1 - base)) (\<lambda>e. Inr (le_Term e))
                     else Inr 0) (\<lambda>pterm.
            go_bind (lastLog rf) (\<lambda>lst.
            go_bind (if n \<le> le_Index lst then slice_from (rlog rf) (n - base) else Inr []) (\<lambda>es.
              Inr (Some \<lparr>ae_Term = currentTerm rf, LeaderId = me rf, PrevLogIdx = n - 1,
                         PrevLogTerm = pterm, Entries = es, LeaderCommit = commitIdx rf\<rparr>)))))
      else Inr None)"

fun heartbeats :: "'c Raft \<Rightarrow> int \<Rightarrow> nat list \<Rightarrow> (nat \<times> 'c AppendEntriesArgs) list go" where
  "heartbeats rf base [] = Inr []"
| "heartbeats rf base (i # is) =
     go_bind (heartbeatFor rf base i) (\<lambda>m.
     go_bind (heartbeats rf base is) (\<lambda>ms.
       Inr (case m of None \<Rightarrow> ms | Some a \<Rightarrow> (i, a) # ms)))"

definition broadcastHeartbeat :: "'c Raft \<Rightarrow> (nat \<times> 'c AppendEntriesArgs) list go" where
  "broadcastHeartbeat rf = go_bind (baseIdx rf) (\<lambda>base. heartbeats rf base [0..<npeers rf])"

section \<open>The service interface and the ticker\<close>

definition Start :: "'c \<Rightarrow> 'c Raft \<Rightarrow> ('c Raft \<times> int \<times> int \<times> bool) go" where
  "Start command rf =
     (if state rf = LEADER then
        go_bind (lastLog rf) (\<lambda>lst.
          let index = le_Index lst + 1;
              e = \<lparr>le_Term = currentTerm rf, le_Command = Some command, le_Index = index\<rparr> in
          Inr (persist (rf\<lparr>rlog := rlog rf @ [e]\<rparr>), index, currentTerm rf, True))
      else Inr (rf, -1, -1, False))"

definition Kill :: "'c Raft \<Rightarrow> 'c Raft" where
  "Kill rf = rf\<lparr>dead := True\<rparr>"

definition killed :: "'c Raft \<Rightarrow> bool" where
  "killed rf \<longleftrightarrow> dead rf"

text \<open>One iteration of \<open>ticker\<close> up to its \<open>select\<close> (or, for a leader, up to its second critical section).\<close>

definition tickTop :: "'c Raft \<Rightarrow> 'c Raft option" where
  "tickTop rf =
     (if killed rf \<or> tick rf \<noteq> TkTop then None
      else
        case state rf of
          FOLLOWER \<Rightarrow> Some (rf\<lparr>tick := TkFollower\<rparr>)
        | CANDIDATE \<Rightarrow>
            (let rf1 = rf\<lparr>currentTerm := currentTerm rf + 1, votedFor := int (me rf), numVotesReceived := 1\<rparr> in
             Some ((persist rf1)\<lparr>solicits := solicits rf1 @ [currentTerm rf1], tick := TkCandidate\<rparr>))
        | LEADER \<Rightarrow> Some (rf\<lparr>broadcasts := Suc (broadcasts rf), tick := TkLeader\<rparr>))"

datatype tick_choice = ChooseTimeout | ChooseHeartbeat | ChooseWin | ChoosePersist

text \<open>The two \<open>select\<close>s, by the case the run-time system picks, and the rest of the leader case.\<close>

definition tickSelect :: "tick_choice \<Rightarrow> 'c Raft \<Rightarrow> 'c Raft option" where
  "tickSelect c rf =
     (case (tick rf, c) of
        (TkFollower, ChooseTimeout) \<Rightarrow> Some (persist (rf\<lparr>state := CANDIDATE, tick := TkTop\<rparr>))
      | (TkFollower, ChooseHeartbeat) \<Rightarrow>
          (if 0 < cHeartbeat rf then Some (rf\<lparr>cHeartbeat := cHeartbeat rf - 1, tick := TkTop\<rparr>) else None)
      | (TkCandidate, ChooseWin) \<Rightarrow>
          (if 0 < cWinElection rf then Some (rf\<lparr>cWinElection := cWinElection rf - 1, tick := TkTop\<rparr>) else None)
      | (TkCandidate, ChooseTimeout) \<Rightarrow> Some (rf\<lparr>state := FOLLOWER, tick := TkTop\<rparr>)
      | (TkCandidate, ChooseHeartbeat) \<Rightarrow>
          (if 0 < cHeartbeat rf
           then Some (rf\<lparr>cHeartbeat := cHeartbeat rf - 1, state := FOLLOWER, tick := TkTop\<rparr>) else None)
      | (TkLeader, ChoosePersist) \<Rightarrow> Some (persist (rf\<lparr>tick := TkTop\<rparr>))
      | _ \<Rightarrow> None)"

text \<open>The goroutine the candidate starts: it reads the arguments when it runs, not when the
  campaign started.\<close>

definition voteArgs :: "'c Raft \<Rightarrow> RequestVoteArgs go" where
  "voteArgs rf = go_bind (lastLog rf) (\<lambda>lst.
     Inr \<lparr>rv_Term = currentTerm rf, IDcand = me rf, LastLogIdx = le_Index lst, LastLogTerm = le_Term lst\<rparr>)"

definition solicitVotes :: "'c Raft \<Rightarrow> (nat \<times> RequestVoteArgs) list go" where
  "solicitVotes rf = go_bind (voteArgs rf) (\<lambda>args.
     Inr (map (\<lambda>i. (i, args)) (filter (\<lambda>i. i \<noteq> me rf) [0..<npeers rf])))"

definition Make :: "nat \<Rightarrow> nat \<Rightarrow> 'c gob_item Persister \<Rightarrow> 'c Raft" where
  "Make n i ps =
     (let rf = \<lparr>npeers = n, persister = ps, me = i, dead = False, votedFor = 0, numVotesReceived = 0,
                state = FOLLOWER, currentTerm = 0,
                rlog = [\<lparr>le_Term = 0, le_Command = None, le_Index = 0\<rparr>], commitIdx = 0,
                nextIdx = replicate n 0, matchIdx = replicate n 0, appliedLast = 0, cApplyMsg = [],
                cWinElection = 0, cHeartbeat = 0, tick = TkTop, solicits = [], broadcasts = 0, appliers = 0\<rparr>;
          rf1 = persist (readPersist (ReadRaftState ps) rf)
      in rf1\<lparr>votedFor := -1\<rparr>)"

end
