(* ===== verification/RaftNode.thy ===== *)
theory RaftNode
  imports Raft
begin

text \<open>
  Invariants and functional specifications of one Raft peer (\<^verbatim>\<open>lab3/raft/raft.go\<close>): the shape of
  the log, which makes every index expression of the handlers safe, what \<open>AppendEntries\<close> does
  on each of its branches, what the commit rule of the leader computes, and the round trip
  through stable storage.
\<close>

section \<open>Well-formed logs and messages\<close>

text \<open>Entry \<open>k\<close> of a log that starts at index \<open>b\<close> carries index \<open>b + k\<close>.\<close>

definition indexed_from :: "int \<Rightarrow> 'c LogElement list \<Rightarrow> bool" where
  "indexed_from b l \<longleftrightarrow> (\<forall>k < length l. le_Index (l ! k) = b + int k)"

definition terms_pos :: "'c LogElement list \<Rightarrow> bool" where
  "terms_pos l \<longleftrightarrow> (\<forall>e \<in> set l. 1 \<le> le_Term e)"

definition log_ok :: "'c LogElement list \<Rightarrow> bool" where
  "log_ok l \<longleftrightarrow> l \<noteq> [] \<and> indexed_from 0 l \<and> le_Term (hd l) = 0 \<and> terms_pos (tl l)"

definition peer_ok :: "'c Raft \<Rightarrow> bool" where
  "peer_ok rf \<longleftrightarrow> log_ok (rlog rf) \<and> length (nextIdx rf) = npeers rf \<and> length (matchIdx rf) = npeers rf \<and>
     me rf < npeers rf \<and> 0 \<le> currentTerm rf"

definition append_ok :: "'c AppendEntriesArgs \<Rightarrow> bool" where
  "append_ok args \<longleftrightarrow> 0 \<le> PrevLogIdx args \<and> indexed_from (PrevLogIdx args + 1) (Entries args) \<and>
     terms_pos (Entries args)"

lemma indexed_from_Nil [simp]: "indexed_from b []"
  by (simp add: indexed_from_def)

lemma indexed_from_append:
  "indexed_from b (xs @ ys) \<longleftrightarrow> indexed_from b xs \<and> indexed_from (b + int (length xs)) ys"
proof
  assume A: "indexed_from b (xs @ ys)"
  have "le_Index (xs ! k) = b + int k" if "k < length xs" for k
    using A that unfolding indexed_from_def by (auto simp: nth_append dest: spec [of _ k])
  moreover have "le_Index (ys ! k) = b + int (length xs) + int k" if "k < length ys" for k
    using A that unfolding indexed_from_def by (auto simp: nth_append dest: spec [of _ "length xs + k"])
  ultimately show "indexed_from b xs \<and> indexed_from (b + int (length xs)) ys"
    by (simp add: indexed_from_def)
next
  assume "indexed_from b xs \<and> indexed_from (b + int (length xs)) ys"
  then show "indexed_from b (xs @ ys)" by (auto simp: indexed_from_def nth_append)
qed

lemma indexed_from_take: "indexed_from b l \<Longrightarrow> indexed_from b (take n l)"
  by (simp add: indexed_from_def)

lemma indexed_from_drop: "indexed_from b l \<Longrightarrow> n \<le> length l \<Longrightarrow> indexed_from (b + int n) (drop n l)"
  by (simp add: indexed_from_def)

lemma terms_pos_append [simp]: "terms_pos (xs @ ys) \<longleftrightarrow> terms_pos xs \<and> terms_pos ys"
  by (auto simp: terms_pos_def)

lemma log_ok_nonempty: "log_ok l \<Longrightarrow> l \<noteq> []"
  by (simp add: log_ok_def)

lemma log_ok_index: "log_ok l \<Longrightarrow> k < length l \<Longrightarrow> le_Index (l ! k) = int k"
  by (simp add: log_ok_def indexed_from_def)

lemma log_ok_term0: "log_ok l \<Longrightarrow> le_Term (l ! 0) = 0"
  by (cases l) (auto simp: log_ok_def)

lemma log_ok_term_pos: "log_ok l \<Longrightarrow> 0 < k \<Longrightarrow> k < length l \<Longrightarrow> 1 \<le> le_Term (l ! k)"
  by (cases l) (auto simp: log_ok_def terms_pos_def nth_Cons')

lemma log_ok_term_nonneg: "log_ok l \<Longrightarrow> k < length l \<Longrightarrow> 0 \<le> le_Term (l ! k)"
  using log_ok_term0 [of l] log_ok_term_pos [of l k] by (cases "k = 0") auto

text \<open>Cutting a log after an index it has and appending entries that continue it.\<close>

lemma log_ok_splice:
  assumes "log_ok l" and "p < length l" and "indexed_from (int p + 1) es" and "terms_pos es"
  shows "log_ok (take (Suc p) l @ es)"
proof -
  from assms(1) obtain x xs where l: "l = x # xs" by (auto simp: log_ok_def neq_Nil_conv)
  have "indexed_from 0 (take (Suc p) l)" using assms(1) by (simp add: log_ok_def indexed_from_take)
  moreover have "length (take (Suc p) l) = Suc p" using assms(2) by simp
  ultimately have "indexed_from 0 (take (Suc p) l @ es)"
    using assms(3) by (simp only: indexed_from_append) (simp add: add.commute)
  moreover have "terms_pos (take p xs)"
    using assms(1) l by (auto simp: log_ok_def terms_pos_def dest: in_set_takeD)
  ultimately show ?thesis
    using assms(1,4) l by (simp add: log_ok_def)
qed

lemma log_ok_snoc:
  assumes "log_ok l" and "le_Index e = int (length l)" and "1 \<le> le_Term e"
  shows "log_ok (l @ [e])"
proof -
  have n: "Suc (length l - 1) = length l" using assms(1) by (cases l) (auto simp: log_ok_def)
  then have "int (length l - 1) + 1 = int (length l)" by linarith
  with n have "log_ok (take (Suc (length l - 1)) l @ [e])"
    using assms by (intro log_ok_splice) (auto simp: indexed_from_def terms_pos_def)
  with assms(1) show ?thesis by (simp add: log_ok_def)
qed

subsection \<open>Reading the log never panics\<close>

lemma lastLog_ok: "log_ok (rlog rf) \<Longrightarrow> lastLog rf = Inr (last (rlog rf))"
  by (cases "rlog rf") (auto simp: lastLog_def index_def log_ok_def nat_diff_distrib last_conv_nth)

lemma last_index: "log_ok l \<Longrightarrow> le_Index (last l) = int (length l) - 1"
  using log_ok_index [of l "length l - 1"] by (cases l) (auto simp: log_ok_def last_conv_nth)

lemma baseIdx_ok: "log_ok (rlog rf) \<Longrightarrow> baseIdx rf = Inr 0"
  using log_ok_index [of "rlog rf" 0] by (cases "rlog rf") (auto simp: baseIdx_def index_def log_ok_def)

lemmas log_reads = lastLog_ok last_index baseIdx_ok

lemma newTerm_frame [simp]:
  "rlog (newTerm t rf) = rlog rf" "commitIdx (newTerm t rf) = commitIdx rf"
  "currentTerm (newTerm t rf) = t" "votedFor (newTerm t rf) = -1" "state (newTerm t rf) = FOLLOWER"
  "npeers (newTerm t rf) = npeers rf" "nextIdx (newTerm t rf) = nextIdx rf" "me (newTerm t rf) = me rf"
  "matchIdx (newTerm t rf) = matchIdx rf" "cHeartbeat (newTerm t rf) = cHeartbeat rf"
  "cWinElection (newTerm t rf) = cWinElection rf" "appliedLast (newTerm t rf) = appliedLast rf"
  "numVotesReceived (newTerm t rf) = numVotesReceived rf" "persister (newTerm t rf) = persister rf"
  "solicits (newTerm t rf) = solicits rf" "cApplyMsg (newTerm t rf) = cApplyMsg rf"
  by (simp_all add: newTerm_def)

lemma persist_frame [simp]:
  "rlog (persist rf) = rlog rf" "commitIdx (persist rf) = commitIdx rf"
  "currentTerm (persist rf) = currentTerm rf" "votedFor (persist rf) = votedFor rf"
  "state (persist rf) = state rf" "npeers (persist rf) = npeers rf" "nextIdx (persist rf) = nextIdx rf"
  "me (persist rf) = me rf" "matchIdx (persist rf) = matchIdx rf" "cHeartbeat (persist rf) = cHeartbeat rf"
  "cWinElection (persist rf) = cWinElection rf" "appliedLast (persist rf) = appliedLast rf"
  "numVotesReceived (persist rf) = numVotesReceived rf" "solicits (persist rf) = solicits rf"
  "cApplyMsg (persist rf) = cApplyMsg rf" "tick (persist rf) = tick rf"
  by (simp_all add: persist_def)

lemma peer_ok_newTerm [simp]: "0 \<le> t \<Longrightarrow> peer_ok rf \<Longrightarrow> peer_ok (newTerm t rf)"
  by (simp add: peer_ok_def)

lemma peer_ok_persist [simp]: "peer_ok (persist rf) = peer_ok rf"
  by (simp add: peer_ok_def)

section \<open>The back-up loop of \<open>AppendEntries\<close>\<close>

text \<open>On a log that starts at index 0 with term 0, the search for the first entry of the conflicting
  term always ends at an entry of another term.\<close>

lemma backup_ok:
  assumes "log_ok l" and "term \<noteq> 0" and "k < length l"
  shows "\<exists>n. backup l 0 term (int k) = Inr (Some (int n)) \<and> 1 \<le> n \<and> n \<le> Suc k \<and>
    le_Term (l ! (n - 1)) \<noteq> term \<and> (\<forall>m. n \<le> m \<and> m \<le> k \<longrightarrow> le_Term (l ! m) = term)"
  using assms(3)
proof (induction k)
  case 0
  with assms have "index l 0 = Inr (l ! 0)" "le_Term (l ! 0) \<noteq> term" by (auto simp: index_def log_ok_term0)
  then show ?case by (subst backup.simps) (auto intro!: exI [of _ 1])
next
  case (Suc k)
  have i: "index l (int (Suc k)) = Inr (l ! Suc k)" using Suc.prems by (simp add: index_def nat_add_distrib)
  show ?case
  proof (cases "le_Term (l ! Suc k) = term")
    case False
    with i show ?thesis
      by (subst backup.simps) (auto intro!: exI [of _ "Suc (Suc k)"])
  next
    case True
    from Suc obtain n where n: "backup l 0 term (int k) = Inr (Some (int n))" "1 \<le> n" "n \<le> Suc k"
      "le_Term (l ! (n - 1)) \<noteq> term" "\<forall>m. n \<le> m \<and> m \<le> k \<longrightarrow> le_Term (l ! m) = term" by auto
    have "backup l 0 term (int (Suc k)) = Inr (Some (int n))"
      using i True n(1) by (subst backup.simps) simp
    with n True show ?thesis by (intro exI [of _ n]) (auto simp: le_Suc_eq)
  qed
qed

section \<open>\<open>AppendEntries\<close> on each branch\<close>

definition accepts :: "'c AppendEntriesArgs \<Rightarrow> 'c LogElement list \<Rightarrow> bool" where
  "accepts args l \<longleftrightarrow> PrevLogIdx args < int (length l) \<and> le_Term (l ! nat (PrevLogIdx args)) = PrevLogTerm args"

definition mergedLog :: "'c AppendEntriesArgs \<Rightarrow> 'c LogElement list \<Rightarrow> 'c LogElement list" where
  "mergedLog args l = take (Suc (nat (PrevLogIdx args))) l @ Entries args"

lemma mergedLog_ok:
  "log_ok l \<Longrightarrow> append_ok args \<Longrightarrow> PrevLogIdx args < int (length l) \<Longrightarrow> log_ok (mergedLog args l)"
  unfolding mergedLog_def by (rule log_ok_splice) (auto simp: append_ok_def nat_less_iff)

lemma mergedLog_length:
  "append_ok args \<Longrightarrow> PrevLogIdx args < int (length l) \<Longrightarrow>
   int (length (mergedLog args l)) = PrevLogIdx args + 1 + int (length (Entries args))"
  by (auto simp: mergedLog_def append_ok_def min_def)

lemma AppendEntries_stale:
  assumes "peer_ok rf" and "ae_Term args < currentTerm rf"
  shows "AppendEntries args rf =
    Inr (rf, \<lparr>aer_Term = currentTerm rf, Success = False, NextTryIdx = int (length (rlog rf))\<rparr>)"
  using assms by (simp add: AppendEntries_def peer_ok_def log_reads)

text \<open>The state after the term check and the heartbeat, which all later branches share.\<close>

definition afterTerm :: "'c AppendEntriesArgs \<Rightarrow> 'c Raft \<Rightarrow> 'c Raft" where
  "afterTerm args rf =
     (let rf1 = (if currentTerm rf < ae_Term args then newTerm (ae_Term args) rf else rf)
      in rf1\<lparr>cHeartbeat := Suc (cHeartbeat rf)\<rparr>)"

lemma afterTerm_frame [simp]:
  "rlog (afterTerm args rf) = rlog rf" "commitIdx (afterTerm args rf) = commitIdx rf"
  "npeers (afterTerm args rf) = npeers rf" "nextIdx (afterTerm args rf) = nextIdx rf"
  "matchIdx (afterTerm args rf) = matchIdx rf" "me (afterTerm args rf) = me rf"
  "appliedLast (afterTerm args rf) = appliedLast rf" "solicits (afterTerm args rf) = solicits rf"
  "numVotesReceived (afterTerm args rf) = numVotesReceived rf"
  by (simp_all add: afterTerm_def Let_def)

lemma afterTerm_term: "\<not> ae_Term args < currentTerm rf \<Longrightarrow> currentTerm (afterTerm args rf) = ae_Term args"
  by (simp add: afterTerm_def Let_def)

lemma AppendEntries_live:
  assumes "peer_ok rf" and "\<not> ae_Term args < currentTerm rf" and "cHeartbeat rf < 1000"
  shows "AppendEntries args rf =
    (let rf2 = afterTerm args rf;
         reject = (\<lambda>n. \<lparr>aer_Term = ae_Term args, Success = False, NextTryIdx = n\<rparr>) in
     if PrevLogIdx args \<ge> int (length (rlog rf)) then Inr (rf2, reject (int (length (rlog rf))))
     else if PrevLogIdx args \<ge> 0 then
       go_bind (index (rlog rf) (PrevLogIdx args)) (\<lambda>x.
         if le_Term x \<noteq> PrevLogTerm args then
           go_bind (backup (rlog rf) 0 (le_Term x) (PrevLogIdx args - 1)) (\<lambda>r.
             case r of Some n \<Rightarrow> Inr (rf2, reject n) | None \<Rightarrow> Inr (persist rf2, reject 0))
         else installEntries args 0 rf2)
     else if PrevLogIdx args > - 2 then installEntries args 0 rf2
     else Inr (persist rf2, reject 0))"
proof -
  from assms(1) have l: "log_ok (rlog rf)" by (simp add: peer_ok_def)
  have hb: "sendHeartbeat (if currentTerm rf < ae_Term args then newTerm (ae_Term args) rf else rf) =
      Inr (afterTerm args rf)"
    using assms(3) by (simp add: sendHeartbeat_def afterTerm_def Let_def)
  have gt: "(PrevLogIdx args > int (length (rlog rf)) - 1) = (PrevLogIdx args \<ge> int (length (rlog rf)))"
    by linarith
  show ?thesis
    unfolding AppendEntries_def
    using assms(2) l by (simp add: log_reads hb Let_def gt del: not_less cong: if_cong)
qed

lemma installEntries_ok:
  assumes "log_ok (rlog rf)" and "append_ok args" and "PrevLogIdx args < int (length (rlog rf))"
  shows "\<exists>rf'. installEntries args 0 rf =
      Inr (rf', \<lparr>aer_Term = ae_Term args, Success = True,
                 NextTryIdx = int (length (Entries args)) + PrevLogIdx args\<rparr>) \<and>
    rlog rf' = mergedLog args (rlog rf) \<and>
    commitIdx rf' = (if LeaderCommit args > commitIdx rf
       then min (LeaderCommit args) (PrevLogIdx args + int (length (Entries args))) else commitIdx rf) \<and>
    ReadRaftState (persister rf') = [GobInt (currentTerm rf), GobInt (votedFor rf), GobLog (rlog rf')] \<and>
    currentTerm rf' = currentTerm rf \<and> votedFor rf' = votedFor rf \<and> state rf' = state rf \<and>
    npeers rf' = npeers rf \<and> nextIdx rf' = nextIdx rf \<and> matchIdx rf' = matchIdx rf \<and> me rf' = me rf \<and>
    solicits rf' = solicits rf \<and> numVotesReceived rf' = numVotesReceived rf \<and> appliedLast rf' = appliedLast rf"
proof -
  from assms(2) have p: "0 \<le> PrevLogIdx args" by (simp add: append_ok_def)
  have sl: "slice (rlog rf) 0 (PrevLogIdx args + 1) = Inr (take (Suc (nat (PrevLogIdx args))) (rlog rf))"
    using p assms(3) by (simp add: slice_def Suc_nat_eq_nat_zadd1 add.commute)
  have m: "log_ok (mergedLog args (rlog rf))" using assms by (simp add: mergedLog_ok)
  then have ll: "lastLog (rf\<lparr>rlog := mergedLog args (rlog rf)\<rparr>) =
      Inr (last (mergedLog args (rlog rf)))"
    by (simp add: lastLog_ok)
  have li: "le_Index (last (mergedLog args (rlog rf))) =
      PrevLogIdx args + int (length (Entries args))"
    using last_index [OF m] mergedLog_length [OF assms(2,3)] by simp
  show ?thesis
    using sl ll li
    by (auto simp: installEntries_def Let_def mergedLog_def [symmetric] persist_def stable.read_save)
qed

lemma AppendEntries_accept:
  assumes "peer_ok rf" and "append_ok args" and "cHeartbeat rf < 1000"
    and "\<not> ae_Term args < currentTerm rf" and "accepts args (rlog rf)"
  shows "AppendEntries args rf = installEntries args 0 (afterTerm args rf)"
  using assms by (simp add: AppendEntries_live Let_def accepts_def append_ok_def index_ok)

lemma AppendEntries_conflict:
  assumes "peer_ok rf" and "cHeartbeat rf < 1000" and "\<not> ae_Term args < currentTerm rf"
    and "PrevLogIdx args = int p" and "p < length (rlog rf)" and "le_Term (rlog rf ! p) \<noteq> PrevLogTerm args"
    and b: "backup (rlog rf) 0 (le_Term (rlog rf ! p)) (int p - 1) = Inr (Some n)"
  shows "AppendEntries args rf =
    Inr (afterTerm args rf, \<lparr>aer_Term = ae_Term args, Success = False, NextTryIdx = n\<rparr>)"
  unfolding AppendEntries_live [OF assms(1,3,2)] Let_def assms(4)
  using assms(5,6) b by (simp add: index_def)

text \<open>The rejecting branches: the follower asks for the index after its own log, or for the first
  index of the run of entries that share the conflicting term.\<close>

lemma AppendEntries_reject:
  assumes "peer_ok rf" and "append_ok args" and "cHeartbeat rf < 1000"
    and "\<not> ae_Term args < currentTerm rf" and "\<not> accepts args (rlog rf)" and "0 \<le> PrevLogTerm args"
    and zero: "PrevLogIdx args = 0 \<longrightarrow> PrevLogTerm args = 0"
  shows "\<exists>n. AppendEntries args rf =
      Inr (afterTerm args rf, \<lparr>aer_Term = ae_Term args, Success = False, NextTryIdx = int n\<rparr>) \<and>
    1 \<le> n \<and> int n \<le> PrevLogIdx args \<and> n \<le> length (rlog rf) \<and>
    (\<forall>m. n \<le> m \<and> int m \<le> PrevLogIdx args \<and> m < length (rlog rf) \<longrightarrow>
       le_Term (rlog rf ! m) = le_Term (rlog rf ! nat (PrevLogIdx args)))"
proof -
  from assms(1) have l: "log_ok (rlog rf)" by (simp add: peer_ok_def)
  show ?thesis
  proof (cases "PrevLogIdx args \<ge> int (length (rlog rf))")
    case True
    have "1 \<le> length (rlog rf)" using l by (cases "rlog rf") (auto simp: log_ok_def)
    with True show ?thesis
      using assms(1,3,4) by (intro exI [of _ "length (rlog rf)"]) (auto simp: AppendEntries_live Let_def)
  next
    case False
    define p where "p = nat (PrevLogIdx args)"
    have p: "PrevLogIdx args = int p" "p < length (rlog rf)"
      using assms(2) False by (auto simp: p_def append_ok_def)
    have t: "le_Term (rlog rf ! p) \<noteq> PrevLogTerm args" using assms(5) p by (simp add: accepts_def)
    have "p \<noteq> 0" using t zero p(1) log_ok_term0 [OF l] by (cases p) auto
    then obtain q where q: "p = Suc q" by (cases p) auto
    have "le_Term (rlog rf ! p) \<noteq> 0" using log_ok_term_pos [OF l _ p(2)] \<open>p \<noteq> 0\<close> by auto
    from backup_ok [OF l this, of q] p(2) q obtain n where
      n: "backup (rlog rf) 0 (le_Term (rlog rf ! p)) (int q) = Inr (Some (int n))" "1 \<le> n" "n \<le> Suc q"
        "\<forall>m. n \<le> m \<and> m \<le> q \<longrightarrow> le_Term (rlog rf ! m) = le_Term (rlog rf ! p)" by auto
    have "int p - 1 = int q" using q by simp
    with n(1) have "backup (rlog rf) 0 (le_Term (rlog rf ! p)) (int p - 1) = Inr (Some (int n))" by metis
    from AppendEntries_conflict [OF assms(1,3,4) p t this] have "AppendEntries args rf =
        Inr (afterTerm args rf, \<lparr>aer_Term = ae_Term args, Success = False, NextTryIdx = int n\<rparr>)" .
    moreover have "le_Term (rlog rf ! m) = le_Term (rlog rf ! p)" if "n \<le> m" "m \<le> p" for m
      using n(4) that q by (cases "m = p") auto
    then have "\<forall>m. n \<le> m \<and> int m \<le> int p \<and> m < length (rlog rf) \<longrightarrow> le_Term (rlog rf ! m) = le_Term (rlog rf ! nat (int p))"
      by (metis nat_int of_nat_le_iff)
    moreover have "int n \<le> int p" "n \<le> length (rlog rf)" using n(3) q p(2) by simp_all
    ultimately show ?thesis using n(2) unfolding p(1) by blast
  qed
qed

text \<open>
  C7. For a peer with a well-formed log and a well-formed message, \<open>AppendEntries\<close> returns without a
  panic, keeps the log well formed and ends in the larger of the two terms.  It succeeds exactly
  when the message is not stale and the peer's entry at \<open>PrevLogIdx\<close> has term \<open>PrevLogTerm\<close>; then the
  log is cut after \<open>PrevLogIdx\<close> and extended by the entries, the commit index moves up to the
  leader's (bounded by the new last entry) and the result is in stable storage.  Otherwise log
  and commit index are kept and, in the same term, \<open>NextTryIdx\<close> is a positive index not above
  \<open>PrevLogIdx\<close>, so that the leader's next attempt starts strictly earlier.
\<close>

theorem AppendEntries_spec:
  assumes "peer_ok rf" and "append_ok args" and "cHeartbeat rf < 1000"
    and "0 \<le> PrevLogTerm args" and "PrevLogIdx args = 0 \<longrightarrow> PrevLogTerm args = 0"
  shows "\<exists>rf' r. AppendEntries args rf = Inr (rf', r) \<and> peer_ok rf' \<and>
    currentTerm rf' = max (currentTerm rf) (ae_Term args) \<and> aer_Term r = currentTerm rf' \<and>
    (Success r \<longleftrightarrow> currentTerm rf \<le> ae_Term args \<and> accepts args (rlog rf)) \<and>
    (if Success r
     then rlog rf' = take (Suc (nat (PrevLogIdx args))) (rlog rf) @ Entries args \<and>
          commitIdx rf' = (if LeaderCommit args > commitIdx rf
            then min (LeaderCommit args) (PrevLogIdx args + int (length (Entries args))) else commitIdx rf) \<and>
          ReadRaftState (persister rf') = [GobInt (currentTerm rf'), GobInt (votedFor rf'), GobLog (rlog rf')]
     else rlog rf' = rlog rf \<and> commitIdx rf' = commitIdx rf \<and>
          (currentTerm rf \<le> ae_Term args \<longrightarrow> 1 \<le> NextTryIdx r \<and> NextTryIdx r \<le> PrevLogIdx args))"
proof -
  consider "ae_Term args < currentTerm rf"
    | "\<not> ae_Term args < currentTerm rf" "accepts args (rlog rf)"
    | "\<not> ae_Term args < currentTerm rf" "\<not> accepts args (rlog rf)" by blast
  then show ?thesis
  proof cases
    case 1
    with assms(1) show ?thesis by (simp add: AppendEntries_stale)
  next
    case 2
    have l: "log_ok (rlog rf)" "PrevLogIdx args < int (length (rlog rf))"
      using assms(1) 2 by (auto simp: peer_ok_def accepts_def)
    define r where "r = \<lparr>aer_Term = ae_Term args, Success = True,
                 NextTryIdx = int (length (Entries args)) + PrevLogIdx args\<rparr>"
    from installEntries_ok [of "afterTerm args rf" args] l assms(2)
    obtain rf' where i: "installEntries args 0 (afterTerm args rf) = Inr (rf', r)"
      "rlog rf' = mergedLog args (rlog rf)"
      "commitIdx rf' = (if LeaderCommit args > commitIdx rf
        then min (LeaderCommit args) (PrevLogIdx args + int (length (Entries args))) else commitIdx rf)"
      "ReadRaftState (persister rf') = [GobInt (currentTerm rf'), GobInt (votedFor rf'), GobLog (rlog rf')]"
      "currentTerm rf' = ae_Term args" "npeers rf' = npeers rf" "nextIdx rf' = nextIdx rf"
      "matchIdx rf' = matchIdx rf" "me rf' = me rf"
      unfolding r_def by (auto simp: afterTerm_term 2)
    then have "peer_ok rf'" using assms(1,2) l 2 by (simp add: peer_ok_def mergedLog_ok)
    moreover have "Success r" "aer_Term r = ae_Term args" by (simp_all add: r_def)
    ultimately show ?thesis
      using i 2 by (intro exI [of _ rf'] exI [of _ r])
        (simp add: AppendEntries_accept assms mergedLog_def [symmetric] max_def not_less)
  next
    case 3
    from AppendEntries_reject [OF assms(1-3) 3 assms(4,5)] obtain n where n: "AppendEntries args rf =
      Inr (afterTerm args rf, \<lparr>aer_Term = ae_Term args, Success = False, NextTryIdx = int n\<rparr>)"
      "1 \<le> n" "int n \<le> PrevLogIdx args" by blast
    have "peer_ok (afterTerm args rf)" using assms(1) 3 by (simp add: afterTerm_term peer_ok_def)
    with n 3 show ?thesis by (simp add: afterTerm_term max_def not_less)
  qed
qed

definition node_example :: "nat Raft" where
  "node_example = (Make 3 0 MakePersister)\<lparr>currentTerm := 2, rlog :=
     [\<lparr>le_Term = 0, le_Command = None, le_Index = 0\<rparr>, \<lparr>le_Term = 1, le_Command = Some 7, le_Index = 1\<rparr>]\<rparr>"

definition append_example :: "nat AppendEntriesArgs" where
  "append_example = \<lparr>ae_Term = 2, LeaderId = 1, PrevLogIdx = 1, PrevLogTerm = 1,
     Entries = [\<lparr>le_Term = 2, le_Command = Some 8, le_Index = 2\<rparr>], LeaderCommit = 1\<rparr>"

lemma node_example_ok: "peer_ok node_example" "cHeartbeat node_example = 0" "rlog node_example ! Suc 0 =
    \<lparr>le_Term = 1, le_Command = Some 7, le_Index = 1\<rparr>" "length (rlog node_example) = 2"
    "currentTerm node_example = 2" "commitIdx node_example = 0"
  by (simp_all add: peer_ok_def log_ok_def indexed_from_def terms_pos_def node_example_def Make_def
      readPersist_def MakePersister_def ReadRaftState_def less_Suc_eq numeral_2_eq_2)

theorem AppendEntries_spec_witness:
  "\<exists>rf r. AppendEntries append_example node_example = Inr (rf, r) \<and> Success r \<and> length (rlog rf) = 3 \<and>
     commitIdx rf = 1"
proof -
  have a: "append_ok append_example"
    by (simp add: append_ok_def append_example_def indexed_from_def terms_pos_def)
  have b: "accepts append_example (rlog node_example)"
    by (simp add: accepts_def append_example_def node_example_ok)
  have "0 \<le> PrevLogTerm append_example"
    "PrevLogIdx append_example = 0 \<longrightarrow> PrevLogTerm append_example = 0"
    by (simp_all add: append_example_def)
  from AppendEntries_spec [OF node_example_ok(1) a _ this] b show ?thesis
    by (auto simp: node_example_ok append_example_def)
qed

section \<open>\<open>RequestVote\<close>\<close>

text \<open>
  C12. \<open>RequestVote\<close> on a well-formed peer returns without a panic, leaves the log alone and ends in
  the larger of the two terms.  The vote is granted exactly when the request is not stale, the
  candidate's log is at least as up to date (last term first, then length) and the peer has not
  voted for another candidate in that term; a granted vote is recorded, and within a term a
  recorded vote is never replaced.
\<close>

theorem RequestVote_spec:
  assumes "peer_ok rf" and "cHeartbeat rf < 1000"
  shows "\<exists>rf' r. RequestVote args rf = Inr (rf', r) \<and> peer_ok rf' \<and> rlog rf' = rlog rf \<and>
    currentTerm rf' = max (currentTerm rf) (rv_Term args) \<and> rvr_Term r = currentTerm rf' \<and>
    (VoteGranted r \<longleftrightarrow> currentTerm rf \<le> rv_Term args \<and>
       (LastLogTerm args > le_Term (last (rlog rf)) \<or>
        LastLogTerm args = le_Term (last (rlog rf)) \<and> LastLogIdx args + 1 \<ge> int (length (rlog rf))) \<and>
       (currentTerm rf < rv_Term args \<or> votedFor rf = -1 \<or> votedFor rf = int (IDcand args))) \<and>
    (VoteGranted r \<longrightarrow> votedFor rf' = int (IDcand args)) \<and>
    (currentTerm rf' = currentTerm rf \<and> votedFor rf \<noteq> -1 \<longrightarrow> votedFor rf' = votedFor rf)"
proof -
  have l: "log_ok (rlog rf)" using assms(1) by (simp add: peer_ok_def)
  then have ll: "lastLog (newTerm (rv_Term args) rf) = Inr (last (rlog rf))" by (simp add: lastLog_ok)
  have li: "le_Index (last (rlog rf)) \<le> LastLogIdx args \<longleftrightarrow> LastLogIdx args + 1 \<ge> int (length (rlog rf))"
    using last_index [OF l] by linarith
  consider "currentTerm rf > rv_Term args" | "currentTerm rf = rv_Term args" | "currentTerm rf < rv_Term args"
    by linarith
  then show ?thesis
  proof cases
    case 1
    with assms(1) show ?thesis by (simp add: RequestVote_def)
  next
    case 2
    with assms l show ?thesis
      by (auto simp: RequestVote_def lastLog_ok up_to_date_def sendHeartbeat_def peer_ok_def li)
  next
    case 3
    with assms show ?thesis
      by (auto simp: RequestVote_def Let_def ll up_to_date_def sendHeartbeat_def peer_ok_def li)
  qed
qed

theorem RequestVote_spec_witness:
  "\<exists>rf r. RequestVote \<lparr>rv_Term = 2, IDcand = 2, LastLogIdx = 1, LastLogTerm = 1\<rparr> node_example = Inr (rf, r) \<and>
     VoteGranted r \<and> votedFor rf = 2"
proof -
  have v: "votedFor node_example = -1" "last (rlog node_example) = \<lparr>le_Term = 1, le_Command = Some 7, le_Index = 1\<rparr>"
    by (simp_all add: node_example_def Make_def)
  from RequestVote_spec [OF node_example_ok(1), of "\<lparr>rv_Term = 2, IDcand = 2, LastLogIdx = 1, LastLogTerm = 1\<rparr>"]
  show ?thesis by (auto simp: node_example_ok v)
qed

section \<open>The commit rule of the leader\<close>

text \<open>Index \<open>j\<close> can be committed: beyond the commit index, held by a majority according to
  \<open>matchIdx\<close>, and it and every later entry of the log are of the current term.\<close>

definition committable :: "'c Raft \<Rightarrow> int \<Rightarrow> int \<Rightarrow> bool" where
  "committable rf i j \<longleftrightarrow> commitIdx rf < j \<and> j \<le> i \<and> int (matchCount rf j) > int (npeers rf) div 2 \<and>
     (\<forall>k. j \<le> k \<and> k \<le> i \<longrightarrow> le_Term (rlog rf ! nat k) = currentTerm rf)"

lemma committable_down:
  "committable rf i j \<longleftrightarrow>
     commitIdx rf < i \<and> le_Term (rlog rf ! nat i) = currentTerm rf \<and>
     (j = i \<and> int (matchCount rf i) > int (npeers rf) div 2 \<or> committable rf (i - 1) j)"
  unfolding committable_def
  by (smt (verit))

lemma advanceCommit_spec:
  assumes "length (matchIdx rf) = npeers rf" and "0 \<le> commitIdx rf" and "i < int (length (rlog rf))"
  shows "(\<exists>j. committable rf i j \<and> (\<forall>k. j < k \<longrightarrow> \<not> committable rf i k) \<and>
            advanceCommit 0 i rf = Inr (rf\<lparr>commitIdx := j, appliers := Suc (appliers rf)\<rparr>)) \<or>
         ((\<forall>j. \<not> committable rf i j) \<and> advanceCommit 0 i rf = Inr rf)"
  using assms(3)
proof (induction "nat (i - commitIdx rf)" arbitrary: i)
  case 0
  then have "\<not> i > commitIdx rf" by simp
  then show ?case by (subst advanceCommit.simps) (auto simp: committable_def)
next
  case (Suc n)
  then have i: "i > commitIdx rf" by simp
  then have ix: "index (rlog rf) i = Inr (rlog rf ! nat i)" using Suc.prems assms(2) by (simp add: index_def)
  have IH: "(\<exists>j. committable rf (i - 1) j \<and> (\<forall>k. j < k \<longrightarrow> \<not> committable rf (i - 1) k) \<and>
            advanceCommit 0 (i - 1) rf = Inr (rf\<lparr>commitIdx := j, appliers := Suc (appliers rf)\<rparr>)) \<or>
         ((\<forall>j. \<not> committable rf (i - 1) j) \<and> advanceCommit 0 (i - 1) rf = Inr rf)"
    using Suc.hyps(1) [of "i - 1"] Suc.hyps(2) Suc.prems by auto
  have eq: "advanceCommit 0 i rf =
      (if currentTerm rf = le_Term (rlog rf ! nat i) then
         if int (matchCount rf i) > int (npeers rf) div 2
         then Inr (rf\<lparr>commitIdx := i, appliers := Suc (appliers rf)\<rparr>) else advanceCommit 0 (i - 1) rf
       else Inr rf)"
    using i ix assms(1) by (subst advanceCommit.simps) simp
  have top: "\<not> committable rf i k" if "i < k" for k using that by (simp add: committable_def)
  show ?case
  proof (cases "currentTerm rf = le_Term (rlog rf ! nat i)")
    case False
    then show ?thesis using eq by (simp add: committable_down [of rf i])
  next
    case t: True
    show ?thesis
    proof (cases "int (matchCount rf i) > int (npeers rf) div 2")
      case True
      then show ?thesis using eq t i top by (auto simp: committable_down [of rf i])
    next
      case False
      then show ?thesis using eq t i IH by (simp add: committable_down [of rf i])
    qed
  qed
qed

text \<open>What a reply does to \<open>nextIdx\<close> and \<open>matchIdx\<close> before the commit rule runs.\<close>

definition noteReply :: "nat \<Rightarrow> 'c AppendEntriesArgs \<Rightarrow> AppendEntriesResults \<Rightarrow> 'c Raft \<Rightarrow> 'c Raft" where
  "noteReply server args reply rf =
     (if Success reply then
        if Entries args \<noteq> [] then
          rf\<lparr>nextIdx := (nextIdx rf)[server := le_Index (last (Entries args)) + 1],
             matchIdx := (matchIdx rf)[server := le_Index (last (Entries args))]\<rparr>
        else rf
      else rf\<lparr>nextIdx := (nextIdx rf)[server := NextTryIdx reply]\<rparr>)"

lemma noteReply_frame [simp]:
  "rlog (noteReply k args r rf) = rlog rf" "commitIdx (noteReply k args r rf) = commitIdx rf"
  "currentTerm (noteReply k args r rf) = currentTerm rf" "npeers (noteReply k args r rf) = npeers rf"
  "length (nextIdx (noteReply k args r rf)) = length (nextIdx rf)" "me (noteReply k args r rf) = me rf"
  "length (matchIdx (noteReply k args r rf)) = length (matchIdx rf)" "state (noteReply k args r rf) = state rf"
  "votedFor (noteReply k args r rf) = votedFor rf" "solicits (noteReply k args r rf) = solicits rf"
  "numVotesReceived (noteReply k args r rf) = numVotesReceived rf"
  by (simp_all add: noteReply_def)

lemma sendAppendEntries_ignored:
  assumes "peer_ok rf" and "\<not> ok \<or> currentTerm rf \<noteq> ae_Term args \<or> state rf \<noteq> LEADER"
  shows "sendAppendEntries ok k args r rf = Inr rf"
  using assms by (simp add: sendAppendEntries_def peer_ok_def log_reads)

lemma sendAppendEntries_stepdown:
  assumes "peer_ok rf" and "ok" and "currentTerm rf = ae_Term args" and "state rf = LEADER"
    and "currentTerm rf < aer_Term r"
  shows "sendAppendEntries ok k args r rf = Inr (persist (newTerm (aer_Term r) rf))"
  using assms by (simp add: sendAppendEntries_def peer_ok_def log_reads)

lemma sendAppendEntries_counted:
  assumes "peer_ok rf" and "ok" and "currentTerm rf = ae_Term args" and "state rf = LEADER"
    and "\<not> currentTerm rf < aer_Term r" and "k < npeers rf"
  shows "sendAppendEntries ok k args r rf =
    advanceCommit 0 (int (length (rlog rf)) - 1) (noteReply k args r rf)"
proof -
  have l: "log_ok (rlog rf)" using assms(1) by (simp add: peer_ok_def)
  then have ll: "lastLog (noteReply k args r rf) = Inr (last (rlog rf))" by (simp add: lastLog_ok)
  have "(if Success r then
           if Entries args \<noteq> [] then
             let n = le_Index (last (Entries args)) + 1 in
             go_bind (updateIdx k n (nextIdx rf)) (\<lambda>ns. go_bind (updateIdx k (n - 1) (matchIdx rf)) (\<lambda>ms.
               Inr (rf\<lparr>nextIdx := ns, matchIdx := ms\<rparr>)))
           else Inr rf
         else go_bind (updateIdx k (NextTryIdx r) (nextIdx rf)) (\<lambda>ns. Inr (rf\<lparr>nextIdx := ns\<rparr>))) =
        Inr (noteReply k args r rf)"
    using assms(1,6) by (simp add: noteReply_def updateIdx_def peer_ok_def)
  then show ?thesis
    unfolding sendAppendEntries_def baseIdx_ok [OF l] go_bind_simps
    using assms(2-5) by (simp add: ll last_index [OF l])
qed

text \<open>
  C13. The leader's commit rule.  A successful or failed reply of the current term never makes the
  leader panic and never changes its log; the commit index never decreases, and where it moves
  it is the largest index such that it and all later entries are of the leader's term and
  more than half of the peers (the leader and those with \<open>matchIdx\<close> at least that index) hold it.
\<close>

theorem sendAppendEntries_commit:
  assumes "peer_ok rf" and "state rf = LEADER" and "ae_Term args = currentTerm rf"
    and "aer_Term r \<le> currentTerm rf" and "k < npeers rf" and "0 \<le> commitIdx rf"
  shows "\<exists>rf'. sendAppendEntries True k args r rf = Inr rf' \<and> peer_ok rf' \<and> rlog rf' = rlog rf \<and>
    commitIdx rf \<le> commitIdx rf' \<and> matchIdx rf' = matchIdx (noteReply k args r rf) \<and>
    (commitIdx rf' = commitIdx rf \<and> (\<forall>j. \<not> committable (noteReply k args r rf) (int (length (rlog rf)) - 1) j) \<or>
     committable (noteReply k args r rf) (int (length (rlog rf)) - 1) (commitIdx rf') \<and>
     (\<forall>j > commitIdx rf'. \<not> committable (noteReply k args r rf) (int (length (rlog rf)) - 1) j))"
proof -
  let ?n = "noteReply k args r rf" and ?i = "int (length (rlog rf)) - 1"
  have n: "peer_ok ?n" using assms(1) by (simp add: peer_ok_def)
  have "sendAppendEntries True k args r rf = advanceCommit 0 ?i ?n"
    using assms by (intro sendAppendEntries_counted) auto
  moreover have "length (matchIdx ?n) = npeers ?n" "0 \<le> commitIdx ?n" "?i < int (length (rlog ?n))"
    using n assms(6) by (auto simp: peer_ok_def)
  note advanceCommit_spec [OF this]
  ultimately show ?thesis using n by (fastforce simp: committable_def peer_ok_def)
qed

definition leader_example :: "nat Raft" where
  "leader_example = node_example\<lparr>state := LEADER, rlog := rlog node_example @
     [\<lparr>le_Term = 2, le_Command = Some 8, le_Index = 2\<rparr>]\<rparr>"

theorem sendAppendEntries_commit_witness:
  "\<exists>rf. sendAppendEntries True 1 append_example \<lparr>aer_Term = 2, Success = True, NextTryIdx = 3\<rparr> leader_example = Inr rf \<and>
     commitIdx rf = 2"
proof -
  have f: "npeers leader_example = 3" "me leader_example = 0" "matchIdx leader_example = [0, 0, 0]"
    "state leader_example = LEADER" "currentTerm leader_example = 2" "commitIdx leader_example = 0"
    "rlog leader_example ! Suc (Suc 0) = \<lparr>le_Term = 2, le_Command = Some 8, le_Index = 2\<rparr>"
    "length (rlog leader_example) = 3"
    by (simp_all add: leader_example_def node_example_def Make_def persist_def readPersist_def
        ReadRaftState_def MakePersister_def numeral_3_eq_3)
  let ?r = "\<lparr>aer_Term = 2, Success = True, NextTryIdx = 3\<rparr>"
  have p: "peer_ok leader_example"
    using node_example_ok(1) by (auto simp: peer_ok_def leader_example_def node_example_ok intro!: log_ok_snoc)
  have c: "committable (noteReply 1 append_example ?r leader_example) 2 2"
    by (auto simp: committable_def f noteReply_def append_example_def matchCount_def upt_rec numeral_2_eq_2
        dest: antisym)
  from sendAppendEntries_commit [OF p, of append_example ?r 1] obtain rf where
    rf: "sendAppendEntries True 1 append_example ?r leader_example = Inr rf"
    "commitIdx rf = 0 \<and> (\<forall>j. \<not> committable (noteReply 1 append_example ?r leader_example) 2 j) \<or>
     committable (noteReply 1 append_example ?r leader_example) 2 (commitIdx rf) \<and>
     (\<forall>j > commitIdx rf. \<not> committable (noteReply 1 append_example ?r leader_example) 2 j)"
    by (auto simp: f append_example_def)
  with c have "committable (noteReply 1 append_example ?r leader_example) 2 (commitIdx rf)" "\<not> commitIdx rf < 2"
    by blast+
  with rf(1) show ?thesis by (auto simp: committable_def)
qed

section \<open>Stable storage\<close>

lemma readPersist_persist:
  "readPersist (ReadRaftState (persister (persist rf))) rf' =
     rf'\<lparr>currentTerm := currentTerm rf, votedFor := votedFor rf, rlog := rlog rf\<rparr>"
  by (simp add: persist_def readPersist_def stable.read_save)

text \<open>
  Round trip through stable storage: a peer that is started from a copy of the storage another
  peer persisted comes up as a follower with that peer's term and log, and with an empty vote:
  the vote that was saved with them is not restored.
\<close>

theorem Make_after_crash:
  "let rf' = Make n i (Copy (persister (persist rf))) in
     currentTerm rf' = currentTerm rf \<and> rlog rf' = rlog rf \<and> state rf' = FOLLOWER \<and> commitIdx rf' = 0 \<and>
     votedFor rf' = -1 \<and>
     ReadRaftState (persister rf') = [GobInt (currentTerm rf), GobInt (votedFor rf), GobLog (rlog rf)]"
proof -
  have "ReadRaftState (Copy (persister (persist rf))) = ReadRaftState (persister (persist rf))"
    by (simp add: stable.read_copy)
  then show ?thesis
    by (simp add: Make_def Let_def readPersist_persist stable.read_save) (simp add: persist_def stable.read_save)
qed

end
