(* ===== verification/RaftCluster.thy ===== *)
theory RaftCluster
  imports RaftNode "HOL-Library.Multiset"
begin

text \<open>
  A cluster of Raft peers (\<^verbatim>\<open>lab3/raft/raft.go\<close>) over the network of \<^verbatim>\<open>lab3/labrpc\<close>: calls are
  lost, delayed and reordered, never duplicated, and a reply goes to the goroutine that made the
  call.  An action runs one section of code under one peer's lock, or moves one message.  A
  handler that blocks on a full channel has not run; a handler that panics ends the program.
  A restart makes a new peer from a copy of the persisted state, as the tester does, and the calls
  of the old one are gone.

  The history variables in \<open>hist\<close> are never read by an action: the votes that were given, for each
  peer its last campaign and the voters counted in it, and for each term its leader and the
  leader's log.
\<close>

section \<open>The cluster\<close>

datatype 'c packet =
    VoteReq nat nat RequestVoteArgs
  | VoteRep nat nat RequestVoteArgs RequestVoteReply
  | AppReq nat nat "'c AppendEntriesArgs"
  | AppRep nat nat "'c AppendEntriesArgs" AppendEntriesResults

record 'c history =
  votes :: "(nat \<times> int \<times> nat) list"
  camp :: "nat \<Rightarrow> int"
  counted :: "nat \<Rightarrow> nat list"
  owner :: "int \<Rightarrow> nat option"
  tlog :: "int \<Rightarrow> 'c LogElement list"

record 'c cluster =
  nodes :: "'c Raft list"
  net :: "'c packet list"
  failed :: "go_panic option"
  hist :: "'c history"

definition cluster_init :: "nat \<Rightarrow> 'c cluster" where
  "cluster_init n = \<lparr>nodes = map (\<lambda>i. Make n i MakePersister) [0..<n], net = [], failed = None,
     hist = \<lparr>votes = [], camp = (\<lambda>_. 0), counted = (\<lambda>_. []), owner = (\<lambda>_. None), tlog = (\<lambda>_. [])\<rparr>\<rparr>"

datatype 'c cact =
    Tick nat
  | Select nat tick_choice
  | Solicit nat
  | Broadcast nat
  | Apply nat
  | Submit nat 'c
  | Deliver nat
  | Drop nat
  | Restart nat

definition finish :: "'c cluster \<Rightarrow> 'a go \<Rightarrow> ('a \<Rightarrow> 'c cluster) \<Rightarrow> 'c cluster option" where
  "finish c m f = (case m of
     Inr x \<Rightarrow> Some (f x)
   | Inl e \<Rightarrow> if e = Blocked then None else Some (c\<lparr>failed := Some e\<rparr>))"

definition setNode :: "nat \<Rightarrow> 'c Raft \<Rightarrow> 'c cluster \<Rightarrow> 'c cluster" where
  "setNode i rf c = c\<lparr>nodes := (nodes c)[i := rf]\<rparr>"

definition doTick :: "nat \<Rightarrow> 'c cluster \<Rightarrow> 'c cluster option" where
  "doTick i c =
     (case tickTop (nodes c ! i) of
        None \<Rightarrow> None
      | Some rf \<Rightarrow>
          Some (let c1 = setNode i rf c in
            if state (nodes c ! i) = CANDIDATE then
              c1\<lparr>hist := (hist c)\<lparr>votes := (i, currentTerm rf, i) # votes (hist c),
                                 camp := (camp (hist c))(i := currentTerm rf),
                                 counted := (counted (hist c))(i := [])\<rparr>\<rparr>
            else c1))"

definition doSelect :: "nat \<Rightarrow> tick_choice \<Rightarrow> 'c cluster \<Rightarrow> 'c cluster option" where
  "doSelect i ch c = map_option (\<lambda>rf. setNode i rf c) (tickSelect ch (nodes c ! i))"

definition doSolicit :: "nat \<Rightarrow> 'c cluster \<Rightarrow> 'c cluster option" where
  "doSolicit i c =
     (case solicits (nodes c ! i) of
        [] \<Rightarrow> None
      | t # ts \<Rightarrow>
          let rf = (nodes c ! i)\<lparr>solicits := ts\<rparr> in
          finish c (solicitVotes rf) (\<lambda>ms.
            (setNode i rf c)\<lparr>net := net c @ map (\<lambda>(j, a). VoteReq i j a) ms\<rparr>))"

definition doBroadcast :: "nat \<Rightarrow> 'c cluster \<Rightarrow> 'c cluster option" where
  "doBroadcast i c =
     (let rf = nodes c ! i in
      if broadcasts rf = 0 then None
      else
        let rf1 = rf\<lparr>broadcasts := broadcasts rf - 1\<rparr> in
        finish c (broadcastHeartbeat rf1) (\<lambda>ms.
          (setNode i rf1 c)\<lparr>net := net c @ map (\<lambda>(j, a). AppReq i j a) ms\<rparr>))"

definition doApply :: "nat \<Rightarrow> 'c cluster \<Rightarrow> 'c cluster option" where
  "doApply i c =
     (let rf = nodes c ! i in
      if appliers rf = 0 then None
      else finish c (applyCommitted (rf\<lparr>appliers := appliers rf - 1\<rparr>)) (\<lambda>rf'. setNode i rf' c))"

definition doSubmit :: "nat \<Rightarrow> 'c \<Rightarrow> 'c cluster \<Rightarrow> 'c cluster option" where
  "doSubmit i cmd c =
     finish c (Start cmd (nodes c ! i)) (\<lambda>(rf, idx, term, isLeader).
       let c1 = setNode i rf c in
       if isLeader then c1\<lparr>hist := (hist c)\<lparr>tlog := (tlog (hist c))(currentTerm rf := rlog rf)\<rparr>\<rparr> else c1)"

text \<open>Whether \<open>sendRequestVote\<close> counts a reply.\<close>

definition counts :: "RequestVoteArgs \<Rightarrow> RequestVoteReply \<Rightarrow> 'c Raft \<Rightarrow> bool" where
  "counts a r rf \<longleftrightarrow> currentTerm rf = rv_Term a \<and> state rf = CANDIDATE \<and> \<not> rvr_Term r > currentTerm rf \<and> VoteGranted r"

definition recordVote :: "nat \<Rightarrow> RequestVoteArgs \<Rightarrow> RequestVoteReply \<Rightarrow> 'c history \<Rightarrow> 'c history" where
  "recordVote j a r h = (if VoteGranted r then h\<lparr>votes := (j, rv_Term a, IDcand a) # votes h\<rparr> else h)"

definition recordCount :: "nat \<Rightarrow> nat \<Rightarrow> 'c Raft \<Rightarrow> 'c history \<Rightarrow> 'c history" where
  "recordCount i j rf h =
     (let h1 = h\<lparr>counted := (counted h)(i := j # counted h i)\<rparr> in
      if state rf = LEADER
      then h1\<lparr>owner := (owner h)(currentTerm rf := Some i), tlog := (tlog h)(currentTerm rf := rlog rf)\<rparr> else h1)"

definition doPacket :: "'c packet \<Rightarrow> 'c cluster \<Rightarrow> 'c cluster option" where
  "doPacket p c =
     (case p of
        VoteReq i j a \<Rightarrow>
          finish c (RequestVote a (nodes c ! j)) (\<lambda>(rf, r).
            (setNode j rf c)\<lparr>net := net c @ [VoteRep i j a r], hist := recordVote j a r (hist c)\<rparr>)
      | VoteRep i j a r \<Rightarrow>
          finish c (sendRequestVote True a r (nodes c ! i)) (\<lambda>rf.
            let c1 = setNode i rf c in
            if counts a r (nodes c ! i) then c1\<lparr>hist := recordCount i j rf (hist c)\<rparr> else c1)
      | AppReq i j a \<Rightarrow>
          finish c (AppendEntries a (nodes c ! j)) (\<lambda>(rf, r).
            (setNode j rf c)\<lparr>net := net c @ [AppRep i j a r]\<rparr>)
      | AppRep i j a r \<Rightarrow>
          finish c (sendAppendEntries True j a r (nodes c ! i)) (\<lambda>rf. setNode i rf c))"

definition removePacket :: "nat \<Rightarrow> 'c cluster \<Rightarrow> 'c cluster" where
  "removePacket k c = c\<lparr>net := take k (net c) @ drop (Suc k) (net c)\<rparr>"

fun client :: "'c packet \<Rightarrow> nat" where
  "client (VoteReq i j a) = i"
| "client (VoteRep i j a r) = i"
| "client (AppReq i j a) = i"
| "client (AppRep i j a r) = i"

fun server :: "'c packet \<Rightarrow> nat" where
  "server (VoteReq i j a) = j"
| "server (VoteRep i j a r) = j"
| "server (AppReq i j a) = j"
| "server (AppRep i j a r) = j"

definition doRestart :: "nat \<Rightarrow> 'c cluster \<Rightarrow> 'c cluster" where
  "doRestart i c =
     (let rf = nodes c ! i in
      (setNode i (Make (npeers rf) i (Copy (persister rf))) c)\<lparr>net := filter (\<lambda>p. client p \<noteq> i) (net c)\<rparr>)"

definition cluster_step :: "'c cact \<Rightarrow> 'c cluster \<Rightarrow> 'c cluster option" where
  "cluster_step a c =
     (let n = length (nodes c) in
      case a of
        Tick i \<Rightarrow> if i < n then doTick i c else None
      | Select i ch \<Rightarrow> if i < n then doSelect i ch c else None
      | Solicit i \<Rightarrow> if i < n then doSolicit i c else None
      | Broadcast i \<Rightarrow> if i < n then doBroadcast i c else None
      | Apply i \<Rightarrow> if i < n then doApply i c else None
      | Submit i cmd \<Rightarrow> if i < n then doSubmit i cmd c else None
      | Deliver k \<Rightarrow> if k < length (net c) then doPacket (net c ! k) (removePacket k c) else None
      | Drop k \<Rightarrow> if k < length (net c) then Some (removePacket k c) else None
      | Restart i \<Rightarrow> if i < n then Some (doRestart i c) else None)"

definition cluster_act :: "'c cact \<Rightarrow> 'c cluster \<Rightarrow> 'c cluster option" where
  "cluster_act a c = (if failed c = None then cluster_step a c else None)"

text \<open>The timely runs: no peer restarts, and the goroutine that solicits votes gets the lock while
  its campaign is still the peer's current term.\<close>

definition timely :: "'c cact \<Rightarrow> 'c cluster \<Rightarrow> bool" where
  "timely a c = (case a of
     Restart i \<Rightarrow> False
   | Solicit i \<Rightarrow> (case solicits (nodes c ! i) of [] \<Rightarrow> True | t # ts \<Rightarrow> t = currentTerm (nodes c ! i))
   | _ \<Rightarrow> True)"

definition timely_act :: "'c cact \<Rightarrow> 'c cluster \<Rightarrow> 'c cluster option" where
  "timely_act a c = (if timely a c then cluster_act a c else None)"

section \<open>Quorums\<close>

text \<open>What election safety needs of the sets of voters that can elect a leader.\<close>

locale quorum_system =
  fixes quorum :: "'v set \<Rightarrow> bool"
  assumes quorum_meet: "quorum A \<Longrightarrow> quorum B \<Longrightarrow> A \<inter> B \<noteq> {}"
begin

lemma unique_choice:
  assumes "quorum A" and "quorum B" and "\<And>v. v \<in> A \<Longrightarrow> vote v = Some x" and "\<And>v. v \<in> B \<Longrightarrow> vote v = Some y"
  shows "x = y"
proof -
  from quorum_meet [OF assms(1,2)] obtain v where "v \<in> A" "v \<in> B" by blast
  with assms(3,4) show ?thesis by force
qed

lemma unique_relation:
  assumes "quorum A" and "quorum B" and "\<And>v. v \<in> A \<Longrightarrow> R v x" and "\<And>v. v \<in> B \<Longrightarrow> R v y"
    and "\<And>v z z'. R v z \<Longrightarrow> R v z' \<Longrightarrow> z = z'"
  shows "x = y"
proof -
  from quorum_meet [OF assms(1,2)] obtain v where "v \<in> A" "v \<in> B" by blast
  with assms(3-5) show ?thesis by blast
qed

end

definition majority :: "nat \<Rightarrow> nat set \<Rightarrow> bool" where
  "majority n A \<longleftrightarrow> A \<subseteq> {..<n} \<and> n < 2 * card A"

interpretation maj: quorum_system "majority n" for n
proof
  fix A B assume A: "majority n A" and B: "majority n B"
  then have f: "finite A" "finite B" by (auto simp: majority_def intro: finite_subset [OF _ finite_lessThan])
  have "card (A \<union> B) \<le> n"
    using A B card_mono [of "{..<n}" "A \<union> B"] by (auto simp: majority_def)
  with A B f card_Un_disjoint [of A B] show "A \<inter> B \<noteq> {}" by (auto simp: majority_def)
qed

section \<open>The election invariant\<close>

text \<open>The voters whose request or reply for peer \<open>i\<close>'s term \<open>t\<close> is on its way.\<close>

fun voteSlot :: "int \<Rightarrow> nat \<Rightarrow> 'c packet \<Rightarrow> nat list" where
  "voteSlot t i (VoteReq i' j a) = (if i' = i \<and> rv_Term a = t then [j] else [])"
| "voteSlot t i (VoteRep i' j a r) = (if i' = i \<and> rv_Term a = t then [j] else [])"
| "voteSlot t i _ = []"

definition slots :: "'c packet list \<Rightarrow> int \<Rightarrow> nat \<Rightarrow> nat list" where
  "slots ps t i = concat (map (voteSlot t i) ps)"

lemma slots_simps [simp]: "slots [] t i = []" "slots (p # ps) t i = voteSlot t i p @ slots ps t i"
  "slots (ps @ qs) t i = slots ps t i @ slots qs t i"
  by (simp_all add: slots_def)

fun packet_ok :: "nat \<Rightarrow> 'c history \<Rightarrow> 'c packet \<Rightarrow> bool" where
  "packet_ok n h (VoteReq i j a) \<longleftrightarrow> i < n \<and> j < n \<and> i \<noteq> j \<and> IDcand a = i \<and> rv_Term a \<le> camp h i \<and>
     (i, rv_Term a, i) \<in> set (votes h)"
| "packet_ok n h (VoteRep i j a r) \<longleftrightarrow> i < n \<and> j < n \<and> i \<noteq> j \<and> IDcand a = i \<and> rv_Term a \<le> camp h i \<and>
     (i, rv_Term a, i) \<in> set (votes h) \<and> (VoteGranted r \<longrightarrow> (j, rv_Term a, i) \<in> set (votes h))"
| "packet_ok n h (AppReq i j a) \<longleftrightarrow> i < n \<and> j < n"
| "packet_ok n h (AppRep i j a r) \<longleftrightarrow> i < n \<and> j < n"

text \<open>A vote that was given binds the voter for as long as it stays in that term.\<close>

definition voter_ok :: "'c history \<Rightarrow> nat \<Rightarrow> 'c Raft \<Rightarrow> bool" where
  "voter_ok h j rf \<longleftrightarrow> (\<forall>t i. (j, t, i) \<in> set (votes h) \<longrightarrow>
     t \<le> currentTerm rf \<and> (t = currentTerm rf \<longrightarrow> votedFor rf = int i))"

text \<open>A candidate counts every voter of its last campaign at most once.\<close>

definition candidate_ok :: "nat \<Rightarrow> 'c packet list \<Rightarrow> 'c history \<Rightarrow> nat \<Rightarrow> 'c Raft \<Rightarrow> bool" where
  "candidate_ok n ps h i rf \<longleftrightarrow>
     camp h i \<le> currentTerm rf \<and>
     numVotesReceived rf \<le> 1 + int (length (counted h i)) \<and>
     (\<forall>v \<in> set (counted h i). v < n \<and> v \<noteq> i \<and> (v, camp h i, i) \<in> set (votes h)) \<and>
     distinct (slots ps (camp h i) i @ counted h i) \<and>
     distinct (solicits rf) \<and> (\<forall>t \<in> set (solicits rf). t \<le> camp h i \<and> (i, t, i) \<in> set (votes h)) \<and>
     (camp h i \<in> set (solicits rf) \<longrightarrow> slots ps (camp h i) i = [] \<and> counted h i = [])"

definition leader_ok :: "'c history \<Rightarrow> nat \<Rightarrow> 'c Raft \<Rightarrow> bool" where
  "leader_ok h i rf \<longleftrightarrow> (state rf = LEADER \<longrightarrow> owner h (currentTerm rf) = Some i)"

definition history_ok :: "nat \<Rightarrow> 'c history \<Rightarrow> bool" where
  "history_ok n h \<longleftrightarrow>
     (\<forall>j t i. (j, t, i) \<in> set (votes h) \<longrightarrow> j < n) \<and>
     (\<forall>j t i i'. (j, t, i) \<in> set (votes h) \<longrightarrow> (j, t, i') \<in> set (votes h) \<longrightarrow> i = i') \<and>
     (\<forall>t i. owner h t = Some i \<longrightarrow> i < n \<and> (\<exists>Q. majority n Q \<and> (\<forall>v \<in> Q. (v, t, i) \<in> set (votes h))))"

definition node_ok :: "nat \<Rightarrow> 'c packet list \<Rightarrow> 'c history \<Rightarrow> nat \<Rightarrow> 'c Raft \<Rightarrow> bool" where
  "node_ok n ps h i rf \<longleftrightarrow> me rf = i \<and> npeers rf = n \<and> voter_ok h i rf \<and> candidate_ok n ps h i rf \<and> leader_ok h i rf"

definition election_inv :: "'c cluster \<Rightarrow> bool" where
  "election_inv c \<longleftrightarrow>
     history_ok (length (nodes c)) (hist c) \<and>
     (\<forall>p \<in> set (net c). packet_ok (length (nodes c)) (hist c) p) \<and>
     (\<forall>i < length (nodes c). node_ok (length (nodes c)) (net c) (hist c) i (nodes c ! i))"

lemma election_invD:
  assumes "election_inv c"
  shows "history_ok (length (nodes c)) (hist c)" "p \<in> set (net c) \<Longrightarrow> packet_ok (length (nodes c)) (hist c) p"
    "i < length (nodes c) \<Longrightarrow> node_ok (length (nodes c)) (net c) (hist c) i (nodes c ! i)"
  using assms by (auto simp: election_inv_def)

subsection \<open>What a step of one peer leaves alone\<close>

text \<open>Of peer \<open>j\<close>, no more vote messages are in flight than before.\<close>

definition netle :: "nat \<Rightarrow> 'c packet list \<Rightarrow> 'c packet list \<Rightarrow> bool" where
  "netle j qs ps \<longleftrightarrow> (\<forall>t. mset (slots qs t j) \<subseteq># mset (slots ps t j))"

lemma netle_refl [simp]: "netle j ps ps"
  by (simp add: netle_def)

lemma distinct_subseteq_mset:
  assumes "mset xs \<subseteq># mset ys" and "distinct ys"
  shows "distinct xs"
  unfolding distinct_count_atmost_1
proof
  fix a
  have "count (mset xs) a \<le> count (mset ys) a" using assms(1) by (rule mset_subset_eq_count)
  also have "\<dots> \<le> 1" using assms(2) by (simp add: distinct_count_atmost_1)
  finally have 1: "count (mset xs) a \<le> 1" .
  show "count (mset xs) a = (if a \<in> set xs then 1 else 0)"
  proof (cases "a \<in> set xs")
    case True
    then have "0 < count (mset xs) a" by simp
    with 1 have "count (mset xs) a = 1" by linarith
    with True show ?thesis by (simp only: if_True)
  next
    case False
    then show ?thesis by (simp add: not_in_iff [symmetric])
  qed
qed

lemma netle_slots:
  assumes "netle i qs ps" and "distinct (slots ps t i @ xs)"
  shows "distinct (slots qs t i @ xs)" "slots ps t i = [] \<Longrightarrow> slots qs t i = []"
proof -
  have s: "mset (slots qs t i) \<subseteq># mset (slots ps t i)" using assms(1) by (simp add: netle_def)
  then have "set (slots qs t i) \<subseteq> set (slots ps t i)" using set_mset_mono by fastforce
  moreover have "distinct (slots qs t i)" using distinct_subseteq_mset [OF s] assms(2) by simp
  ultimately show "distinct (slots qs t i @ xs)" using assms(2) by auto
  show "slots ps t i = [] \<Longrightarrow> slots qs t i = []" using s by simp
qed

text \<open>A step of peer \<open>i\<close> extends the history, and of the others it only keeps what was there.\<close>

definition histle :: "nat \<Rightarrow> 'c history \<Rightarrow> 'c history \<Rightarrow> bool" where
  "histle i h h' \<longleftrightarrow> set (votes h) \<subseteq> set (votes h') \<and> camp h i \<le> camp h' i \<and>
     (\<forall>j. j \<noteq> i \<longrightarrow> camp h' j = camp h j \<and> counted h' j = counted h j \<and>
        (\<forall>t k. (j, t, k) \<in> set (votes h') \<longrightarrow> (j, t, k) \<in> set (votes h))) \<and>
     (\<forall>t k. owner h t = Some k \<longrightarrow> owner h' t = Some k)"

lemma histle_refl [simp]: "histle i h h"
  by (simp add: histle_def)

lemma histle_camp: "histle i h h' \<Longrightarrow> camp h j \<le> camp h' j"
  by (cases "j = i") (simp_all add: histle_def)

lemma histle_votes: "histle i h h' \<Longrightarrow> v \<in> set (votes h) \<Longrightarrow> v \<in> set (votes h')"
  by (auto simp: histle_def)

lemma packet_ok_histle: "packet_ok n h p \<Longrightarrow> histle i h h' \<Longrightarrow> packet_ok n h' p"
  by (cases p) (auto dest: histle_camp histle_votes intro: order_trans)

lemma node_ok_histle:
  assumes "node_ok n ps h j rf" and "histle i h h'" and "j \<noteq> i" and "netle j qs ps"
  shows "node_ok n qs h' j rf"
proof -
  have h: "camp h' j = camp h j" "counted h' j = counted h j" "set (votes h) \<subseteq> set (votes h')"
    "\<And>t k. (j, t, k) \<in> set (votes h') \<Longrightarrow> (j, t, k) \<in> set (votes h)"
    "\<And>t k. owner h t = Some k \<Longrightarrow> owner h' t = Some k"
    using assms(2,3) by (auto simp: histle_def)
  have "voter_ok h' j rf" using assms(1) h(4) unfolding node_ok_def voter_ok_def by blast
  moreover have "leader_ok h' j rf" using assms(1) h(5) unfolding node_ok_def leader_ok_def by blast
  moreover have "candidate_ok n qs h' j rf"
    using assms(1) h(1-3) netle_slots [OF assms(4), of "camp h j" "counted h j"]
    by (auto simp: node_ok_def candidate_ok_def)
  ultimately show ?thesis using assms(1) by (simp add: node_ok_def)
qed

lemma election_inv_step:
  assumes "election_inv c" and "i < length (nodes c)" and "nodes c' = (nodes c)[i := rf']"
    and "histle i (hist c) (hist c')" and "\<And>j. j \<noteq> i \<Longrightarrow> netle j (net c') (net c)"
    and "history_ok (length (nodes c)) (hist c')"
    and "\<And>p. p \<in> set (net c') \<Longrightarrow> p \<notin> set (net c) \<Longrightarrow> packet_ok (length (nodes c)) (hist c') p"
    and "node_ok (length (nodes c)) (net c') (hist c') i rf'"
  shows "election_inv c'"
proof -
  have "node_ok (length (nodes c)) (net c') (hist c') j (nodes c' ! j)" if "j < length (nodes c)" for j
    using assms that node_ok_histle [OF election_invD(3) [OF assms(1) that] assms(4), of "net c'"]
    by (cases "j = i") auto
  moreover have "packet_ok (length (nodes c)) (hist c') p" if "p \<in> set (net c')" for p
    using assms(7) that packet_ok_histle [OF election_invD(2) [OF assms(1)] assms(4)] by blast
  ultimately show ?thesis using assms(3,6) by (simp add: election_inv_def)
qed

subsection \<open>Steps that do not touch an election\<close>

definition quiet :: "'c Raft \<Rightarrow> 'c Raft \<Rightarrow> bool" where
  "quiet rf rf' \<longleftrightarrow> me rf' = me rf \<and> npeers rf' = npeers rf \<and> numVotesReceived rf' = numVotesReceived rf \<and>
     solicits rf' = solicits rf \<and> currentTerm rf \<le> currentTerm rf' \<and>
     (currentTerm rf' = currentTerm rf \<longrightarrow> votedFor rf' = votedFor rf) \<and>
     (state rf' = LEADER \<longrightarrow> state rf = LEADER \<and> currentTerm rf' = currentTerm rf)"

lemma quiet_refl [simp]: "quiet rf rf"
  by (simp add: quiet_def)

lemma quiet_persist [simp]: "quiet rf (persist rf') = quiet rf rf'"
  by (simp add: quiet_def)

lemma quiet_newTerm: "currentTerm rf < t \<Longrightarrow> quiet rf (newTerm t rf)"
  by (simp add: quiet_def)

lemma node_ok_quiet:
  assumes "node_ok n ps h i rf" and "quiet rf rf'" and "netle i qs ps"
  shows "node_ok n qs h i rf'"
proof -
  have v: "voter_ok h i rf'" using assms(1,2)
    unfolding node_ok_def voter_ok_def quiet_def by (metis order.trans order_antisym_conv)
  have "candidate_ok n qs h i rf'"
    using assms(1,2) netle_slots [OF assms(3), of "camp h i" "counted h i"]
    by (auto simp: node_ok_def candidate_ok_def quiet_def)
  with v show ?thesis using assms(1,2) by (auto simp: node_ok_def quiet_def leader_ok_def)
qed

lemma election_inv_quiet:
  assumes "election_inv c" and "i < length (nodes c)" and "nodes c' = (nodes c)[i := rf']"
    and "hist c' = (hist c)\<lparr>tlog := f\<rparr>" and "\<And>j. netle j (net c') (net c)" and "quiet (nodes c ! i) rf'"
    and "\<And>p. p \<in> set (net c') \<Longrightarrow> p \<notin> set (net c) \<Longrightarrow> packet_ok (length (nodes c)) (hist c) p"
  shows "election_inv c'"
proof (rule election_inv_step [OF assms(1-3)])
  have h: "node_ok n ps (hist c') j rf = node_ok n ps (hist c) j rf" for n ps j rf
    by (simp add: assms(4) node_ok_def voter_ok_def candidate_ok_def leader_ok_def)
  show "histle i (hist c) (hist c')" by (simp add: assms(4) histle_def)
  show "history_ok (length (nodes c)) (hist c')"
    using assms(4) election_invD(1) [OF assms(1)] by (simp add: history_ok_def)
  show "node_ok (length (nodes c)) (net c') (hist c') i rf'"
    unfolding h by (rule node_ok_quiet [OF election_invD(3) [OF assms(1,2)] assms(6,5)])
  show "packet_ok (length (nodes c)) (hist c') p" if "p \<in> set (net c')" "p \<notin> set (net c)" for p
    using assms(7) [OF that] by (cases p) (auto simp: assms(4))
qed (rule assms(5))

lemma sendHeartbeat_quiet: "sendHeartbeat rf1 = Inr rf' \<Longrightarrow> quiet rf rf1 \<Longrightarrow> quiet rf rf'"
  by (auto simp: sendHeartbeat_def quiet_def split: if_splits)

lemma installEntries_quiet: "installEntries a b rf1 = Inr (rf', r) \<Longrightarrow> quiet rf rf1 \<Longrightarrow> quiet rf rf'"
  by (auto simp: installEntries_def go_bind_Inr_iff Let_def quiet_def split: if_splits)

lemma AppendEntries_quiet:
  assumes "AppendEntries a rf = Inr (rf', r)"
  shows "quiet rf rf'"
proof (cases "currentTerm rf > ae_Term a")
  case True
  with assms show ?thesis by (auto simp: AppendEntries_def go_bind_Inr_iff)
next
  case False
  define rf1 where "rf1 = (if currentTerm rf < ae_Term a then newTerm (ae_Term a) rf else rf)"
  have q: "quiet rf rf1" by (simp add: rf1_def quiet_newTerm)
  from assms False obtain rf2 base where rf2: "sendHeartbeat rf1 = Inr rf2" and
    "rf' = rf2 \<or> rf' = persist rf2 \<or> installEntries a base rf2 = Inr (rf', r)"
    unfolding AppendEntries_def Let_def rf1_def [symmetric]
    by (auto simp: go_bind_Inr_iff split: if_splits option.splits)
  with sendHeartbeat_quiet [OF rf2 q] show ?thesis by (auto intro: installEntries_quiet)
qed

lemma advanceCommit_quiet: "advanceCommit b i rf = Inr rf' \<Longrightarrow> quiet rf rf'"
proof (induction b i rf rule: advanceCommit.induct)
  case (1 b i rf)
  from "1.prems" show ?case
    by (subst (asm) advanceCommit.simps) (auto simp: quiet_def split: if_splits sum.splits dest!: "1.IH")
qed

lemma sendAppendEntries_quiet: "sendAppendEntries ok k a r rf = Inr rf' \<Longrightarrow> quiet rf rf'"
  by (auto simp: sendAppendEntries_def go_bind_Inr_iff Let_def quiet_def
      split: if_splits dest!: advanceCommit_quiet)

lemma Start_quiet: "Start x rf = Inr (rf', u) \<Longrightarrow> quiet rf rf'"
  by (auto simp: Start_def go_bind_Inr_iff Let_def quiet_def split: if_splits)

lemma applyCommitted_quiet: "applyCommitted rf = Inr rf' \<Longrightarrow> quiet rf rf'"
  by (auto simp: applyCommitted_def go_bind_Inr_iff quiet_def split: if_splits)

lemma heartbeats_targets: "heartbeats rf b is = Inr ms \<Longrightarrow> m \<in> set ms \<Longrightarrow> fst m \<in> set is"
  by (induction "is" arbitrary: ms) (auto simp: go_bind_Inr_iff split: option.splits)

lemma broadcast_targets: "broadcastHeartbeat rf = Inr ms \<Longrightarrow> m \<in> set ms \<Longrightarrow> fst m < npeers rf"
  by (auto simp: broadcastHeartbeat_def go_bind_Inr_iff dest: heartbeats_targets)

lemma tickSelect_quiet: "tickSelect ch rf = Some rf' \<Longrightarrow> quiet rf rf'"
  by (auto simp: tickSelect_def quiet_def split: if_splits ticker_pc.splits tick_choice.splits)

lemma tickTop_quiet: "tickTop rf = Some rf' \<Longrightarrow> state rf \<noteq> CANDIDATE \<Longrightarrow> quiet rf rf'"
  by (auto simp: tickTop_def quiet_def split: if_splits role.splits)

lemma RequestVote_denied_quiet: "RequestVote a rf = Inr (rf', r) \<Longrightarrow> \<not> VoteGranted r \<Longrightarrow> quiet rf rf'"
  by (auto simp: RequestVote_def go_bind_Inr_iff Let_def quiet_def split: if_splits)

lemma sendRequestVote_ignored_quiet:
  "sendRequestVote True a r rf = Inr rf' \<Longrightarrow> \<not> counts a r rf \<Longrightarrow> quiet rf rf'"
  by (auto simp: sendRequestVote_def counts_def quiet_def split: if_splits)

subsection \<open>The steps of an election\<close>

lemma finish_cases:
  assumes "finish c m f = Some c'"
  obtains x where "m = Inr x" "c' = f x" | e where "c' = c\<lparr>failed := Some e\<rparr>"
  using assms by (auto simp: finish_def split: sum.splits if_splits)

lemma election_inv_failed [simp]: "election_inv (c\<lparr>failed := e\<rparr>) = election_inv c"
  by (simp add: election_inv_def)

lemma setNode_simps [simp]:
  "nodes (setNode i rf c) = (nodes c)[i := rf]" "net (setNode i rf c) = net c" "hist (setNode i rf c) = hist c"
  by (simp_all add: setNode_def)

lemma history_ok_vote:
  assumes "history_ok n h" and "j < n" and "\<And>k. (j, t, k) \<in> set (votes h) \<Longrightarrow> k = i"
  shows "history_ok n (h\<lparr>votes := (j, t, i) # votes h\<rparr>)"
proof -
  have "\<exists>Q. majority n Q \<and> (\<forall>v \<in> Q. v = j \<and> u = t \<and> k = i \<or> (v, u, k) \<in> set (votes h))"
    if "owner h u = Some k" for u k
    using assms(1) that by (fastforce simp: history_ok_def)
  with assms show ?thesis by (auto simp: history_ok_def)
qed

text \<open>A candidate starts a campaign: it votes for itself in a term in which it has not voted.\<close>

lemma campaign_step:
  assumes "election_inv c" and "i < length (nodes c)" and "state (nodes c ! i) = CANDIDATE"
    and "doTick i c = Some c'"
  shows "election_inv c'"
proof -
  let ?rf = "nodes c ! i" and ?n = "length (nodes c)" and ?h = "hist c"
  let ?t = "currentTerm ?rf + 1"
  have ok: "node_ok ?n (net c) ?h i ?rf" "history_ok ?n ?h" using assms(1,2) by (auto dest: election_invD)
  have nv: "t \<le> currentTerm ?rf" if "(i, t, k) \<in> set (votes ?h)" for t k
    using ok(1) that by (auto simp: node_ok_def voter_ok_def)
  then have new: "(i, ?t, k) \<notin> set (votes ?h)" for k by fastforce
  have camp: "camp ?h i \<le> currentTerm ?rf" "\<forall>t \<in> set (solicits ?rf). t \<le> camp ?h i \<and> (i, t, i) \<in> set (votes ?h)"
    "distinct (solicits ?rf)"
    using ok(1) by (auto simp: node_ok_def candidate_ok_def)
  obtain rf' where rf': "tickTop ?rf = Some rf'" and c': "c' = (setNode i rf' c)\<lparr>hist :=
      ?h\<lparr>votes := (i, ?t, i) # votes ?h, camp := (camp ?h)(i := ?t), counted := (counted ?h)(i := [])\<rparr>\<rparr>"
    using assms(3,4) by (auto simp: doTick_def Let_def tickTop_def split: option.splits if_splits)
  have f: "currentTerm rf' = ?t" "votedFor rf' = int i" "numVotesReceived rf' = 1" "me rf' = i" "npeers rf' = ?n"
    "solicits rf' = solicits ?rf @ [?t]" "state rf' = CANDIDATE"
    using rf' assms(3) ok(1) by (auto simp: tickTop_def Let_def node_ok_def split: if_splits)
  have slots: "slots (net c) ?t i = []"
  proof -
    have "voteSlot ?t i p = []" if "p \<in> set (net c)" for p
      using election_invD(2) [OF assms(1) that] camp(1) new by (cases p) auto
    then show ?thesis by (simp add: slots_def)
  qed
  show ?thesis
  proof (rule election_inv_step [OF assms(1,2), of c' rf'])
    show "histle i ?h (hist c')" using camp(1) by (auto simp: c' histle_def)
    show "history_ok ?n (hist c')"
      using history_ok_vote [OF ok(2) assms(2), of ?t i] new by (simp add: c' history_ok_def)
    show "node_ok ?n (net c') (hist c') i rf'"
      using camp slots nv by (fastforce simp: c' f node_ok_def voter_ok_def leader_ok_def candidate_ok_def)
  qed (simp_all add: c')
qed

text \<open>The goroutine that asks for votes, run in the term of its campaign: one request to each other peer.\<close>

lemma slots_requests:
  "slots (map (\<lambda>j. VoteReq i j a) js) t k = (if i = k \<and> rv_Term a = t then js else [])"
  by (induction js) auto

lemma solicitVotes_requests:
  assumes "solicitVotes rf = Inr ms"
  shows "\<exists>a. rv_Term a = currentTerm rf \<and> IDcand a = me rf \<and>
    ms = map (\<lambda>j. (j, a)) (filter (\<lambda>j. j \<noteq> me rf) [0..<npeers rf])"
proof -
  from assms obtain a where "voteArgs rf = Inr a"
      "ms = map (\<lambda>j. (j, a)) (filter (\<lambda>j. j \<noteq> me rf) [0..<npeers rf])"
    by (auto simp: solicitVotes_def go_bind_Inr_iff)
  then show ?thesis by (intro exI [of _ a]) (auto simp: voteArgs_def go_bind_Inr_iff)
qed

lemma solicit_step:
  assumes "election_inv c" and "i < length (nodes c)" and "timely (Solicit i) c" and "doSolicit i c = Some c'"
  shows "election_inv c'"
proof -
  let ?rf = "nodes c ! i" and ?n = "length (nodes c)" and ?h = "hist c"
  from assms(3,4) obtain ts where ts: "solicits ?rf = currentTerm ?rf # ts"
    by (auto simp: timely_def doSolicit_def split: list.splits)
  have ok: "node_ok ?n (net c) ?h i ?rf" "history_ok ?n ?h" using assms(1,2) by (auto dest: election_invD)
  from ok(1) ts have camp: "camp ?h i = currentTerm ?rf" "(i, currentTerm ?rf, i) \<in> set (votes ?h)"
    "slots (net c) (currentTerm ?rf) i = []" "counted ?h i = []" "currentTerm ?rf \<notin> set ts"
    by (auto simp: node_ok_def candidate_ok_def)
  let ?rf' = "?rf\<lparr>solicits := ts\<rparr>"
  from assms(4) ts have "finish c (solicitVotes ?rf') (\<lambda>ms.
      (setNode i ?rf' c)\<lparr>net := net c @ map (\<lambda>(j, a). VoteReq i j a) ms\<rparr>) = Some c'"
    by (simp add: doSolicit_def Let_def)
  then show ?thesis
  proof (cases rule: finish_cases)
    case (1 ms)
    then obtain a where a: "rv_Term a = currentTerm ?rf" "IDcand a = i"
        "ms = map (\<lambda>j. (j, a)) (filter (\<lambda>j. j \<noteq> i) [0..<?n])"
      using ok(1) solicitVotes_requests [OF 1(1)] by (auto simp: node_ok_def)
    with 1 have c': "c' = (setNode i ?rf' c)\<lparr>net := net c @ map (\<lambda>j. VoteReq i j a) (filter (\<lambda>j. j \<noteq> i) [0..<?n])\<rparr>"
      by (simp add: o_def)
    show ?thesis
    proof (rule election_inv_step [OF assms(1,2), of c' ?rf'])
      show "netle j (net c') (net c)" if "j \<noteq> i" for j
        using that by (simp add: c' netle_def slots_requests)
      show "packet_ok ?n (hist c') p" if "p \<in> set (net c')" "p \<notin> set (net c)" for p
        using that a camp assms(2) by (auto simp: c')
      show "node_ok ?n (net c') (hist c') i ?rf'"
        using ok(1) ts camp a(1)
        by (auto simp: c' node_ok_def voter_ok_def leader_ok_def candidate_ok_def slots_requests)
    qed (simp_all add: c' ok(2))
  qed (simp add: assms(1))
qed

text \<open>A voter grants its vote.\<close>

lemma grant_step:
  assumes "election_inv c" and "j < length (nodes c)" and "RequestVote a (nodes c ! j) = Inr (rf', r)"
    and "VoteGranted r" and "packet_ok (length (nodes c)) (hist c) (VoteReq i j a)"
    and "nodes c' = (nodes c)[j := rf']" and "hist c' = (hist c)\<lparr>votes := (j, rv_Term a, i) # votes (hist c)\<rparr>"
    and "\<And>k. netle k (net c') (net c)"
    and "\<And>p. p \<in> set (net c') \<Longrightarrow> p \<notin> set (net c) \<Longrightarrow> p = VoteRep i j a r"
  shows "election_inv c'"
proof -
  let ?rf = "nodes c ! j" and ?n = "length (nodes c)" and ?h = "hist c"
  have ok: "node_ok ?n (net c) ?h j ?rf" "history_ok ?n ?h" using assms(1,2) by (auto dest: election_invD)
  have i: "IDcand a = i" "i \<noteq> j" "i < n" if "n = ?n" for n using assms(5) that by auto
  have f: "currentTerm rf' = rv_Term a" "votedFor rf' = int i" "currentTerm ?rf \<le> rv_Term a" "me rf' = j"
    "npeers rf' = ?n" "solicits rf' = solicits ?rf" "numVotesReceived rf' = numVotesReceived ?rf"
    "state rf' = LEADER \<Longrightarrow> state ?rf = LEADER \<and> currentTerm ?rf = rv_Term a"
    "currentTerm ?rf = rv_Term a \<Longrightarrow> votedFor ?rf = -1 \<or> votedFor ?rf = int i"
    using assms(3,4) ok(1) i
    by (auto simp: RequestVote_def go_bind_Inr_iff Let_def sendHeartbeat_def node_ok_def split: if_splits)
  have once: "k = i" if "(j, rv_Term a, k) \<in> set (votes ?h)" for k
    using ok(1) that f(3,9) by (fastforce simp: node_ok_def voter_ok_def)
  have le: "t \<le> rv_Term a" if "(j, t, k) \<in> set (votes ?h)" for t k
    using ok(1) that f(3) by (fastforce simp: node_ok_def voter_ok_def)
  show ?thesis
  proof (rule election_inv_step [OF assms(1,2,6)])
    show "histle j ?h (hist c')" by (auto simp: assms(7) histle_def)
    show "history_ok ?n (hist c')" using history_ok_vote [OF ok(2) assms(2)] once by (simp add: assms(7))
    show "packet_ok ?n (hist c') p" if "p \<in> set (net c')" "p \<notin> set (net c)" for p
      using assms(5) assms(9) [OF that] by (auto simp: assms(7))
    have "candidate_ok ?n (net c') (hist c') j rf'"
      using ok(1) f(3) netle_slots [OF assms(8), of "camp ?h j" j "counted ?h j"]
      by (auto simp: node_ok_def candidate_ok_def f(1,6,7) assms(7))
    then show "node_ok ?n (net c') (hist c') j rf'"
      using ok(1) once le f(8)
      by (auto simp: node_ok_def voter_ok_def leader_ok_def f(1,2,4,5) assms(7))
  qed (rule assms(8))
qed

text \<open>A candidate counts a vote, and may win.\<close>

lemma counted_reply:
  assumes "sendRequestVote True a r rf = Inr rf'" and "counts a r rf"
  shows "me rf' = me rf" "npeers rf' = npeers rf" "currentTerm rf' = currentTerm rf" "votedFor rf' = votedFor rf"
    "solicits rf' = solicits rf" "numVotesReceived rf' = numVotesReceived rf + 1"
    "state rf' = LEADER \<longleftrightarrow> numVotesReceived rf' > int (npeers rf) div 2"
  using assms
  by (auto simp: sendRequestVote_def counts_def Let_def go_bind_Inr_iff setNextIdx_def sendWin_def split: if_splits)

lemma owner_unique:
  assumes "history_ok n h" and "owner h t = Some k" and "majority n Q" and "\<forall>v \<in> Q. (v, t, i) \<in> set (votes h)"
  shows "k = i"
proof -
  from assms(1,2) obtain P where P: "majority n P" "\<forall>v \<in> P. (v, t, k) \<in> set (votes h)"
    unfolding history_ok_def by blast
  show ?thesis
  proof (rule maj.unique_relation [OF P(1) assms(3), of "\<lambda>v x. (v, t, x) \<in> set (votes h)"])
    show "z = z'" if "(v, t, z) \<in> set (votes h)" "(v, t, z') \<in> set (votes h)" for v z z'
      using assms(1) that by (auto simp: history_ok_def)
  qed (use P(2) assms(4) in auto)
qed

text \<open>The votes a candidate has counted when it wins are a majority.\<close>

lemma count_majority:
  assumes "node_ok n ps h i rf" and "sendRequestVote True a r rf = Inr rf'" and "counts a r rf" and "i < n"
    and "packet_ok n h (VoteRep i j a r)" and "VoteRep i j a r \<in> set ps"
  shows "distinct (j # counted h i)"
    "\<forall>v \<in> set (j # counted h i). v < n \<and> v \<noteq> i \<and> (v, currentTerm rf, i) \<in> set (votes h)"
    "state rf' = LEADER \<Longrightarrow> majority n (set (i # j # counted h i))"
proof -
  note f = counted_reply [OF assms(2,3)]
  have camp: "camp h i = currentTerm rf" "rv_Term a = currentTerm rf"
    using assms(1,3,5) by (auto simp: counts_def node_ok_def candidate_ok_def)
  have j: "j < n" "j \<noteq> i" "(j, currentTerm rf, i) \<in> set (votes h)" using assms(3,5) camp by (auto simp: counts_def)
  have cand: "candidate_ok n ps h i rf" using assms(1) by (simp add: node_ok_def)
  have "j \<in> set (slots ps (camp h i) i)" using assms(6) camp by (force simp: slots_def)
  then show vs: "distinct (j # counted h i)"
    "\<forall>v \<in> set (j # counted h i). v < n \<and> v \<noteq> i \<and> (v, currentTerm rf, i) \<in> set (votes h)"
    using cand j camp by (auto simp: candidate_ok_def)
  show "majority n (set (i # j # counted h i))" if "state rf' = LEADER"
  proof -
    have "card (set (i # j # counted h i)) = length (i # j # counted h i)" using vs by (intro distinct_card) auto
    moreover have "int n div 2 < 2 + int (length (counted h i))"
      using f(6,7) that cand assms(1) by (auto simp: candidate_ok_def node_ok_def)
    moreover have "set (i # j # counted h i) \<subseteq> {..<n}" using vs(2) assms(4) by auto
    ultimately show ?thesis by (simp add: majority_def)
  qed
qed

lemma count_step:
  assumes "election_inv c" and "i < length (nodes c)" and "sendRequestVote True a r (nodes c ! i) = Inr rf'"
    and "counts a r (nodes c ! i)" and "packet_ok (length (nodes c)) (hist c) (VoteRep i j a r)"
    and "nodes c' = (nodes c)[i := rf']" and "hist c' = recordCount i j rf' (hist c)"
    and "net c = ps @ VoteRep i j a r # qs" and "net c' = ps @ qs"
  shows "election_inv c'"
proof -
  let ?rf = "nodes c ! i" and ?n = "length (nodes c)" and ?h = "hist c"
  have ok: "node_ok ?n (net c) ?h i ?rf" "history_ok ?n ?h" using assms(1,2) by (auto dest: election_invD)
  note f = counted_reply [OF assms(3,4)]
  have camp: "camp ?h i = currentTerm ?rf" "rv_Term a = currentTerm ?rf"
    using assms(4,5) ok(1) by (auto simp: counts_def node_ok_def candidate_ok_def)
  have j: "(i, currentTerm ?rf, i) \<in> set (votes ?h)" using assms(4,5) camp by (auto simp: counts_def)
  have cand: "candidate_ok ?n (net c) ?h i ?rf" using ok(1) by (simp add: node_ok_def)
  let ?vs = "j # counted ?h i"
  note vs = count_majority(1,2) [OF ok(1) assms(3,4,2,5)] and win = count_majority(3) [OF ok(1) assms(3,4,2,5)]
  note vs = vs [unfolded assms(8), simplified] and win = win [unfolded assms(8), simplified]
  have mine: "k = i" if "state rf' = LEADER" "owner ?h (currentTerm ?rf) = Some k" for k
    using owner_unique [OF ok(2) that(2) win [OF that(1)]] vs j by auto
  show ?thesis
  proof (rule election_inv_step [OF assms(1,2,6)])
    show "histle i ?h (hist c')" using mine by (auto simp: assms(7) histle_def recordCount_def Let_def f(3))
    show "history_ok ?n (hist c')"
      using ok(2) win vs j assms(2) unfolding assms(7) history_ok_def recordCount_def Let_def f(3)
      by (auto intro!: exI [of _ "set (i # ?vs)"])
    show "netle k (net c') (net c)" if "k \<noteq> i" for k using that by (simp add: assms(8,9) netle_def)
    show "packet_ok ?n (hist c') p" if "p \<in> set (net c')" "p \<notin> set (net c)" for p
      using that by (auto simp: assms(8,9))
    have "candidate_ok ?n (net c') (hist c') i rf'"
      using cand vs camp f(5,6) by (auto simp: candidate_ok_def assms(7-9) recordCount_def Let_def f(3))
    then show "node_ok ?n (net c') (hist c') i rf'"
      using ok(1) f by (auto simp: node_ok_def voter_ok_def leader_ok_def assms(7) recordCount_def Let_def)
  qed
qed

subsection \<open>Every action keeps the invariant\<close>

lemma netle_drop: "netle j (ps @ qs) (ps @ p # qs)"
  by (simp add: netle_def)

lemma netle_answer:
  "netle k (ps @ qs @ [VoteRep i j a r]) (ps @ VoteReq i j a # qs)"
  "netle k (ps @ qs @ [AppRep i j b s]) (ps @ AppReq i j b # qs)"
  by (simp_all add: netle_def)

lemma netle_appends: "netle k (ps @ map (\<lambda>(j, a). AppReq i j a) ms) ps"
proof -
  have "slots (map (\<lambda>(j, a). AppReq i j a) ms) t k = []" for t by (induction ms) auto
  then show ?thesis by (simp add: netle_def)
qed

lemma election_inv_fewer:
  assumes "election_inv c" and "net c = ps @ p # qs"
  shows "election_inv (c\<lparr>net := ps @ qs\<rparr>)"
proof -
  have "node_ok n (ps @ qs) h i rf" if "node_ok n (ps @ p # qs) h i rf" for n h i rf
    using node_ok_quiet [OF that quiet_refl netle_drop] .
  with assms show ?thesis by (simp add: election_inv_def)
qed

lemma packet_okD: "election_inv c \<Longrightarrow> net c = ps @ p # qs \<Longrightarrow> packet_ok (length (nodes c)) (hist c) p"
  by (simp add: election_inv_def)

lemma vote_request_step:
  assumes "election_inv c" and "net c = ps @ VoteReq i j a # qs"
    and "doPacket (VoteReq i j a) (c\<lparr>net := ps @ qs\<rparr>) = Some c'"
  shows "election_inv c'"
proof -
  let ?c = "c\<lparr>net := ps @ qs\<rparr>"
  have p: "packet_ok (length (nodes c)) (hist c) (VoteReq i j a)"
    using assms(1,2) by (rule packet_okD)
  then have j: "j < length (nodes c)" "IDcand a = i" by auto
  from assms(3) have "finish ?c (RequestVote a (nodes c ! j)) (\<lambda>(rf, r).
      (setNode j rf ?c)\<lparr>net := ps @ qs @ [VoteRep i j a r], hist := recordVote j a r (hist c)\<rparr>) = Some c'"
    by (simp add: doPacket_def cong: prod.case_cong)
  then show ?thesis
  proof (cases rule: finish_cases)
    case (1 x)
    obtain rf r where x: "x = (rf, r)" by fastforce
    show ?thesis
    proof (cases "VoteGranted r")
      case True
      show ?thesis
        by (rule grant_step [OF assms(1) j(1) 1(1) [unfolded x] True p])
           (use 1(2) x True j(2) assms(2) netle_answer(1) in \<open>auto simp: recordVote_def\<close>)
    next
      case False
      show ?thesis
        by (rule election_inv_quiet [OF assms(1) j(1), of c' rf "tlog (hist c)"])
           (use 1(2) x False p assms(2) netle_answer(1)
            RequestVote_denied_quiet [OF 1(1) [unfolded x] False] in \<open>auto simp: recordVote_def\<close>)
    qed
  qed (use election_inv_fewer [OF assms(1,2)] in simp)
qed

lemma vote_reply_step:
  assumes "election_inv c" and "net c = ps @ VoteRep i j a r # qs"
    and "doPacket (VoteRep i j a r) (c\<lparr>net := ps @ qs\<rparr>) = Some c'"
  shows "election_inv c'"
proof -
  let ?c = "c\<lparr>net := ps @ qs\<rparr>"
  have p: "packet_ok (length (nodes c)) (hist c) (VoteRep i j a r)"
    using assms(1,2) by (rule packet_okD)
  then have i: "i < length (nodes c)" by simp
  from assms(3) have "finish ?c (sendRequestVote True a r (nodes c ! i)) (\<lambda>rf.
      if counts a r (nodes c ! i) then (setNode i rf ?c)\<lparr>hist := recordCount i j rf (hist c)\<rparr>
      else setNode i rf ?c) = Some c'"
    by (simp add: doPacket_def Let_def cong: if_cong)
  then show ?thesis
  proof (cases rule: finish_cases)
    case (1 rf)
    show ?thesis
    proof (cases "counts a r (nodes c ! i)")
      case True
      show ?thesis
        by (rule count_step [OF assms(1) i 1(1) True p]) (use 1(2) True assms(2) in auto)
    next
      case False
      show ?thesis
        by (rule election_inv_quiet [OF assms(1) i, of c' rf "tlog (hist c)"])
           (use 1(2) False assms(2) netle_drop sendRequestVote_ignored_quiet [OF 1(1) False] in auto)
    qed
  qed (use election_inv_fewer [OF assms(1,2)] in simp)
qed

lemma append_request_step:
  assumes "election_inv c" and "net c = ps @ AppReq i j a # qs"
    and "doPacket (AppReq i j a) (c\<lparr>net := ps @ qs\<rparr>) = Some c'"
  shows "election_inv c'"
proof -
  let ?c = "c\<lparr>net := ps @ qs\<rparr>"
  have p: "packet_ok (length (nodes c)) (hist c) (AppReq i j a)"
    using assms(1,2) by (rule packet_okD)
  from assms(3) have "finish ?c (AppendEntries a (nodes c ! j)) (\<lambda>(rf, r).
      (setNode j rf ?c)\<lparr>net := ps @ qs @ [AppRep i j a r]\<rparr>) = Some c'"
    by (simp add: doPacket_def cong: prod.case_cong)
  then show ?thesis
  proof (cases rule: finish_cases)
    case (1 x)
    obtain rf r where x: "x = (rf, r)" by fastforce
    show ?thesis
      by (rule election_inv_quiet [OF assms(1), of j c' rf "tlog (hist c)"])
         (use 1(2) x p assms(2) netle_answer(2) AppendEntries_quiet [OF 1(1) [unfolded x]] in auto)
  qed (use election_inv_fewer [OF assms(1,2)] in simp)
qed

lemma append_reply_step:
  assumes "election_inv c" and "net c = ps @ AppRep i j a r # qs"
    and "doPacket (AppRep i j a r) (c\<lparr>net := ps @ qs\<rparr>) = Some c'"
  shows "election_inv c'"
proof -
  let ?c = "c\<lparr>net := ps @ qs\<rparr>"
  have p: "packet_ok (length (nodes c)) (hist c) (AppRep i j a r)"
    using assms(1,2) by (rule packet_okD)
  from assms(3) have "finish ?c (sendAppendEntries True j a r (nodes c ! i)) (\<lambda>rf. setNode i rf ?c) = Some c'"
    by (simp add: doPacket_def)
  then show ?thesis
  proof (cases rule: finish_cases)
    case (1 rf)
    show ?thesis
      by (rule election_inv_quiet [OF assms(1), of i c' rf "tlog (hist c)"])
         (use 1(2) p assms(2) netle_drop sendAppendEntries_quiet [OF 1(1)] in auto)
  qed (use election_inv_fewer [OF assms(1,2)] in simp)
qed

lemma packet_step:
  assumes "election_inv c" and "net c = ps @ p # qs" and "doPacket p (c\<lparr>net := ps @ qs\<rparr>) = Some c'"
  shows "election_inv c'"
  using assms
  by (cases p) (auto intro: vote_request_step vote_reply_step append_request_step append_reply_step)

lemma local_steps:
  assumes "election_inv c" and "i < length (nodes c)"
  shows "doTick i c = Some c' \<Longrightarrow> election_inv c'" "doSelect i ch c = Some c' \<Longrightarrow> election_inv c'"
    "doBroadcast i c = Some c' \<Longrightarrow> election_inv c'" "doApply i c = Some c' \<Longrightarrow> election_inv c'"
    "doSubmit i cmd c = Some c' \<Longrightarrow> election_inv c'"
proof -
  let ?rf = "nodes c ! i"
  have ok: "node_ok (length (nodes c)) (net c) (hist c) i ?rf" using assms by (rule election_invD)
  have same: "election_inv (setNode i rf c)" if "quiet ?rf rf" for rf
    using election_inv_quiet [OF assms, of "setNode i rf c" rf "tlog (hist c)"] that by simp
  show "doTick i c = Some c' \<Longrightarrow> election_inv c'"
    using campaign_step [OF assms] same tickTop_quiet [of ?rf]
    by (cases "state ?rf = CANDIDATE") (auto simp: doTick_def Let_def split: option.splits)
  show "doSelect i ch c = Some c' \<Longrightarrow> election_inv c'"
    using same tickSelect_quiet [of ch ?rf] by (auto simp: doSelect_def)
  show "election_inv c'" if "doBroadcast i c = Some c'"
  proof -
    let ?rf' = "?rf\<lparr>broadcasts := broadcasts ?rf - 1\<rparr>"
    from that have "finish c (broadcastHeartbeat ?rf') (\<lambda>ms.
        (setNode i ?rf' c)\<lparr>net := net c @ map (\<lambda>(j, a). AppReq i j a) ms\<rparr>) = Some c'"
      by (auto simp: doBroadcast_def Let_def split: if_splits)
    then show ?thesis
    proof (cases rule: finish_cases)
      case (1 ms)
      have "fst m < length (nodes c)" if "m \<in> set ms" for m
        using broadcast_targets [OF 1(1) that] ok by (simp add: node_ok_def)
      then show ?thesis using 1 assms(2)
        by (intro election_inv_quiet [OF assms, of c' ?rf' "tlog (hist c)"])
           (auto simp: netle_appends quiet_def)
    qed (simp add: assms(1))
  qed
  show "election_inv c'" if "doApply i c = Some c'"
  proof -
    from that have "finish c (applyCommitted (?rf\<lparr>appliers := appliers ?rf - 1\<rparr>)) (\<lambda>rf'. setNode i rf' c) = Some c'"
      by (auto simp: doApply_def Let_def split: if_splits)
    then show ?thesis
      by (cases rule: finish_cases) (use same assms(1) in \<open>auto dest!: applyCommitted_quiet simp: quiet_def\<close>)
  qed
  show "election_inv c'" if "doSubmit i cmd c = Some c'"
    using that unfolding doSubmit_def
  proof (cases rule: finish_cases)
    case (1 x)
    obtain rf u where x: "x = (rf, u)" by (cases x)
    show ?thesis
      by (rule election_inv_quiet [OF assms, of c' rf "tlog (hist c')"])
         (use 1(2) x Start_quiet [OF 1(1) [unfolded x]] in \<open>auto simp: Let_def split: prod.splits if_splits\<close>)
  qed (simp add: assms(1))
qed

lemma timely_step:
  assumes "timely_act a c = Some c'" and "election_inv c"
  shows "election_inv c'"
proof -
  have t: "timely a c" and s: "cluster_step a c = Some c'"
    using assms(1) by (auto simp: timely_act_def cluster_act_def split: if_splits)
  have rem: "removePacket k c = c\<lparr>net := take k (net c) @ drop (Suc k) (net c)\<rparr>" for k
    by (simp add: removePacket_def)
  show ?thesis
  proof (cases a)
    case (Deliver k)
    then show ?thesis using s rem packet_step [OF assms(2) id_take_nth_drop]
      by (auto simp: cluster_step_def split: if_splits)
  next
    case (Drop k)
    then show ?thesis using s rem election_inv_fewer [OF assms(2) id_take_nth_drop]
      by (auto simp: cluster_step_def split: if_splits)
  next
    case (Restart i)
    then show ?thesis using t by (simp add: timely_def)
  next
    case (Solicit i)
    then show ?thesis using s t solicit_step [OF assms(2)] by (auto simp: cluster_step_def split: if_splits)
  qed (use s local_steps [OF assms(2)] in \<open>auto simp: cluster_step_def split: if_splits\<close>)
qed

lemma initial_cluster: "election_inv (cluster_init n)"
proof -
  have f: "me (Make n i MakePersister) = i" "npeers (Make n i MakePersister) = n"
    "currentTerm (Make n i MakePersister) = 0" "state (Make n i MakePersister) = FOLLOWER"
    "numVotesReceived (Make n i MakePersister) = 0" "solicits (Make n i MakePersister) = []" for i
    by (simp_all add: Make_def Let_def persist_def readPersist_def ReadRaftState_def MakePersister_def)
  show ?thesis
    by (simp add: election_inv_def cluster_init_def history_ok_def node_ok_def voter_ok_def candidate_ok_def
        leader_ok_def f)
qed

interpretation elect: machine_invariant "\<lambda>c. c = cluster_init n" timely_act election_inv for n
  by unfold_locales (auto intro: initial_cluster timely_step)

subsection \<open>The history only grows\<close>

definition grows :: "'c cluster \<Rightarrow> 'c cluster \<Rightarrow> bool" where
  "grows c c' \<longleftrightarrow> length (nodes c') = length (nodes c) \<and> set (votes (hist c)) \<subseteq> set (votes (hist c')) \<and>
     (\<forall>t. owner (hist c) t \<noteq> None \<longrightarrow> owner (hist c') t \<noteq> None)"

lemma packet_grows: "doPacket p c = Some c' \<Longrightarrow> grows c c'"
  by (cases p)
    (auto simp: doPacket_def Let_def grows_def recordVote_def recordCount_def elim!: finish_cases split: if_splits)

lemma step_grows:
  assumes "cluster_step a c = Some c'"
  shows "grows c c'"
proof (cases a)
  case (Deliver k)
  with assms packet_grows have "grows (removePacket k c) c'" by (auto simp: cluster_step_def split: if_splits)
  then show ?thesis by (simp add: grows_def removePacket_def)
qed (use assms in \<open>auto simp: cluster_step_def doTick_def doSelect_def doSolicit_def doBroadcast_def doApply_def doSubmit_def
    doRestart_def removePacket_def Let_def grows_def split: if_splits option.splits list.splits prod.splits
    elim!: finish_cases\<close>)

lemma owner_stays:
  assumes "timely_act a c = Some c'" and "election_inv c" and "owner (hist c) t = Some k"
  shows "owner (hist c') t = Some k"
proof -
  have g: "grows c c'" using assms(1) step_grows by (auto simp: timely_act_def cluster_act_def split: if_splits)
  then obtain k' where k': "owner (hist c') t = Some k'" using assms(3) by (auto simp: grows_def)
  from election_invD(1) [OF assms(2)] assms(3) obtain Q where
    Q: "majority (length (nodes c)) Q" "\<forall>v \<in> Q. (v, t, k) \<in> set (votes (hist c))" unfolding history_ok_def by blast
  have h: "history_ok (length (nodes c)) (hist c')"
    using election_invD(1) [OF timely_step [OF assms(1,2)]] g by (simp add: grows_def)
  have "k' = k" using owner_unique [OF h k' Q(1)] Q(2) g by (auto simp: grows_def)
  with k' show ?thesis by simp
qed

lemma owner_stays_steps:
  assumes "(act_step timely_act)\<^sup>*\<^sup>* c c'" and "election_inv c" and "owner (hist c) t = Some k"
  shows "owner (hist c') t = Some k"
  using assms(1)
proof (induction rule: rtranclp_induct)
  case (step c1 c2)
  have "election_inv c1" using elect.steps_inv [OF step.hyps(1) assms(2)] .
  with step show ?case by (auto elim!: act_stepE intro: owner_stays)
qed (fact assms(3))

text \<open>Terms never decrease while no peer restarts.\<close>

lemma RequestVote_term: "RequestVote a rf = Inr (rf', r) \<Longrightarrow> currentTerm rf \<le> currentTerm rf'"
  by (auto simp: RequestVote_def go_bind_Inr_iff Let_def sendHeartbeat_def split: if_splits)

lemma sendRequestVote_term: "sendRequestVote True a r rf = Inr rf' \<Longrightarrow> currentTerm rf \<le> currentTerm rf'"
  by (cases "counts a r rf") (auto dest: counted_reply(3) sendRequestVote_ignored_quiet simp: quiet_def)

lemma tickTop_term: "tickTop rf = Some rf' \<Longrightarrow> currentTerm rf \<le> currentTerm rf'"
  by (auto simp: tickTop_def Let_def split: if_splits role.splits)

lemma quiet_term: "quiet rf rf' \<Longrightarrow> currentTerm rf \<le> currentTerm rf'"
  by (simp add: quiet_def)

lemmas handler_terms = RequestVote_term sendRequestVote_term tickTop_term
  AppendEntries_quiet [THEN quiet_term] sendAppendEntries_quiet [THEN quiet_term] Start_quiet [THEN quiet_term]
  applyCommitted_quiet [THEN quiet_term] tickSelect_quiet [THEN quiet_term]

definition terms_le :: "'c cluster \<Rightarrow> 'c cluster \<Rightarrow> bool" where
  "terms_le c c' \<longleftrightarrow> length (nodes c') = length (nodes c) \<and>
     (\<forall>i < length (nodes c). currentTerm (nodes c ! i) \<le> currentTerm (nodes c' ! i))"

lemma term_update: "currentTerm (xs ! i) \<le> currentTerm rf \<Longrightarrow> k < length xs \<Longrightarrow> currentTerm (xs ! k) \<le> currentTerm (xs[i := rf] ! k)"
  by (cases "k = i") auto

lemma packet_terms: "doPacket p c = Some c' \<Longrightarrow> terms_le c c'"
  by (cases p)
    (auto simp: doPacket_def Let_def terms_le_def elim!: finish_cases dest: handler_terms intro!: term_update split: if_splits)

lemma timely_terms:
  assumes "timely_act a c = Some c'"
  shows "terms_le c c'"
proof (cases a)
  case (Deliver k)
  with assms packet_terms have "terms_le (removePacket k c) c'"
    by (auto simp: timely_act_def cluster_act_def cluster_step_def split: if_splits)
  then show ?thesis by (simp add: terms_le_def removePacket_def)
next
  case (Apply i)
  with assms show ?thesis
    by (auto simp: timely_act_def cluster_act_def cluster_step_def doApply_def Let_def terms_le_def
        elim!: finish_cases dest!: handler_terms intro!: term_update split: if_splits)
qed (use assms in \<open>auto simp: timely_act_def timely_def cluster_act_def cluster_step_def doTick_def doSelect_def doSolicit_def
    doBroadcast_def doSubmit_def removePacket_def Let_def terms_le_def
    split: if_splits option.splits list.splits prod.splits elim!: finish_cases dest: handler_terms intro!: term_update\<close>)

definition terms_nonneg :: "'c cluster \<Rightarrow> bool" where
  "terms_nonneg c \<longleftrightarrow> (\<forall>i < length (nodes c). 0 \<le> currentTerm (nodes c ! i))"

interpretation nonneg: machine_invariant "\<lambda>c. c = cluster_init n" timely_act terms_nonneg for n
proof unfold_locales
  show "c = cluster_init n \<Longrightarrow> terms_nonneg c" for c
    by (auto simp: terms_nonneg_def cluster_init_def Make_def Let_def persist_def readPersist_def ReadRaftState_def MakePersister_def)
  show "timely_act a s = Some t \<Longrightarrow> terms_nonneg s \<Longrightarrow> terms_nonneg t" for a s t
    using timely_terms [of a s t] by (force simp: terms_nonneg_def terms_le_def)
qed

section \<open>Election safety\<close>

text \<open>The owner of a term in the history is its leader, now and later.\<close>

lemma elected_once:
  assumes "reach (\<lambda>c. c = cluster_init n) (act_step timely_act) c" and "(act_step timely_act)\<^sup>*\<^sup>* c c'"
    and "i < length (nodes c)" and "j < length (nodes c')"
    and "state (nodes c ! i) = LEADER" and "state (nodes c' ! j) = LEADER"
    and "currentTerm (nodes c ! i) = currentTerm (nodes c' ! j)"
  shows "i = j"
proof -
  have inv: "election_inv c" using assms(1) by (rule elect.reach_inv)
  have inv': "election_inv c'" using elect.steps_inv [OF assms(2) inv] .
  have "owner (hist c) (currentTerm (nodes c ! i)) = Some i"
    using election_invD(3) [OF inv assms(3)] assms(5) by (simp add: node_ok_def leader_ok_def)
  then have "owner (hist c') (currentTerm (nodes c ! i)) = Some i" by (rule owner_stays_steps [OF assms(2) inv])
  moreover have "owner (hist c') (currentTerm (nodes c' ! j)) = Some j"
    using election_invD(3) [OF inv' assms(4)] assms(6) by (simp add: node_ok_def leader_ok_def)
  ultimately show ?thesis using assms(7) by simp
qed

text \<open>
  C6. Election safety.  Let a cluster of any size run with calls lost, delayed and reordered, with the tickers firing
  at any time and clients submitting commands.  A peer that is leader of a term at some time and a peer that is leader of
  the same term then or at any later time are the same peer, provided that no peer restarts
  and that the goroutine that asks for votes runs before its peer moves to another term.
\<close>

theorem raft_election_safety:
  assumes "reach (\<lambda>c. c = cluster_init n) (act_step timely_act) c" and "(act_step timely_act)\<^sup>*\<^sup>* c c'"
    and "i < length (nodes c)" and "j < length (nodes c')"
    and "state (nodes c ! i) = LEADER" and "state (nodes c' ! j) = LEADER"
    and "currentTerm (nodes c ! i) = currentTerm (nodes c' ! j)"
  shows "i = j"
  by (rule elected_once [OF assms])

text \<open>A campaign of peer 0 in a cluster of three that peer 2's vote decides.\<close>

definition win_run :: "nat cact list" where
  "win_run = [Tick 0, Select 0 ChooseTimeout, Tick 0, Solicit 0, Deliver 1, Deliver 1]"

lemma win_run_states:
  "map_option (\<lambda>c. (map state (nodes c), map currentTerm (nodes c))) (run timely_act win_run (cluster_init 3)) =
     Some ([LEADER, FOLLOWER, FOLLOWER], [1, 0, 1])"
  unfolding win_run_def by code_simp

theorem raft_election_safety_witness:
  "\<exists>c. run timely_act win_run (cluster_init 3) = Some c \<and> state (nodes c ! 0) = LEADER \<and>
     (\<forall>j < 3. state (nodes c ! j) = LEADER \<longrightarrow> currentTerm (nodes c ! j) = 1 \<longrightarrow> 0 = j)"
proof -
  from win_run_states obtain c where c: "run timely_act win_run (cluster_init 3) = Some c"
      "map state (nodes c) = [LEADER, FOLLOWER, FOLLOWER]" "map currentTerm (nodes c) = [1, 0, 1]"
    by auto
  then have l: "length (nodes c) = 3" by (metis length_map list.size(3,4) numeral_3_eq_3 One_nat_def add.right_neutral add_Suc_right)
  with c(2,3) have s: "state (nodes c ! 0) = LEADER" "currentTerm (nodes c ! 0) = 1"
    using nth_map [of 0 "nodes c" state] nth_map [of 0 "nodes c" currentTerm] by auto
  have "0 = j" if "j < 3" "state (nodes c ! j) = LEADER" "currentTerm (nodes c ! j) = 1" for j
    using raft_election_safety [OF run_from [OF c(1)] rtranclp.rtrancl_refl, of 0 j] that l s by simp
  with c(1) s(1) show ?thesis by blast
qed

section \<open>What the two provisos exclude\<close>

text \<open>Peer 2 votes for peer 0 in term 1, restarts, and votes for peer 1 in the same term.\<close>

definition split_vote_run :: "nat cact list" where
  "split_vote_run = win_run @ [Drop 0, Restart 2, Tick 1, Select 1 ChooseTimeout, Tick 1, Solicit 1,
     Deliver 1, Deliver 1, Drop 0]"

definition diverge_run :: "nat cact list" where
  "diverge_run = split_vote_run @ [Select 0 ChooseWin, Select 1 ChooseWin, Submit 0 7, Submit 1 9,
     Tick 0, Broadcast 0, Deliver 1, Deliver 1, Apply 0, Drop 0, Tick 1, Broadcast 1, Deliver 1, Deliver 1, Apply 1]"

text \<open>
  C38. A vote does not survive a restart.  \<open>RequestVote\<close> grants a vote without saving it and \<open>Make\<close> clears
  \<open>votedFor\<close>, so a cluster of three in which one peer restarts once reaches a state with two leaders of term 1,
  and goes on to a state in which the two leaders have applied different commands at index 1.
\<close>

theorem restart_breaks_safety:
  "(\<exists>c. run cluster_act split_vote_run (cluster_init 3) = Some c \<and>
      map state (nodes c) = [LEADER, LEADER, FOLLOWER] \<and> map currentTerm (nodes c) = [1, 1, 1]) \<and>
   (\<exists>c. run cluster_act diverge_run (cluster_init 3) = Some c \<and> failed c = None \<and>
      map (map (\<lambda>m. (CommandIndex m, am_Command m)) \<circ> cApplyMsg) (nodes c) = [[(1, Some 7)], [(1, Some 9)], []])"
proof -
  have "map_option (\<lambda>c. (map state (nodes c), map currentTerm (nodes c)))
      (run cluster_act split_vote_run (cluster_init 3)) = Some ([LEADER, LEADER, FOLLOWER], [1, 1, 1])"
    unfolding split_vote_run_def win_run_def by code_simp
  moreover have "map_option (\<lambda>c. (failed c, map (map (\<lambda>m. (CommandIndex m, am_Command m)) \<circ> cApplyMsg) (nodes c)))
      (run cluster_act diverge_run (cluster_init 3)) = Some (None, [[(1, Some 7)], [(1, Some 9)], []])"
    unfolding diverge_run_def split_vote_run_def win_run_def by code_simp
  ultimately show ?thesis by auto
qed

definition stale_run :: "nat cact list" where
  "stale_run = win_run @ [Drop 0, Select 0 ChooseWin, Submit 0 7, Tick 0, Broadcast 0, Drop 0, Submit 0 8,
     Select 0 ChoosePersist, Tick 0, Broadcast 0, Drop 1, Deliver 1, Deliver 1,
     Select 0 ChoosePersist, Tick 0, Broadcast 0, Drop 1, Deliver 1, Drop 1]"

text \<open>
  Reordered calls can cut committed entries.  \<open>AppendEntries\<close> always truncates the log after
  \<open>PrevLogIdx\<close>, so an older call of the same leader that arrives after a newer one removes an entry the
  follower has already been told is committed: its log is then shorter than its \<open>commitIdx\<close>, and
  the applier that was started panics with an index out of range.  The run has no restart and is timely.
\<close>

theorem stale_append_truncates_committed:
  "(\<exists>c. run timely_act stale_run (cluster_init 3) = Some c \<and> failed c = None \<and>
      commitIdx (nodes c ! 2) = 2 \<and> length (rlog (nodes c ! 2)) = 3) \<and>
   (\<exists>c. run timely_act (stale_run @ [Deliver 0]) (cluster_init 3) = Some c \<and> failed c = None \<and>
      commitIdx (nodes c ! 2) = 2 \<and> length (rlog (nodes c ! 2)) = 2) \<and>
   (\<exists>c. run timely_act (stale_run @ [Deliver 0, Apply 2]) (cluster_init 3) = Some c \<and>
      failed c = Some IndexOutOfRange)"
proof -
  have "map_option (\<lambda>c. (failed c, commitIdx (nodes c ! 2), length (rlog (nodes c ! 2))))
      (run timely_act stale_run (cluster_init 3)) = Some (None, 2, 3)"
    unfolding stale_run_def win_run_def by code_simp
  moreover have "map_option (\<lambda>c. (failed c, commitIdx (nodes c ! 2), length (rlog (nodes c ! 2))))
      (run timely_act (stale_run @ [Deliver 0]) (cluster_init 3)) = Some (None, 2, 2)"
    unfolding stale_run_def win_run_def by code_simp
  moreover have "map_option failed (run timely_act (stale_run @ [Deliver 0, Apply 2]) (cluster_init 3)) =
      Some (Some IndexOutOfRange)"
    unfolding stale_run_def win_run_def by code_simp
  ultimately show ?thesis by auto
qed

text \<open>Peer 0 starts a campaign in term 1; before its goroutine asks for votes it moves to term 2, in which it votes for
  peer 1; the goroutine then asks peer 2 for a vote in term 2.\<close>

definition late_run :: "nat cact list" where
  "late_run = [Tick 0, Select 0 ChooseTimeout, Tick 0, Tick 1, Select 1 ChooseTimeout, Tick 1, Solicit 1, Drop 0, Drop 0,
     Select 1 ChooseTimeout, Tick 1, Select 1 ChooseTimeout, Tick 1, Solicit 1, Deliver 0, Deliver 1,
     Select 0 ChooseHeartbeat, Solicit 0, Deliver 2, Tick 0, Select 0 ChooseTimeout, Deliver 2]"

text \<open>
  Votes asked for late are counted for the wrong term.  The goroutine a candidate starts reads \<open>currentTerm\<close>
  when it gets the lock, so after a change of term it asks for votes in a term in which the peer has voted for
  another; \<open>numVotesReceived\<close> still holds the peer's own vote of the old campaign.  A cluster of three without
  any restart reaches a state with two leaders of term 2.
\<close>

theorem late_solicitation_breaks_safety:
  "(\<forall>i. Restart i \<notin> set late_run) \<and>
   (\<exists>c. run cluster_act late_run (cluster_init 3) = Some c \<and> failed c = None \<and>
      map state (nodes c) = [LEADER, LEADER, FOLLOWER] \<and> map currentTerm (nodes c) = [2, 2, 2])"
proof -
  have "map_option (\<lambda>c. (failed c, map state (nodes c), map currentTerm (nodes c)))
      (run cluster_act late_run (cluster_init 3)) = Some (None, [LEADER, LEADER, FOLLOWER], [2, 2, 2])"
    unfolding late_run_def by code_simp
  moreover have "\<forall>i. Restart i \<notin> set late_run" by (simp add: late_run_def)
  ultimately show ?thesis by auto
qed

end
