(* ===== verification/RaftLog.thy ===== *)
theory RaftLog
  imports RaftCluster
begin

text \<open>
  Log matching for the cluster of \<^verbatim>\<open>lab3/raft/raft.go\<close>: every entry of every log was appended by the leader of its
  term, in the position it has in that leader's log, so two logs with an entry of the same
  term at the same index are the same up to there.  The history variables \<open>owner\<close> and
  \<open>tlog\<close> of the cluster name the leader of a term and its log while it led.
\<close>

section \<open>Logs and messages that agree with the leaders' logs\<close>

definition base_ok :: "'c LogElement list \<Rightarrow> bool" where
  "base_ok l \<longleftrightarrow> l \<noteq> [] \<and> l ! 0 = \<lparr>le_Term = 0, le_Command = None, le_Index = 0\<rparr> \<and> indexed_from 0 l"

definition agrees :: "'c history \<Rightarrow> 'c LogElement list \<Rightarrow> bool" where
  "agrees h l \<longleftrightarrow> base_ok l \<and> (\<forall>k < length l. 0 < k \<longrightarrow> owner h (le_Term (l ! k)) \<noteq> None \<and>
     take (Suc k) l = take (Suc k) (tlog h (le_Term (l ! k))))"

text \<open>A call carries a piece of the log of its sender's term, with the index and the term of the entry before it.\<close>

definition carries :: "'c history \<Rightarrow> nat \<Rightarrow> 'c AppendEntriesArgs \<Rightarrow> bool" where
  "carries h i a \<longleftrightarrow> owner h (ae_Term a) = Some i \<and>
     (\<exists>p. PrevLogIdx a = int p \<and> p < length (tlog h (ae_Term a)) \<and> PrevLogTerm a = le_Term (tlog h (ae_Term a) ! p) \<and>
        Entries a = take (length (Entries a)) (drop (Suc p) (tlog h (ae_Term a))))"

fun appends_ok :: "'c history \<Rightarrow> 'c packet \<Rightarrow> bool" where
  "appends_ok h (AppReq i j a) \<longleftrightarrow> i \<noteq> j \<and> carries h i a"
| "appends_ok h _ \<longleftrightarrow> True"

text \<open>The owner of a term has been in it, and has the log of the term as long as it stays in it.\<close>

definition owner_ok :: "'c history \<Rightarrow> nat \<Rightarrow> 'c Raft \<Rightarrow> bool" where
  "owner_ok h i rf \<longleftrightarrow> (\<forall>t. owner h t = Some i \<longrightarrow> t \<le> currentTerm rf \<and> (t = currentTerm rf \<longrightarrow> rlog rf = tlog h t))"

definition log_inv :: "'c cluster \<Rightarrow> bool" where
  "log_inv c \<longleftrightarrow>
     (\<forall>i < length (nodes c). agrees (hist c) (rlog (nodes c ! i)) \<and> owner_ok (hist c) i (nodes c ! i)) \<and>
     (\<forall>t. owner (hist c) t \<noteq> None \<longrightarrow> agrees (hist c) (tlog (hist c) t)) \<and>
     (\<forall>p \<in> set (net c). appends_ok (hist c) p)"

lemma log_invD:
  assumes "log_inv c"
  shows "i < length (nodes c) \<Longrightarrow> agrees (hist c) (rlog (nodes c ! i))"
    "i < length (nodes c) \<Longrightarrow> owner_ok (hist c) i (nodes c ! i)"
    "owner (hist c) t = Some k \<Longrightarrow> agrees (hist c) (tlog (hist c) t)"
    "p \<in> set (net c) \<Longrightarrow> appends_ok (hist c) p"
  using assms by (auto simp: log_inv_def)

lemma base_ok_prefix: "base_ok l \<Longrightarrow> 0 < n \<Longrightarrow> base_ok (take n l)"
  by (auto simp: base_ok_def indexed_from_take)

lemma base_ok_baseIdx: "base_ok (rlog rf) \<Longrightarrow> baseIdx rf = Inr 0"
  by (auto simp: base_ok_def baseIdx_def index_def)

lemma base_ok_last: "base_ok (rlog rf) \<Longrightarrow> lastLog rf = Inr (last (rlog rf)) \<and> le_Index (last (rlog rf)) = int (length (rlog rf)) - 1"
  by (cases "rlog rf") (auto simp: base_ok_def lastLog_def index_def indexed_from_def last_conv_nth nat_diff_distrib)

text \<open>A prefix of a log that agrees agrees.\<close>

lemma agrees_take:
  assumes "agrees h l" and "0 < n"
  shows "agrees h (take n l)"
proof -
  have "take (Suc k) (take n l) = take (Suc k) (tlog h (le_Term (take n l ! k))) \<and> owner h (le_Term (take n l ! k)) \<noteq> None"
    if "k < length (take n l)" "0 < k" for k
    using assms(1) that by (simp add: agrees_def min_absorb1)
  moreover have "base_ok (take n l)" using assms by (simp add: agrees_def base_ok_prefix)
  ultimately show ?thesis by (auto simp: agrees_def)
qed

text \<open>Two logs that agree with the leaders' logs match.\<close>

lemma agrees_match:
  assumes "agrees h l" and "agrees h m" and "k < length l" and "k < length m" and "le_Term (l ! k) = le_Term (m ! k)"
  shows "take (Suc k) l = take (Suc k) m"
proof (cases "k = 0")
  case True
  with assms show ?thesis by (cases l; cases m) (auto simp: agrees_def base_ok_def)
next
  case False
  with assms show ?thesis by (simp add: agrees_def)
qed

subsection \<open>The leaders' logs only grow\<close>

definition hext :: "'c history \<Rightarrow> 'c history \<Rightarrow> bool" where
  "hext h h' \<longleftrightarrow> (\<forall>t k. owner h t = Some k \<longrightarrow> owner h' t = Some k \<and> (\<exists>xs. tlog h' t = tlog h t @ xs))"

lemma hext_refl [simp]: "owner h' = owner h \<Longrightarrow> tlog h' = tlog h \<Longrightarrow> hext h h'"
  by (simp add: hext_def)

lemma agrees_hext:
  assumes "agrees h l" and "hext h h'"
  shows "agrees h' l"
proof -
  have "owner h' (le_Term (l ! k)) \<noteq> None \<and> take (Suc k) l = take (Suc k) (tlog h' (le_Term (l ! k)))"
    if k: "k < length l" "0 < k" for k
  proof -
    from assms(1) k obtain j where j: "owner h (le_Term (l ! k)) = Some j"
        "take (Suc k) l = take (Suc k) (tlog h (le_Term (l ! k)))" by (auto simp: agrees_def)
    have "length (take (Suc k) l) = Suc k" using k by simp
    with j(2) have "Suc k \<le> length (tlog h (le_Term (l ! k)))" by simp
    with j assms(2) show ?thesis unfolding hext_def by fastforce
  qed
  with assms(1) show ?thesis by (simp add: agrees_def)
qed

lemma carries_hext:
  assumes "carries h i a" and "hext h h'"
  shows "carries h' i a"
proof -
  let ?T = "ae_Term a"
  obtain p where p: "PrevLogIdx a = int p" "p < length (tlog h ?T)" "PrevLogTerm a = le_Term (tlog h ?T ! p)"
      "Entries a = take (length (Entries a)) (drop (Suc p) (tlog h ?T))" using assms(1) by (auto simp: carries_def)
  obtain xs where xs: "owner h' ?T = Some i" "tlog h' ?T = tlog h ?T @ xs"
    using assms by (auto simp: carries_def hext_def)
  have "length (Entries a) \<le> length (drop (Suc p) (tlog h ?T))" by (subst p(4)) simp
  then have "take (length (Entries a)) (drop (Suc p) (tlog h' ?T)) = Entries a" using p(2,4) xs(2) by simp
  with p xs show ?thesis by (auto simp: carries_def nth_append)
qed

lemma appends_ok_hext: "appends_ok h p \<Longrightarrow> hext h h' \<Longrightarrow> appends_ok h' p"
  by (cases p) (auto intro: carries_hext)

subsection \<open>One peer moves\<close>

lemma log_inv_step:
  assumes "log_inv c" and "i < length (nodes c)" and "nodes c' = (nodes c)[i := rf']" and "hext (hist c) (hist c')"
    and "\<And>t j. owner (hist c') t = Some j \<Longrightarrow> j \<noteq> i \<Longrightarrow> owner (hist c) t = Some j \<and> tlog (hist c') t = tlog (hist c) t"
    and "\<And>t. owner (hist c') t = Some i \<Longrightarrow> agrees (hist c') (tlog (hist c') t)"
    and "agrees (hist c') (rlog rf')" and "owner_ok (hist c') i rf'"
    and "\<And>p. p \<in> set (net c') \<Longrightarrow> p \<notin> set (net c) \<Longrightarrow> appends_ok (hist c') p"
  shows "log_inv c'"
proof -
  have node: "agrees (hist c') (rlog (nodes c' ! j)) \<and> owner_ok (hist c') j (nodes c' ! j)" if "j < length (nodes c)" for j
  proof (cases "j = i")
    case True
    with assms show ?thesis by simp
  next
    case False
    have "agrees (hist c') (rlog (nodes c ! j))" using log_invD(1) [OF assms(1) that] assms(4) by (rule agrees_hext)
    moreover have "owner_ok (hist c') j (nodes c ! j)"
      using log_invD(2) [OF assms(1) that] assms(5) [OF _ False] unfolding owner_ok_def by metis
    ultimately show ?thesis using False assms(3) by simp
  qed
  have "agrees (hist c') (tlog (hist c') t)" if "owner (hist c') t = Some j" for t j
  proof (cases "j = i")
    case True
    with that assms(6) show ?thesis by simp
  next
    case False
    from assms(5) [OF that False] log_invD(3) [OF assms(1)] assms(4) show ?thesis by (metis agrees_hext)
  qed
  moreover have "appends_ok (hist c') p" if "p \<in> set (net c')" for p
    using that assms(9) appends_ok_hext [OF log_invD(4) [OF assms(1)] assms(4)] by blast
  ultimately show ?thesis using node assms(3) by (auto simp: log_inv_def)
qed

text \<open>Steps that change neither a log nor the leaders: the peer may move to a higher term.\<close>

lemma log_inv_same:
  assumes "log_inv c" and "i < length (nodes c)" and "nodes c' = (nodes c)[i := rf']"
    and "owner (hist c') = owner (hist c)" and "tlog (hist c') = tlog (hist c)"
    and "rlog rf' = rlog (nodes c ! i)" and "currentTerm (nodes c ! i) \<le> currentTerm rf'"
    and "\<And>p. p \<in> set (net c') \<Longrightarrow> p \<notin> set (net c) \<Longrightarrow> appends_ok (hist c') p"
  shows "log_inv c'"
proof (rule log_inv_step [OF assms(1-3)])
  show ext: "hext (hist c) (hist c')" using assms(4,5) by simp
  show "agrees (hist c') (rlog rf')" using agrees_hext [OF log_invD(1) [OF assms(1,2)] ext] assms(6) by simp
  show "agrees (hist c') (tlog (hist c') t)" if "owner (hist c') t = Some i" for t
    using that agrees_hext [OF log_invD(3) [OF assms(1)] ext] assms(4,5) by simp
  show "owner_ok (hist c') i rf'"
    using log_invD(2) [OF assms(1,2)] assms(4-7) by (fastforce simp: owner_ok_def)
qed (use assms(4,5,8) in auto)

section \<open>The handlers\<close>

lemma RequestVote_log: "RequestVote a rf = Inr (rf', r) \<Longrightarrow> rlog rf' = rlog rf"
  by (auto simp: RequestVote_def go_bind_Inr_iff Let_def sendHeartbeat_def split: if_splits)

lemma sendRequestVote_log: "sendRequestVote ok a r rf = Inr rf' \<Longrightarrow> rlog rf' = rlog rf"
  by (auto simp: sendRequestVote_def Let_def go_bind_Inr_iff setNextIdx_def sendWin_def split: if_splits)

lemma advanceCommit_log: "advanceCommit b i rf = Inr rf' \<Longrightarrow> rlog rf' = rlog rf"
proof (induction b i rf rule: advanceCommit.induct)
  case (1 b i rf)
  from "1.prems" show ?case
    by (subst (asm) advanceCommit.simps) (auto split: if_splits sum.splits dest!: "1.IH")
qed

lemma sendAppendEntries_log: "sendAppendEntries ok k a r rf = Inr rf' \<Longrightarrow> rlog rf' = rlog rf"
  by (auto simp: sendAppendEntries_def go_bind_Inr_iff Let_def split: if_splits dest!: advanceCommit_log)

lemma applyCommitted_log: "applyCommitted rf = Inr rf' \<Longrightarrow> rlog rf' = rlog rf"
  by (auto simp: applyCommitted_def go_bind_Inr_iff split: if_splits)

lemma tickSelect_log: "tickSelect ch rf = Some rf' \<Longrightarrow> rlog rf' = rlog rf"
  by (auto simp: tickSelect_def split: if_splits ticker_pc.splits tick_choice.splits)

lemma tickTop_log: "tickTop rf = Some rf' \<Longrightarrow> rlog rf' = rlog rf"
  by (auto simp: tickTop_def Let_def split: if_splits role.splits)

lemmas handler_logs = RequestVote_log sendRequestVote_log sendAppendEntries_log applyCommitted_log tickSelect_log tickTop_log

lemma installEntries_log:
  assumes "installEntries a 0 rf = Inr (rf', r)" and "0 \<le> PrevLogIdx a"
  shows "rlog rf' = take (Suc (nat (PrevLogIdx a))) (rlog rf) @ Entries a" "currentTerm rf' = currentTerm rf"
proof -
  from assms obtain pre where "slice (rlog rf) 0 (PrevLogIdx a + 1) = Inr pre" and r: "rlog rf' = pre @ Entries a" "currentTerm rf' = currentTerm rf"
    by (auto simp: installEntries_def go_bind_Inr_iff Let_def split: if_splits)
  then have "pre = take (Suc (nat (PrevLogIdx a))) (rlog rf)"
    using assms(2) by (auto simp: slice_def Suc_nat_eq_nat_zadd1 add.commute split: if_splits)
  with r show "rlog rf' = take (Suc (nat (PrevLogIdx a))) (rlog rf) @ Entries a" "currentTerm rf' = currentTerm rf" by simp_all
qed

text \<open>Where a call of the current term ends: with a refusal, or in the branch that takes the entries over.\<close>

lemma AppendEntries_outcome:
  assumes "AppendEntries a rf = Inr (rf', r)" and "base_ok (rlog rf)" and "PrevLogIdx a = int p"
    and "\<not> ae_Term a < currentTerm rf"
  obtains rf2 where "sendHeartbeat (if currentTerm rf < ae_Term a then newTerm (ae_Term a) rf else rf) = Inr rf2"
    and "\<not> Success r \<and> (rf' = rf2 \<or> rf' = persist rf2) \<or>
      (\<exists>x. index (rlog rf2) (PrevLogIdx a) = Inr x \<and> le_Term x = PrevLogTerm a \<and> installEntries a 0 rf2 = Inr (rf', r))"
proof -
  define rf1 where "rf1 = (if currentTerm rf < ae_Term a then newTerm (ae_Term a) rf else rf)"
  note b = base_ok_baseIdx [OF assms(2)] and l = conjunct1 [OF base_ok_last [OF assms(2)]]
  from assms(1) obtain rf2 where rf2: "sendHeartbeat rf1 = Inr rf2"
    unfolding AppendEntries_def Let_def rf1_def [symmetric] l b go_bind_simps if_not_P [OF assms(4)]
    by (auto simp: go_bind_Inr_iff)
  from assms(1) have "\<not> Success r \<and> (rf' = rf2 \<or> rf' = persist rf2) \<or>
      (\<exists>x. index (rlog rf2) (PrevLogIdx a) = Inr x \<and> le_Term x = PrevLogTerm a \<and> installEntries a 0 rf2 = Inr (rf', r))"
    unfolding AppendEntries_def Let_def rf1_def [symmetric] l b go_bind_simps if_not_P [OF assms(4)] rf2 assms(3)
    by (auto simp: go_bind_Inr_iff split: if_splits option.splits)
  with rf2 that show ?thesis unfolding rf1_def by blast
qed

text \<open>What \<open>AppendEntries\<close> does to the log: nothing, or it replaces what follows an entry it agrees on.\<close>

lemma AppendEntries_log:
  assumes "AppendEntries a rf = Inr (rf', r)" and "base_ok (rlog rf)" and "PrevLogIdx a = int p"
  shows "rlog rf' = rlog rf \<and> (currentTerm rf' = currentTerm rf \<or> currentTerm rf' = ae_Term a) \<or>
    p < length (rlog rf) \<and> le_Term (rlog rf ! p) = PrevLogTerm a \<and> currentTerm rf' = ae_Term a \<and>
    rlog rf' = take (Suc p) (rlog rf) @ Entries a"
proof (cases "currentTerm rf > ae_Term a")
  case True
  with assms(1) show ?thesis by (auto simp: AppendEntries_def go_bind_Inr_iff)
next
  case False
  from AppendEntries_outcome [OF assms(1-3) False] obtain rf2 where
    rf2: "sendHeartbeat (if currentTerm rf < ae_Term a then newTerm (ae_Term a) rf else rf) = Inr rf2"
    and out: "\<not> Success r \<and> (rf' = rf2 \<or> rf' = persist rf2) \<or>
      (\<exists>x. index (rlog rf2) (PrevLogIdx a) = Inr x \<and> le_Term x = PrevLogTerm a \<and> installEntries a 0 rf2 = Inr (rf', r))" .
  have f2: "rlog rf2 = rlog rf" "currentTerm rf2 = ae_Term a" using rf2 False by (auto simp: sendHeartbeat_def split: if_splits)
  from out consider "rf' = rf2" | "rf' = persist rf2"
    | x where "index (rlog rf2) (PrevLogIdx a) = Inr x" "le_Term x = PrevLogTerm a" "installEntries a 0 rf2 = Inr (rf', r)" by blast
  then show ?thesis
  proof cases
    case (3 x)
    from installEntries_log [OF 3(3)] 3(1,2) f2 assms(3) show ?thesis by (auto simp: index_Inr_iff)
  qed (use f2 in simp_all)
qed

text \<open>What a leader sends: a piece of its log, to the others.\<close>

lemma heartbeats_made: "heartbeats rf b is = Inr ms \<Longrightarrow> (j, a) \<in> set ms \<Longrightarrow> heartbeatFor rf b j = Inr (Some a)"
  by (induction "is" arbitrary: ms) (auto simp: go_bind_Inr_iff split: option.splits)

lemma heartbeatFor_carries:
  assumes "heartbeatFor rf 0 j = Inr (Some a)" and "base_ok (rlog rf)"
  shows "state rf = LEADER \<and> j \<noteq> me rf \<and> ae_Term a = currentTerm rf \<and> (\<exists>p. PrevLogIdx a = int p \<and> p < length (rlog rf) \<and>
    PrevLogTerm a = le_Term (rlog rf ! p) \<and> Entries a = take (length (Entries a)) (drop (Suc p) (rlog rf)))"
proof -
  have s: "state rf = LEADER" "j \<noteq> me rf" using assms(1) by (auto simp: heartbeatFor_def split: if_splits)
  then obtain n where n: "0 < n" "ae_Term a = currentTerm rf" "PrevLogIdx a = n - 1"
      "index (rlog rf) (n - 1) = Inr e \<Longrightarrow> PrevLogTerm a = le_Term e" "\<exists>e. index (rlog rf) (n - 1) = Inr e"
      "Entries a = [] \<or> slice_from (rlog rf) n = Inr (Entries a)" for e
    using assms(1) by (auto simp: heartbeatFor_def go_bind_Inr_iff split: if_splits)
  define p where "p = nat (n - 1)"
  have np: "n = int (Suc p)" using n(1) by (simp add: p_def)
  obtain e where e: "index (rlog rf) (n - 1) = Inr e" using n(5) by blast
  then have p: "p < length (rlog rf)" "e = rlog rf ! p" using np by (auto simp: index_Inr_iff)
  have "slice_from (rlog rf) n = Inr (drop (Suc p) (rlog rf))" unfolding np by (rule slice_from_ok) (use p in simp)
  with n(6) have "Entries a = take (length (Entries a)) (drop (Suc p) (rlog rf))" by auto
  with s n(2,3) n(4) [OF e] p np show ?thesis by auto
qed

lemma broadcast_carries:
  assumes "broadcastHeartbeat rf = Inr ms" and "(j, a) \<in> set ms" and "base_ok (rlog rf)"
    and "state rf = LEADER \<Longrightarrow> owner h (currentTerm rf) = Some (me rf) \<and> rlog rf = tlog h (currentTerm rf)"
  shows "j \<noteq> me rf \<and> carries h (me rf) a"
proof -
  from assms(1-3) have "heartbeatFor rf 0 j = Inr (Some a)"
    by (auto simp: broadcastHeartbeat_def base_ok_baseIdx go_bind_Inr_iff intro: heartbeats_made)
  from heartbeatFor_carries [OF this assms(3)] assms(4) show ?thesis by (auto simp: carries_def)
qed

section \<open>Every action keeps the invariant\<close>

text \<open>A follower takes over a piece of the leader's log.\<close>

lemma merged_take:
  assumes "agrees h l" and "agrees h (tlog h (ae_Term a))" and "p < length l"
    and "p < length (tlog h (ae_Term a))" and "le_Term (l ! p) = le_Term (tlog h (ae_Term a) ! p)"
    and "Entries a = take (length (Entries a)) (drop (Suc p) (tlog h (ae_Term a)))"
  shows "take (Suc p) l @ Entries a = take (Suc p + length (Entries a)) (tlog h (ae_Term a))"
proof -
  have "take (Suc p) l @ Entries a = take (Suc p) (tlog h (ae_Term a)) @ take (length (Entries a)) (drop (Suc p) (tlog h (ae_Term a)))"
    using agrees_match [OF assms(1-5)] assms(6) by simp
  also have "\<dots> = take (Suc p + length (Entries a)) (tlog h (ae_Term a))" by (simp only: take_add)
  finally show ?thesis .
qed

lemma append_step:
  assumes "log_inv c" and "j < length (nodes c)" and "i \<noteq> j" and "carries (hist c) i a"
    and "AppendEntries a (nodes c ! j) = Inr (rf', r)" and "nodes c' = (nodes c)[j := rf']" and "hist c' = hist c"
    and "\<And>p. p \<in> set (net c') \<Longrightarrow> p \<notin> set (net c) \<Longrightarrow> appends_ok (hist c') p"
  shows "log_inv c'"
proof -
  let ?h = "hist c" and ?rf = "nodes c ! j" and ?T = "ae_Term a"
  obtain p where p: "PrevLogIdx a = int p" "p < length (tlog ?h ?T)" "PrevLogTerm a = le_Term (tlog ?h ?T ! p)"
      "Entries a = take (length (Entries a)) (drop (Suc p) (tlog ?h ?T))" "owner ?h ?T = Some i"
    using assms(4) by (auto simp: carries_def)
  have ag: "agrees ?h (rlog ?rf)" using assms(1,2) by (rule log_invD)
  then have base: "base_ok (rlog ?rf)" by (simp add: agrees_def)
  have mono: "currentTerm ?rf \<le> currentTerm rf'" using assms(5) by (auto dest: handler_terms)
  from AppendEntries_log [OF assms(5) base p(1)] show ?thesis
  proof
    assume "rlog rf' = rlog ?rf \<and> (currentTerm rf' = currentTerm ?rf \<or> currentTerm rf' = ?T)"
    then show ?thesis using log_inv_same [OF assms(1,2,6)] assms(7,8) mono by simp
  next
    assume acc: "p < length (rlog ?rf) \<and> le_Term (rlog ?rf ! p) = PrevLogTerm a \<and> currentTerm rf' = ?T \<and>
      rlog rf' = take (Suc p) (rlog ?rf) @ Entries a"
    have "agrees ?h (rlog rf')"
      using merged_take [OF ag log_invD(3) [OF assms(1) p(5)] _ p(2) _ p(4)] agrees_take [OF log_invD(3) [OF assms(1) p(5)]] acc p(3) by simp
    moreover have "owner_ok ?h j rf'"
      using log_invD(2) [OF assms(1,2)] mono acc p(5) assms(3) by (fastforce simp: owner_ok_def)
    ultimately show ?thesis
      by (intro log_inv_step [OF assms(1,2,6)])
         (use assms(7,8) log_invD(3) [OF assms(1)] in auto)
  qed
qed

text \<open>A leader appends a command.\<close>

lemma agrees_snoc:
  assumes "agrees h l" and "owner h t = Some i" and "l = tlog h t" and "le_Term e = t" and "le_Index e = int (length l)"
    and "owner h' = owner h" and "tlog h' = (tlog h)(t := l @ [e])"
  shows "agrees h' (l @ [e])" "hext h h'"
proof -
  show ext: "hext h h'" using assms(2,3,6,7) by (auto simp: hext_def)
  have a: "agrees h' l" using assms(1) ext by (rule agrees_hext)
  have "indexed_from 0 l" "indexed_from (int (length l)) [e]"
    using assms(1,5) by (simp add: agrees_def base_ok_def) (simp add: indexed_from_def assms(5))
  then have "indexed_from 0 (l @ [e])" by (simp add: indexed_from_append)
  then have "base_ok (l @ [e])" using assms(1) by (simp add: agrees_def base_ok_def nth_append)
  moreover have "owner h' (le_Term ((l @ [e]) ! k)) \<noteq> None \<and>
      take (Suc k) (l @ [e]) = take (Suc k) (tlog h' (le_Term ((l @ [e]) ! k)))" if "k < length (l @ [e])" "0 < k" for k
  proof (cases "k < length l")
    case True
    with a that show ?thesis by (simp add: agrees_def nth_append)
  next
    case False
    then have "k = length l" using that by simp
    then show ?thesis using assms(2,4,6,7) by (simp add: nth_append)
  qed
  ultimately show "agrees h' (l @ [e])" by (simp add: agrees_def)
qed

lemma submit_step:
  assumes "log_inv c" and "election_inv c" and "i < length (nodes c)" and "doSubmit i cmd c = Some c'"
  shows "log_inv c'"
  using assms(4) unfolding doSubmit_def
proof (cases rule: finish_cases)
  case (1 x)
  let ?rf = "nodes c ! i" and ?t = "currentTerm (nodes c ! i)"
  obtain rf k tm ld where x: "x = (rf, k, tm, ld)" by (cases x)
  show ?thesis
  proof (cases "state ?rf = LEADER")
    case False
    then have "rf = ?rf" "\<not> ld" using 1(1) x by (auto simp: Start_def)
    with 1(2) x show ?thesis by (intro log_inv_same [OF assms(1,3), of c' rf]) auto
  next
    case True
    have own: "owner (hist c) ?t = Some i" "rlog ?rf = tlog (hist c) ?t"
      using True election_invD(3) [OF assms(2,3)] log_invD(2) [OF assms(1,3)]
      by (auto simp: node_ok_def leader_ok_def owner_ok_def)
    have ag: "agrees (hist c) (rlog ?rf)" using assms(1,3) by (rule log_invD)
    then have b: "base_ok (rlog ?rf)" by (simp add: agrees_def)
    let ?e = "\<lparr>le_Term = ?t, le_Command = Some cmd, le_Index = int (length (rlog ?rf))\<rparr>"
    have rf: "rlog rf = rlog ?rf @ [?e]" "currentTerm rf = ?t" "ld"
      using 1(1) x True base_ok_last [OF b] by (auto simp: Start_def Let_def)
    have c': "nodes c' = (nodes c)[i := rf]" "net c' = net c" "owner (hist c') = owner (hist c)"
        "tlog (hist c') = (tlog (hist c))(?t := rlog ?rf @ [?e])"
      using 1(2) x rf by (simp_all add: Let_def)
    note sn = agrees_snoc [OF ag own, of ?e "hist c'", simplified, OF c'(3,4)]
    have agt: "agrees (hist c') (tlog (hist c') t)" if "owner (hist c') t = Some i" for t
      using that sn log_invD(3) [OF assms(1), of t i] by (cases "t = ?t") (auto simp: c' intro: agrees_hext)
    have "owner_ok (hist c') i rf"
      using log_invD(2) [OF assms(1,3)] rf by (auto simp: owner_ok_def c')
    then show ?thesis
      by (intro log_inv_step [OF assms(1,3) c'(1) sn(2)] agt)
         (use sn(1) own in \<open>auto simp: rf c'\<close>)
  qed
next
  case (2 e)
  with assms(1) show ?thesis by (simp add: log_inv_def)
qed

text \<open>A candidate wins: its log becomes the log of the term.\<close>

lemma count_log_step:
  assumes "log_inv c" and "i < length (nodes c)" and "sendRequestVote True a r (nodes c ! i) = Inr rf'"
    and "counts a r (nodes c ! i)" and "nodes c' = (nodes c)[i := rf']" and "hist c' = recordCount i j rf' (hist c)"
    and "set (net c') \<subseteq> set (net c)" and "\<And>t k. owner (hist c) t = Some k \<Longrightarrow> owner (hist c') t = Some k"
  shows "log_inv c'"
proof -
  let ?rf = "nodes c ! i" and ?t = "currentTerm (nodes c ! i)"
  have rl: "rlog rf' = rlog ?rf" "currentTerm rf' = ?t"
    using sendRequestVote_log [OF assms(3)] counted_reply(3) [OF assms(3,4)] by simp_all
  show ?thesis
  proof (cases "state rf' = LEADER")
    case False
    then show ?thesis
      by (intro log_inv_same [OF assms(1,2,5)]) (use rl assms(6,7) in \<open>auto simp: recordCount_def Let_def\<close>)
  next
    case True
    then have h': "owner (hist c') = (owner (hist c))(?t := Some i)" "tlog (hist c') = (tlog (hist c))(?t := rlog ?rf)"
      using assms(6) rl by (simp_all add: recordCount_def Let_def)
    have own: "k = i" if "owner (hist c) ?t = Some k" for k using assms(8) [OF that] h'(1) by simp
    have same: "rlog ?rf = tlog (hist c) ?t" if "owner (hist c) ?t = Some k" for k
      using own [OF that] that log_invD(2) [OF assms(1,2)] by (auto simp: owner_ok_def)
    have ext: "hext (hist c) (hist c')" using own same by (auto simp: hext_def h')
    have ag: "agrees (hist c') (rlog ?rf)" using log_invD(1) [OF assms(1,2)] ext by (rule agrees_hext)
    have agt: "agrees (hist c') (tlog (hist c') t)" if "owner (hist c') t = Some i" for t
      using that ag log_invD(3) [OF assms(1), of t i] ext by (cases "t = ?t") (auto simp: h' intro: agrees_hext)
    have "owner_ok (hist c') i rf'"
      using log_invD(2) [OF assms(1,2)] rl by (auto simp: owner_ok_def h')
    then show ?thesis
      by (intro log_inv_step [OF assms(1,2,5) ext] agt) (use ag rl own assms(7) in \<open>auto simp: h' split: if_splits\<close>)
  qed
qed

lemma log_inv_fewer: "log_inv c \<Longrightarrow> set ps \<subseteq> set (net c) \<Longrightarrow> log_inv (c\<lparr>net := ps, failed := e\<rparr>)"
  by (auto simp: log_inv_def)

lemma packet_log_step:
  assumes "log_inv c" and "election_inv c" and "net c = ps @ p # qs" and "doPacket p (c\<lparr>net := ps @ qs\<rparr>) = Some c'"
    and "\<And>t k. owner (hist c) t = Some k \<Longrightarrow> owner (hist c') t = Some k"
  shows "log_inv c'"
proof -
  let ?c = "c\<lparr>net := ps @ qs\<rparr>"
  have pk: "packet_ok (length (nodes c)) (hist c) p" using assms(2,3) by (rule packet_okD)
  have ap: "appends_ok (hist c) p" using log_invD(4) [OF assms(1)] assms(3) by simp
  have inv: "log_inv ?c" and fail: "log_inv (?c\<lparr>failed := e\<rparr>)" for e
    using log_inv_fewer [OF assms(1), of "ps @ qs"] assms(3) by (auto simp: log_inv_def)
  show ?thesis
  proof (cases p)
    case (VoteReq i j a)
    from assms(4) show ?thesis unfolding VoteReq doPacket_def packet.case
    proof (cases rule: finish_cases)
      case (1 x)
      then show ?thesis using pk VoteReq
        by (intro log_inv_same [OF inv, of j c' "fst x"])
           (auto simp: recordVote_def dest: RequestVote_log RequestVote_term split: prod.splits)
    qed (use fail in simp)
  next
    case (VoteRep i j a r)
    from assms(4) show ?thesis unfolding VoteRep doPacket_def packet.case
    proof (cases rule: finish_cases)
      case (1 rf)
      then show ?thesis
      proof (cases "counts a r (nodes c ! i)")
        case True
        then show ?thesis using 1 pk VoteRep assms(5)
          by (intro count_log_step [OF inv, of i a r rf c' j]) (auto simp: Let_def)
      next
        case False
        then show ?thesis using 1 pk VoteRep
          by (intro log_inv_same [OF inv, of i c' rf]) (auto simp: Let_def dest: sendRequestVote_log sendRequestVote_term)
      qed
    qed (use fail in simp)
  next
    case (AppReq i j a)
    from assms(4) show ?thesis unfolding AppReq doPacket_def packet.case
    proof (cases rule: finish_cases)
      case (1 x)
      then show ?thesis using pk ap AppReq
        by (intro append_step [OF inv, of j i a "fst x" "snd x"]) (auto split: prod.splits)
    qed (use fail in simp)
  next
    case (AppRep i j a r)
    from assms(4) show ?thesis unfolding AppRep doPacket_def packet.case
    proof (cases rule: finish_cases)
      case (1 rf)
      then show ?thesis using pk AppRep
        by (intro log_inv_same [OF inv, of i c' rf]) (auto dest: sendAppendEntries_log handler_terms)
    qed (use fail in simp)
  qed
qed

lemma local_log_steps:
  assumes "log_inv c" and "election_inv c" and "i < length (nodes c)"
  shows "doTick i c = Some c' \<Longrightarrow> log_inv c'" "doSelect i ch c = Some c' \<Longrightarrow> log_inv c'"
    "doSolicit i c = Some c' \<Longrightarrow> log_inv c'" "doApply i c = Some c' \<Longrightarrow> log_inv c'"
    "doBroadcast i c = Some c' \<Longrightarrow> log_inv c'"
proof -
  let ?rf = "nodes c ! i"
  have fail: "log_inv (c\<lparr>failed := e\<rparr>)" for e using assms(1) by (simp add: log_inv_def)
  show "doTick i c = Some c' \<Longrightarrow> log_inv c'"
    by (cases "tickTop ?rf") (auto simp: doTick_def Let_def intro!: log_inv_same [OF assms(1,3)] dest: tickTop_log tickTop_term)
  show "doSelect i ch c = Some c' \<Longrightarrow> log_inv c'"
    by (auto simp: doSelect_def intro!: log_inv_same [OF assms(1,3)] dest: tickSelect_log handler_terms)
  show "doSolicit i c = Some c' \<Longrightarrow> log_inv c'"
    by (auto simp: doSolicit_def Let_def split: list.splits elim!: finish_cases intro!: log_inv_same [OF assms(1,3)] fail)
  show "log_inv c'" if "doApply i c = Some c'"
  proof -
    from that have "finish c (applyCommitted (?rf\<lparr>appliers := appliers ?rf - 1\<rparr>)) (\<lambda>rf'. setNode i rf' c) = Some c'"
      by (auto simp: doApply_def Let_def split: if_splits)
    then show ?thesis
    proof (cases rule: finish_cases)
      case (1 rf)
      then show ?thesis
        using applyCommitted_log [OF 1(1)] applyCommitted_quiet [OF 1(1), THEN quiet_term]
        by (intro log_inv_same [OF assms(1,3), of c' rf]) auto
    qed (use fail in simp)
  qed
  show "log_inv c'" if "doBroadcast i c = Some c'"
  proof -
    let ?rf' = "?rf\<lparr>broadcasts := broadcasts ?rf - 1\<rparr>"
    from that have "finish c (broadcastHeartbeat ?rf') (\<lambda>ms.
        (setNode i ?rf' c)\<lparr>net := net c @ map (\<lambda>(j, a). AppReq i j a) ms\<rparr>) = Some c'"
      by (auto simp: doBroadcast_def Let_def split: if_splits)
    then show ?thesis
    proof (cases rule: finish_cases)
      case (1 ms)
      have "me ?rf = i" and own: "state ?rf = LEADER \<Longrightarrow> owner (hist c) (currentTerm ?rf) = Some i \<and> rlog ?rf = tlog (hist c) (currentTerm ?rf)"
        using election_invD(3) [OF assms(2,3)] log_invD(2) [OF assms(1,3)] by (auto simp: node_ok_def leader_ok_def owner_ok_def)
      moreover have "base_ok (rlog ?rf)" using log_invD(1) [OF assms(1,3)] by (simp add: agrees_def)
      ultimately have "appends_ok (hist c) (AppReq i j a)" if "(j, a) \<in> set ms" for j a
        using broadcast_carries [OF 1(1) that, of "hist c"] by auto
      then have "appends_ok (hist c) p" if "p \<in> set (map (\<lambda>(j, a). AppReq i j a) ms)" for p using that by auto
      then show ?thesis using 1 by (intro log_inv_same [OF assms(1,3), of c' ?rf']) auto
    qed (use fail in simp)
  qed
qed

lemma timely_log_step:
  assumes "timely_act a c = Some c'" and "log_inv c" and "election_inv c"
  shows "log_inv c'"
proof -
  have s: "cluster_step a c = Some c'" and nr: "\<And>i. a \<noteq> Restart i"
    using assms(1) by (auto simp: timely_act_def cluster_act_def timely_def split: if_splits)
  show ?thesis
  proof (cases a)
    case (Deliver k)
    then have "k < length (net c)" "doPacket (net c ! k) (c\<lparr>net := take k (net c) @ drop (Suc k) (net c)\<rparr>) = Some c'"
      using s by (auto simp: cluster_step_def removePacket_def split: if_splits)
    then show ?thesis using packet_log_step [OF assms(2,3) id_take_nth_drop] owner_stays [OF assms(1,3)] by blast
  next
    case (Drop k)
    have "set (take k (net c) @ drop (Suc k) (net c)) \<subseteq> set (net c)" by (auto dest: in_set_takeD in_set_dropD)
    from log_inv_fewer [OF assms(2) this, of "failed c"] Drop s show ?thesis
      by (auto simp: cluster_step_def removePacket_def split: if_splits)
  next
    case (Submit i cmd)
    then show ?thesis using s submit_step [OF assms(2,3)] by (auto simp: cluster_step_def split: if_splits)
  qed (use s nr local_log_steps [OF assms(2,3)] in \<open>auto simp: cluster_step_def split: if_splits\<close>)
qed

section \<open>Log matching\<close>

definition log_election_inv :: "'c cluster \<Rightarrow> bool" where
  "log_election_inv c \<longleftrightarrow> election_inv c \<and> log_inv c"

lemma initial_logs: "log_inv (cluster_init n)"
proof -
  have f: "rlog (Make n i MakePersister) = [\<lparr>le_Term = 0, le_Command = None, le_Index = 0\<rparr>]" for i
    by (simp add: Make_def Let_def persist_def readPersist_def ReadRaftState_def MakePersister_def)
  show ?thesis
    by (simp add: log_inv_def cluster_init_def f agrees_def base_ok_def owner_ok_def indexed_from_def)
qed

interpretation rlogs: machine_invariant "\<lambda>c. c = cluster_init n" timely_act log_election_inv for n
proof unfold_locales
  show "c = cluster_init n \<Longrightarrow> log_election_inv c" for c
    by (simp add: log_election_inv_def initial_cluster initial_logs)
  show "timely_act a s = Some t \<Longrightarrow> log_election_inv s \<Longrightarrow> log_election_inv t" for a s t
    by (simp add: log_election_inv_def timely_step timely_log_step)
qed


text \<open>The leader replicates one command to peer 2.\<close>

definition replicate_run :: "nat cact list" where
  "replicate_run = win_run @ [Drop 0, Select 0 ChooseWin, Submit 0 7, Tick 0, Broadcast 0, Deliver 1]"


end
