(* ===== verification/RaftIndices.thy ===== *)
theory RaftIndices
  imports RaftLog
begin

text \<open>
  The indices a leader of \<^verbatim>\<open>lab3/raft/raft.go\<close> keeps about its followers.  \<open>nextIdx\<close> stays within the
  leader's log, so that no handler and no goroutine of a cluster other than an applier can panic
  on an index or a slice; \<open>matchIdx\<close> outlives the term it was learnt in, which breaks the commit rule.
\<close>

section \<open>Panics\<close>

definition crashes :: "'a go \<Rightarrow> bool" where
  "crashes m \<longleftrightarrow> (case m of Inl e \<Rightarrow> e \<noteq> Blocked | Inr x \<Rightarrow> False)"

lemma crashes_simps [simp]: "crashes (Inl e) \<longleftrightarrow> e \<noteq> Blocked" "\<not> crashes (Inr x)"
  by (simp_all add: crashes_def)

lemma crashes_bind [simp]: "crashes (go_bind m f) \<longleftrightarrow> crashes m \<or> (\<exists>x. m = Inr x \<and> crashes (f x))"
  by (cases m) auto

lemma crashes_finish: "finish c m f = Some c' \<Longrightarrow> \<not> crashes m \<Longrightarrow> \<exists>x. m = Inr x \<and> c' = f x"
  by (auto simp: finish_def crashes_def split: sum.splits if_splits)

lemma setNode_failed [simp]: "failed (setNode i rf c) = failed c"
  by (simp add: setNode_def)

lemma crashes_index [simp]: "crashes (index xs i) \<longleftrightarrow> \<not> (0 \<le> i \<and> i < int (length xs))"
  by (simp add: index_def)

lemma crashes_slice [simp]: "crashes (slice xs lo hi) \<longleftrightarrow> \<not> (0 \<le> lo \<and> lo \<le> hi \<and> hi \<le> int (length xs))"
  by (simp add: slice_def)

lemma crashes_send [simp]: "\<not> crashes (sendHeartbeat rf)" "\<not> crashes (sendWin rf)"
  by (simp_all add: sendHeartbeat_def sendWin_def)

lemma crashes_lastLog [simp]: "crashes (lastLog rf) \<longleftrightarrow> rlog rf = []"
  by (cases "rlog rf") (simp_all add: lastLog_def)

lemma crashes_baseIdx [simp]: "crashes (baseIdx rf) \<longleftrightarrow> rlog rf = []"
  by (simp add: baseIdx_def)

lemma crashes_setNextIdx [simp]: "crashes (setNextIdx k rf) \<longleftrightarrow> length (nextIdx rf) < npeers rf"
  by (simp add: setNextIdx_def)

lemma crashes_updateIdx [simp]: "crashes (updateIdx k v xs) \<longleftrightarrow> \<not> k < length xs"
  by (simp add: updateIdx_def)

lemma sent_frame: "sendHeartbeat rf = Inr rf' \<Longrightarrow> rf' = rf\<lparr>cHeartbeat := Suc (cHeartbeat rf)\<rparr>"
  by (simp add: sendHeartbeat_def split: if_splits)

subsection \<open>The handlers that read only the ends of the log\<close>

lemma solicitVotes_safe: "rlog rf \<noteq> [] \<Longrightarrow> \<not> crashes (solicitVotes rf)"
  by (simp add: solicitVotes_def voteArgs_def)

lemma Start_safe: "rlog rf \<noteq> [] \<Longrightarrow> \<not> crashes (Start cmd rf)"
  by (simp add: Start_def Let_def)

lemma RequestVote_safe: "rlog rf \<noteq> [] \<Longrightarrow> \<not> crashes (RequestVote a rf)"
  by (simp add: RequestVote_def Let_def)

lemma sendRequestVote_safe:
  "rlog rf \<noteq> [] \<Longrightarrow> length (nextIdx rf) = npeers rf \<Longrightarrow> \<not> crashes (sendRequestVote ok a r rf)"
  by (simp add: sendRequestVote_def Let_def)

subsection \<open>Appending\<close>

lemma backup_safe:
  assumes "k \<le> length l"
  shows "\<exists>r. backup l 0 term (int k - 1) = Inr r \<and> (\<forall>n. r = Some n \<longrightarrow> 0 \<le> n \<and> n \<le> int k)"
  using assms
proof (induction k)
  case 0
  then show ?case by (subst backup.simps) simp
next
  case (Suc k)
  then have "index l (int k) = Inr (l ! k)" by (simp add: index_def)
  with Suc show ?case by (subst backup.simps) force
qed

lemma installEntries_safe: "PrevLogIdx a = int p \<Longrightarrow> p < length (rlog rf) \<Longrightarrow> \<not> crashes (installEntries a 0 rf)"
  by (auto simp: installEntries_def Let_def slice_def)

text \<open>The call never panics, and the index a follower asks for is in the caller's log.\<close>

lemma AppendEntries_safe:
  assumes "base_ok (rlog rf)" and "PrevLogIdx a = int p"
  shows "\<not> crashes (AppendEntries a rf)"
    "AppendEntries a rf = Inr (rf', r) \<Longrightarrow> \<not> Success r \<Longrightarrow> aer_Term r \<le> ae_Term a \<Longrightarrow> 0 \<le> NextTryIdx r \<and> NextTryIdx r \<le> int p"
proof -
  note b = base_ok_baseIdx [OF assms(1)] and l = conjunct1 [OF base_ok_last [OF assms(1)]]
  have ne: "rlog rf \<noteq> []" using assms(1) by (simp add: base_ok_def)
  have li: "le_Index (last (rlog rf)) = int (length (rlog rf)) - 1" using base_ok_last [OF assms(1)] by simp
  obtain o' where bk: "p < length (rlog rf) \<Longrightarrow> backup (rlog rf) 0 (le_Term (rlog rf ! p)) (int p - 1) = Inr o'"
      "p < length (rlog rf) \<Longrightarrow> o' = Some n \<Longrightarrow> 0 \<le> n \<and> n \<le> int p" for n
    using backup_safe [of p "rlog rf" "le_Term (rlog rf ! p)"] by (metis less_imp_le)
  show "\<not> crashes (AppendEntries a rf)"
    unfolding AppendEntries_def l b go_bind_simps Let_def assms(2) li
    using ne bk(1) by (auto simp: index_def installEntries_safe [OF assms(2)] split: option.splits dest!: sent_frame)
  show "0 \<le> NextTryIdx r \<and> NextTryIdx r \<le> int p"
    if "AppendEntries a rf = Inr (rf', r)" "\<not> Success r" "aer_Term r \<le> ae_Term a"
    using that unfolding AppendEntries_def l b go_bind_simps Let_def assms(2) li
    using ne bk by (auto simp: go_bind_Inr_iff index_def installEntries_def Let_def split: option.splits if_splits dest!: sent_frame)
qed

subsection \<open>Leading\<close>

text \<open>What a peer needs of its indices: one entry for every peer and, while it leads, every \<open>nextIdx\<close> within its log or
  just after it.\<close>

definition indices_ok :: "'c Raft \<Rightarrow> bool" where
  "indices_ok rf \<longleftrightarrow> length (nextIdx rf) = npeers rf \<and> length (matchIdx rf) = npeers rf \<and>
     0 \<le> commitIdx rf \<and> 0 \<le> appliedLast rf \<and>
     (state rf = LEADER \<longrightarrow> (\<forall>n \<in> set (nextIdx rf). 0 \<le> n \<and> n \<le> int (length (rlog rf))))"

lemma heartbeatFor_safe:
  assumes "base_ok (rlog rf)" and "indices_ok rf" and "i < npeers rf"
  shows "\<not> crashes (heartbeatFor rf 0 i)"
proof -
  have "state rf = LEADER \<Longrightarrow> 0 \<le> nextIdx rf ! i \<and> nextIdx rf ! i \<le> int (length (rlog rf))"
    using assms(2,3) by (simp add: indices_ok_def)
  moreover have "rlog rf \<noteq> []" "i < length (nextIdx rf)" using assms by (simp_all add: base_ok_def indices_ok_def)
  ultimately show ?thesis using base_ok_last [OF assms(1)]
    by (auto simp: heartbeatFor_def index_def slice_from_def)
qed

lemma broadcastHeartbeat_safe:
  assumes "base_ok (rlog rf)" and "indices_ok rf"
  shows "\<not> crashes (broadcastHeartbeat rf)"
proof -
  have "\<not> crashes (heartbeats rf 0 is)" if "\<forall>i \<in> set is. i < npeers rf" for "is"
    using that by (induction "is") (auto simp: heartbeatFor_safe [OF assms])
  moreover have "rlog rf \<noteq> []" using assms(1) by (simp add: base_ok_def)
  ultimately show ?thesis by (simp add: broadcastHeartbeat_def base_ok_baseIdx [OF assms(1)])
qed

lemma advanceCommit_safe:
  assumes "length (matchIdx rf) = npeers rf" and "0 \<le> commitIdx rf" and "i < int (length (rlog rf))"
  shows "\<exists>k m. advanceCommit 0 i rf = Inr (rf\<lparr>commitIdx := k, appliers := m\<rparr>) \<and> commitIdx rf \<le> k"
  using advanceCommit_spec [OF assms]
proof
  assume "(\<forall>j. \<not> committable rf i j) \<and> advanceCommit 0 i rf = Inr rf"
  then show ?thesis by (intro exI [of _ "commitIdx rf"] exI [of _ "appliers rf"]) simp
qed (auto simp: committable_def)

text \<open>A reply that names only indices of the leader's log.\<close>

definition reply_in :: "nat \<Rightarrow> 'c AppendEntriesArgs \<Rightarrow> AppendEntriesResults \<Rightarrow> bool" where
  "reply_in n a r \<longleftrightarrow>
     (if Success r then Entries a \<noteq> [] \<longrightarrow> 0 \<le> le_Index (last (Entries a)) \<and> le_Index (last (Entries a)) < int n
      else aer_Term r \<le> ae_Term a \<longrightarrow> 0 \<le> NextTryIdx r \<and> NextTryIdx r \<le> int n)"

lemma sendAppendEntries_advance:
  assumes "base_ok (rlog rf)" and "indices_ok rf" and "k < npeers rf" and "currentTerm rf = ae_Term a" and "state rf = LEADER"
    and "\<not> currentTerm rf < aer_Term r"
  shows "sendAppendEntries True k a r rf = advanceCommit 0 (int (length (rlog rf)) - 1) (noteReply k a r rf)"
proof -
  let ?n = "noteReply k a r rf"
  have up: "(if Success r then
           if Entries a \<noteq> [] then
             let n = le_Index (last (Entries a)) + 1 in
             go_bind (updateIdx k n (nextIdx rf)) (\<lambda>ns. go_bind (updateIdx k (n - 1) (matchIdx rf)) (\<lambda>ms.
               Inr (rf\<lparr>nextIdx := ns, matchIdx := ms\<rparr>)))
           else Inr rf
         else go_bind (updateIdx k (NextTryIdx r) (nextIdx rf)) (\<lambda>ns. Inr (rf\<lparr>nextIdx := ns\<rparr>))) = Inr ?n"
    using assms(2,3) by (simp add: noteReply_def updateIdx_def indices_ok_def)
  have "lastLog ?n = Inr (last (rlog rf))" "le_Index (last (rlog rf)) = int (length (rlog rf)) - 1"
    using base_ok_last [of ?n] assms(1) by simp_all
  then show ?thesis
    unfolding sendAppendEntries_def base_ok_baseIdx [OF assms(1)] go_bind_simps using assms(4-6) by (simp add: up)
qed

lemma sendAppendEntries_safe:
  assumes "base_ok (rlog rf)" and "indices_ok rf" and "k < npeers rf"
    and "state rf = LEADER \<Longrightarrow> ae_Term a = currentTerm rf \<Longrightarrow> reply_in (length (rlog rf)) a r"
  shows "\<exists>rf'. sendAppendEntries True k a r rf = Inr rf' \<and> indices_ok rf'"
proof (cases "currentTerm rf \<noteq> ae_Term a \<or> state rf \<noteq> LEADER \<or> currentTerm rf < aer_Term r")
  case True
  then show ?thesis using assms(2) by (auto simp: sendAppendEntries_def base_ok_baseIdx [OF assms(1)] indices_ok_def)
next
  case False
  let ?n = "noteReply k a r rf"
  have "sendAppendEntries True k a r rf = advanceCommit 0 (int (length (rlog rf)) - 1) ?n"
    using False by (intro sendAppendEntries_advance [OF assms(1-3)]) auto
  moreover have "length (matchIdx ?n) = npeers ?n" "0 \<le> commitIdx ?n" "int (length (rlog rf)) - 1 < int (length (rlog ?n))"
    using assms(2) by (auto simp: indices_ok_def)
  note advanceCommit_safe [OF this]
  moreover have "indices_ok ?n"
    using assms(2,4) False
    by (auto simp: indices_ok_def reply_in_def noteReply_def dest!: set_update_subset_insert [THEN subsetD] split: if_splits)
  ultimately show ?thesis by (auto simp: indices_ok_def)
qed

lemma applyFrom_safe:
  "0 \<le> i \<Longrightarrow> i + int n \<le> int (length l) \<Longrightarrow> \<not> crashes (applyFrom n i 0 l)"
  by (induction n arbitrary: i) auto

lemma applyFrom_panic: "applyFrom n i b l = Inl e \<Longrightarrow> e = IndexOutOfRange"
  by (induction n arbitrary: i) (auto simp: go_bind_def index_def split: sum.splits if_splits)

text \<open>The applier panics only where the commit index is beyond the log.\<close>

lemma applyCommitted_safe:
  assumes "base_ok (rlog rf)" and "0 \<le> appliedLast rf" and "applyCommitted rf = Inl e"
  shows "e = IndexOutOfRange \<and> int (length (rlog rf)) \<le> commitIdx rf"
proof -
  let ?n = "nat (commitIdx rf - appliedLast rf)"
  from assms(3) have "appliedLast rf + 1 \<le> commitIdx rf" "applyFrom ?n (appliedLast rf + 1) 0 (rlog rf) = Inl e"
    by (auto simp: applyCommitted_def base_ok_baseIdx [OF assms(1)] go_bind_def split: if_splits sum.splits)
  with applyFrom_safe [of "appliedLast rf + 1" ?n "rlog rf"] applyFrom_panic assms(2) show ?thesis
    by (fastforce simp: not_le)
qed

section \<open>The indices of a cluster\<close>

fun replies_ok :: "'c history \<Rightarrow> 'c packet \<Rightarrow> bool" where
  "replies_ok h (AppRep i j a r) \<longleftrightarrow> carries h i a \<and> reply_in (length (tlog h (ae_Term a))) a r"
| "replies_ok h _ \<longleftrightarrow> True"

definition index_inv :: "'c cluster \<Rightarrow> bool" where
  "index_inv c \<longleftrightarrow> (\<forall>i < length (nodes c). indices_ok (nodes c ! i)) \<and> (\<forall>p \<in> set (net c). replies_ok (hist c) p)"

lemma index_invD:
  assumes "index_inv c"
  shows "i < length (nodes c) \<Longrightarrow> indices_ok (nodes c ! i)" "p \<in> set (net c) \<Longrightarrow> replies_ok (hist c) p"
  using assms by (auto simp: index_inv_def)

lemma replies_ok_hext:
  assumes "replies_ok h p" and "hext h h'"
  shows "replies_ok h' p"
proof (cases p)
  case (AppRep i j a r)
  then have "carries h' i a" using assms by (auto intro: carries_hext)
  moreover obtain xs where "tlog h' (ae_Term a) = tlog h (ae_Term a) @ xs"
    using AppRep assms by (auto simp: carries_def hext_def)
  ultimately show ?thesis using AppRep assms(1) by (auto simp: reply_in_def)
qed simp_all

lemma index_inv_step:
  assumes "index_inv c" and "nodes c' = (nodes c)[i := rf']" and "indices_ok rf'" and "hext (hist c) (hist c')"
    and "\<And>p. p \<in> set (net c') \<Longrightarrow> p \<notin> set (net c) \<Longrightarrow> replies_ok (hist c') p"
  shows "index_inv c'"
proof -
  have "indices_ok (nodes c' ! j)" if "j < length (nodes c)" for j
    using assms(2,3) index_invD(1) [OF assms(1) that] that by (cases "j = i") auto
  moreover have "replies_ok (hist c') p" if "p \<in> set (net c')" for p
    using that assms(5) replies_ok_hext [OF index_invD(2) [OF assms(1)] assms(4)] by blast
  ultimately show ?thesis using assms(2) by (simp add: index_inv_def)
qed

subsection \<open>The leaders' logs grow in every step\<close>

lemma submit_hext:
  assumes "log_inv c" and "election_inv c" and "i < length (nodes c)" and "doSubmit i cmd c = Some c'"
  shows "hext (hist c) (hist c')"
  using assms(4) unfolding doSubmit_def
proof (cases rule: finish_cases)
  case (1 x)
  obtain rf k tm ld where x: "x = (rf, k, tm, ld)" by (cases x)
  show ?thesis
  proof (cases "state (nodes c ! i) = LEADER")
    case True
    then have "rlog (nodes c ! i) = tlog (hist c) (currentTerm (nodes c ! i))"
      using election_invD(3) [OF assms(2,3)] log_invD(2) [OF assms(1,3)] by (auto simp: node_ok_def leader_ok_def owner_ok_def)
    then show ?thesis using 1 x True by (auto simp: Start_def go_bind_Inr_iff Let_def hext_def)
  qed (use 1 x in \<open>auto simp: Start_def Let_def\<close>)
qed simp

lemma packet_hext:
  assumes "log_inv c" and "election_inv c" and "p \<in> set (net c)" and "doPacket p (c\<lparr>net := ps\<rparr>) = Some c'"
    and "\<And>t k. owner (hist c) t = Some k \<Longrightarrow> owner (hist c') t = Some k"
  shows "hext (hist c) (hist c')"
proof (cases p)
  case (VoteRep i j a r)
  have i: "i < length (nodes c)" using election_invD(2) [OF assms(2,3)] VoteRep by simp
  from assms(4) show ?thesis unfolding VoteRep doPacket_def packet.case
  proof (cases rule: finish_cases)
    case (1 rf)
    let ?t = "currentTerm (nodes c ! i)"
    show ?thesis
    proof (cases "counts a r (nodes c ! i) \<and> state rf = LEADER")
      case True
      then have "rlog rf = rlog (nodes c ! i)" "currentTerm rf = ?t"
        using sendRequestVote_log counted_reply(3) 1(1) by auto
      then have h': "owner (hist c') = (owner (hist c))(?t := Some i)" "tlog (hist c') = (tlog (hist c))(?t := rlog (nodes c ! i))"
        using True 1(2) by (simp_all add: Let_def recordCount_def)
      have "tlog (hist c) ?t = rlog (nodes c ! i) \<and> k = i" if "owner (hist c) ?t = Some k" for k
        using that assms(5) [OF that] log_invD(2) [OF assms(1) i] by (auto simp: h' owner_ok_def)
      then show ?thesis by (auto simp: hext_def h')
    qed (use 1 in \<open>auto simp: Let_def recordCount_def\<close>)
  qed simp
qed (use assms(4) in \<open>auto simp: doPacket_def recordVote_def Let_def elim!: finish_cases split: if_splits prod.splits\<close>)

subsection \<open>Every section of code keeps the indices\<close>

lemma indices_ok_frame [simp]:
  "indices_ok (rf\<lparr>solicits := s\<rparr>) = indices_ok rf" "indices_ok (rf\<lparr>broadcasts := b\<rparr>) = indices_ok rf"
  "indices_ok (rf\<lparr>appliers := b\<rparr>) = indices_ok rf" "indices_ok (rf\<lparr>tick := k\<rparr>) = indices_ok rf"
  "indices_ok (rf\<lparr>votedFor := v\<rparr>) = indices_ok rf" "indices_ok (rf\<lparr>cHeartbeat := b\<rparr>) = indices_ok rf"
  "indices_ok (rf\<lparr>cWinElection := b\<rparr>) = indices_ok rf" "indices_ok (persist rf) = indices_ok rf"
  by (simp_all add: indices_ok_def)

lemma RequestVote_indices: "RequestVote a rf = Inr (rf', r) \<Longrightarrow> indices_ok rf \<Longrightarrow> indices_ok rf'"
  by (auto simp: RequestVote_def go_bind_Inr_iff Let_def indices_ok_def dest!: sent_frame split: if_splits)

lemma sendRequestVote_indices:
  assumes "sendRequestVote ok a r rf = Inr rf'" and "base_ok (rlog rf)" and "indices_ok rf"
  shows "indices_ok rf'"
proof -
  have "lastLog (persist (rf\<lparr>numVotesReceived := k\<rparr>)) = Inr (last (rlog rf))" for k
    using base_ok_last [of "persist (rf\<lparr>numVotesReceived := k\<rparr>)"] assms(2) by simp
  with assms base_ok_last [OF assms(2)] show ?thesis
    by (auto simp: sendRequestVote_def Let_def go_bind_Inr_iff setNextIdx_def sendWin_def indices_ok_def split: if_splits)
qed

lemma Start_indices: "Start cmd rf = Inr (rf', x) \<Longrightarrow> indices_ok rf \<Longrightarrow> indices_ok rf'"
  by (force simp: Start_def go_bind_Inr_iff Let_def indices_ok_def split: if_splits)

lemma tickTop_indices: "tickTop rf = Some rf' \<Longrightarrow> indices_ok rf \<Longrightarrow> indices_ok rf'"
  by (auto simp: tickTop_def Let_def indices_ok_def split: if_splits role.splits)

lemma tickSelect_indices: "tickSelect ch rf = Some rf' \<Longrightarrow> indices_ok rf \<Longrightarrow> indices_ok rf'"
  by (auto simp: tickSelect_def indices_ok_def split: if_splits ticker_pc.splits tick_choice.splits)

lemma applyCommitted_indices: "applyCommitted rf = Inr rf' \<Longrightarrow> indices_ok rf \<Longrightarrow> indices_ok rf'"
  by (auto simp: applyCommitted_def go_bind_Inr_iff indices_ok_def split: if_splits)

lemma installEntries_commit:
  assumes "installEntries a 0 rf = Inr (rf', r)"
  shows "nextIdx rf' = nextIdx rf \<and> matchIdx rf' = matchIdx rf \<and> npeers rf' = npeers rf \<and> appliedLast rf' = appliedLast rf \<and>
    (commitIdx rf' = commitIdx rf \<or> commitIdx rf < LeaderCommit a \<and> commitIdx rf' = min (LeaderCommit a) (le_Index (last (rlog rf'))))"
proof -
  have "lastLog rf = Inr e \<Longrightarrow> e = last (rlog rf)" for e and rf :: "'c Raft"
    by (cases "rlog rf") (auto simp: lastLog_def index_def last_conv_nth nat_diff_distrib split: if_splits)
  with assms show ?thesis
    by (fastforce simp: installEntries_def go_bind_Inr_iff Let_def split: if_splits)
qed

lemma AppendEntries_indices:
  assumes "AppendEntries a rf = Inr (rf', r)" and "base_ok (rlog rf)" and "base_ok (rlog rf')" and "indices_ok rf"
    and "PrevLogIdx a = int p" and "state rf' = LEADER \<Longrightarrow> state rf = LEADER \<and> rlog rf' = rlog rf"
  shows "indices_ok rf'"
proof (cases "ae_Term a < currentTerm rf")
  case True
  with assms(1,4) show ?thesis by (auto simp: AppendEntries_def go_bind_Inr_iff)
next
  case False
  have last: "0 \<le> le_Index (last (rlog rf'))" using base_ok_last [OF assms(3)] assms(3) by (cases "rlog rf'") (auto simp: base_ok_def)
  from AppendEntries_outcome [OF assms(1,2,5) False] obtain rf2 where
    rf2: "sendHeartbeat (if currentTerm rf < ae_Term a then newTerm (ae_Term a) rf else rf) = Inr rf2"
    and out: "rf' = rf2 \<or> rf' = persist rf2 \<or> installEntries a 0 rf2 = Inr (rf', r)" by metis
  from rf2 have f2: "nextIdx rf2 = nextIdx rf \<and> matchIdx rf2 = matchIdx rf \<and> npeers rf2 = npeers rf \<and>
      appliedLast rf2 = appliedLast rf \<and> commitIdx rf2 = commitIdx rf"
    by (auto dest!: sent_frame)
  with out have "nextIdx rf' = nextIdx rf \<and> matchIdx rf' = matchIdx rf \<and> npeers rf' = npeers rf \<and> appliedLast rf' = appliedLast rf \<and>
    (commitIdx rf' = commitIdx rf \<or> commitIdx rf < LeaderCommit a \<and> commitIdx rf' = min (LeaderCommit a) (le_Index (last (rlog rf'))))"
    by (auto dest: installEntries_commit)
  with last show ?thesis using assms(4,6) by (auto simp: indices_ok_def)
qed

subsection \<open>Steps of a cluster\<close>

text \<open>The logs of a cluster that keeps log matching, and where the leader of a term has its own.\<close>

lemma cluster_logs:
  assumes "log_election_inv c" and "i < length (nodes c)"
  shows "base_ok (rlog (nodes c ! i))" "rlog (nodes c ! i) \<noteq> []" "npeers (nodes c ! i) = length (nodes c)" "me (nodes c ! i) = i"
    "state (nodes c ! i) = LEADER \<Longrightarrow> owner (hist c) (currentTerm (nodes c ! i)) = Some i \<and>
       rlog (nodes c ! i) = tlog (hist c) (currentTerm (nodes c ! i))"
proof -
  have l: "log_inv c" and e: "election_inv c" using assms(1) by (simp_all add: log_election_inv_def)
  from log_invD(1) [OF l assms(2)] show "base_ok (rlog (nodes c ! i))" "rlog (nodes c ! i) \<noteq> []"
    by (auto simp: agrees_def base_ok_def)
  from election_invD(3) [OF e assms(2)] log_invD(2) [OF l assms(2)]
  show "npeers (nodes c ! i) = length (nodes c)" "me (nodes c ! i) = i"
    "state (nodes c ! i) = LEADER \<Longrightarrow> owner (hist c) (currentTerm (nodes c ! i)) = Some i \<and>
       rlog (nodes c ! i) = tlog (hist c) (currentTerm (nodes c ! i))"
    by (auto simp: node_ok_def leader_ok_def owner_ok_def)
qed

text \<open>The last entry a call carries stands in the log of its term.\<close>

lemma carries_last_index:
  assumes "carries h i a" and "base_ok (tlog h (ae_Term a))" and "Entries a \<noteq> []"
  shows "le_Index (last (Entries a)) = PrevLogIdx a + int (length (Entries a))"
    "0 \<le> PrevLogIdx a" "PrevLogIdx a + int (length (Entries a)) < int (length (tlog h (ae_Term a)))"
proof -
  let ?T = "tlog h (ae_Term a)" and ?n = "length (Entries a)"
  obtain p where p: "PrevLogIdx a = int p" "p < length ?T" "Entries a = take ?n (drop (Suc p) ?T)" using assms(1) by (auto simp: carries_def)
  have n: "?n \<le> length ?T - Suc p" by (subst p(3)) simp
  have "last (take ?n (drop (Suc p) ?T)) = ?T ! (p + ?n)"
    using assms(3) p(2) n by (cases "Entries a") (auto simp: last_conv_nth min_absorb2)
  with p(3) have "last (Entries a) = ?T ! (p + ?n)" by simp
  then show "le_Index (last (Entries a)) = PrevLogIdx a + int (length (Entries a))"
    "0 \<le> PrevLogIdx a" "PrevLogIdx a + int (length (Entries a)) < int (length (tlog h (ae_Term a)))"
    using assms(2,3) n p(1,2) by (simp_all add: base_ok_def indexed_from_def)
qed

lemma append_reply_ok:
  assumes "log_inv c" and "carries (hist c) i a" and "base_ok (rlog rf)" and "AppendEntries a rf = Inr (rf', r)"
  shows "replies_ok (hist c) (AppRep i j a r)"
proof -
  obtain p where p: "PrevLogIdx a = int p" "p < length (tlog (hist c) (ae_Term a))" "owner (hist c) (ae_Term a) = Some i"
    using assms(2) by (auto simp: carries_def)
  have "base_ok (tlog (hist c) (ae_Term a))" using log_invD(3) [OF assms(1) p(3)] by (simp add: agrees_def)
  with carries_last_index [OF assms(2)] AppendEntries_safe(2) [OF assms(3) p(1) assms(4)] p(2) assms(2) show ?thesis
    by (auto simp: reply_in_def)
qed

definition kept :: "'c cluster \<Rightarrow> 'c cluster \<Rightarrow> bool" where
  "kept c c' \<longleftrightarrow> index_inv c' \<and> failed c' = failed c"

lemma local_index_steps:
  assumes "log_election_inv c" and "index_inv c" and "i < length (nodes c)"
  shows "doTick i c = Some c' \<Longrightarrow> kept c c'" "doSelect i ch c = Some c' \<Longrightarrow> kept c c'"
    "doSolicit i c = Some c' \<Longrightarrow> kept c c'" "doBroadcast i c = Some c' \<Longrightarrow> kept c c'"
proof -
  let ?rf = "nodes c ! i"
  note ok = index_invD(1) [OF assms(2,3)] and log = cluster_logs [OF assms(1,3)]
  show "doTick i c = Some c' \<Longrightarrow> kept c c'"
    by (cases "tickTop ?rf")
       (auto simp: doTick_def Let_def kept_def intro!: index_inv_step [OF assms(2)] tickTop_indices [OF _ ok] split: if_splits)
  show "doSelect i ch c = Some c' \<Longrightarrow> kept c c'"
    by (auto simp: doSelect_def kept_def intro!: index_inv_step [OF assms(2)] tickSelect_indices [OF _ ok])
  show "doSolicit i c = Some c' \<Longrightarrow> kept c c'"
    using ok log(2) by (auto simp: doSolicit_def Let_def kept_def split: list.splits dest!: crashes_finish
      intro!: index_inv_step [OF assms(2)] solicitVotes_safe)
  show "kept c c'" if "doBroadcast i c = Some c'"
  proof -
    let ?rf' = "?rf\<lparr>broadcasts := broadcasts ?rf - 1\<rparr>"
    have "\<not> crashes (broadcastHeartbeat ?rf')" using ok log(1) by (intro broadcastHeartbeat_safe) simp_all
    with that show ?thesis using ok
      by (auto simp: doBroadcast_def Let_def kept_def split: if_splits dest!: crashes_finish intro!: index_inv_step [OF assms(2)])
  qed
qed

lemma submit_index_step:
  assumes "log_election_inv c" and "index_inv c" and "i < length (nodes c)" and "doSubmit i cmd c = Some c'"
  shows "kept c c'"
proof -
  have l: "log_inv c" and e: "election_inv c" using assms(1) by (simp_all add: log_election_inv_def)
  from crashes_finish [OF assms(4) [unfolded doSubmit_def]] Start_safe [OF cluster_logs(2) [OF assms(1,3)]]
  obtain rf k tm ld where 1: "Start cmd (nodes c ! i) = Inr (rf, k, tm, ld)"
    "nodes c' = (nodes c)[i := rf]" "net c' = net c" "failed c' = failed c"
    by (fastforce simp: Let_def)
  have "indices_ok rf" using Start_indices [OF 1(1) index_invD(1) [OF assms(2,3)]] .
  with 1 show ?thesis
    using index_inv_step [OF assms(2) 1(2) _ submit_hext [OF l e assms(3,4)]] by (simp add: kept_def)
qed

lemma append_index_step:
  assumes "log_election_inv c" and "index_inv c" and "j < length (nodes c)" and "carries (hist c) i a"
    and "doPacket (AppReq i j a) (c\<lparr>net := ps\<rparr>) = Some c'" and "log_election_inv c'" and "set ps \<subseteq> set (net c)"
  shows "kept c c'"
proof -
  note base = cluster_logs [OF assms(1,3)] and ok = index_invD(1) [OF assms(2,3)]
  have l: "log_inv c" using assms(1) by (simp add: log_election_inv_def)
  obtain k where k: "PrevLogIdx a = int k" using assms(4) by (auto simp: carries_def)
  from assms(5) AppendEntries_safe(1) [OF base(1) k] obtain rf r where 1: "AppendEntries a (nodes c ! j) = Inr (rf, r)"
      "nodes c' = (nodes c)[j := rf]" "net c' = ps @ [AppRep i j a r]" "failed c' = failed c" "hist c' = hist c"
    by (fastforce simp: doPacket_def dest!: crashes_finish)
  have j': "j < length (nodes c')" "nodes c' ! j = rf" using 1(2) assms(3) by simp_all
  have "state (nodes c ! j) = LEADER \<and> rlog rf = rlog (nodes c ! j)" if "state rf = LEADER"
    using that AppendEntries_quiet [OF 1(1)] base(5) cluster_logs(5) [OF assms(6) j'(1)] 1(5) j'(2)
    by (auto simp: quiet_def)
  then have "indices_ok rf"
    using AppendEntries_indices [OF 1(1) base(1) _ ok k] cluster_logs(1) [OF assms(6) j'(1)] j'(2) by simp
  then have "index_inv c'" using 1 append_reply_ok [OF l assms(4) base(1) 1(1)] assms(7)
    by (intro index_inv_step [OF assms(2) 1(2)]) auto
  with 1(4) show ?thesis by (simp add: kept_def)
qed

lemma packet_index_step:
  assumes "log_election_inv c" and "index_inv c" and "net c = ps @ p # qs" and "doPacket p (c\<lparr>net := ps @ qs\<rparr>) = Some c'"
    and "log_election_inv c'" and "hext (hist c) (hist c')"
  shows "kept c c'"
proof -
  let ?c = "c\<lparr>net := ps @ qs\<rparr>"
  have l: "log_inv c" and e: "election_inv c" using assms(1) by (simp_all add: log_election_inv_def)
  have p: "p \<in> set (net c)" using assms(3) by simp
  have pk: "packet_ok (length (nodes c)) (hist c) p" using e assms(3) by (rule packet_okD)
  have ap: "appends_ok (hist c) p" using log_invD(4) [OF l p] .
  have rp: "replies_ok (hist c) p" using index_invD(2) [OF assms(2) p] .
  have step: "kept c c'" if "nodes c' = (nodes c)[i := rf']" "indices_ok rf'" "failed c' = failed c"
      "\<And>q. q \<in> set (net c') \<Longrightarrow> q \<notin> set (net c) \<Longrightarrow> replies_ok (hist c') q" for i rf'
    using index_inv_step [OF assms(2) that(1,2) assms(6) that(4)] that(3) by (simp add: kept_def)
  note base = cluster_logs [OF assms(1)] and ok = index_invD(1) [OF assms(2)]
  show ?thesis
  proof (cases p)
    case (VoteReq i j a)
    with pk have j: "j < length (nodes c)" by simp
    from assms(4) RequestVote_safe [OF base(2) [OF j], of a] obtain rf r where 1: "RequestVote a (nodes c ! j) = Inr (rf, r)"
        "c' = (setNode j rf ?c)\<lparr>net := net ?c @ [VoteRep i j a r], hist := recordVote j a r (hist c)\<rparr>"
      by (fastforce simp: VoteReq doPacket_def dest!: crashes_finish)
    then show ?thesis using RequestVote_indices [OF 1(1) ok [OF j]] assms(3) by (intro step [of j rf]) auto
  next
    case (VoteRep i j a r)
    with pk have i: "i < length (nodes c)" by simp
    have "\<not> crashes (sendRequestVote True a r (nodes c ! i))"
      using base(2) [OF i] ok [OF i] by (intro sendRequestVote_safe) (simp_all add: indices_ok_def)
    with assms(4) obtain rf where 1: "sendRequestVote True a r (nodes c ! i) = Inr rf"
        "nodes c' = (nodes c)[i := rf]" "net c' = ps @ qs" "failed c' = failed c"
      by (auto simp: VoteRep doPacket_def Let_def dest!: crashes_finish split: if_splits)
    then show ?thesis using sendRequestVote_indices [OF 1(1) base(1) [OF i] ok [OF i]] assms(3) by (intro step [of i rf]) auto
  next
    case (AppReq i j a)
    with assms(4) have d: "doPacket (AppReq i j a) (c\<lparr>net := ps @ qs\<rparr>) = Some c'" by simp
    show ?thesis by (rule append_index_step [OF assms(1,2) _ _ d assms(5)]) (use AppReq pk ap assms(3) in auto)
  next
    case (AppRep i j a r)
    with pk rp have i: "i < length (nodes c)" "j < length (nodes c)" and r: "reply_in (length (tlog (hist c) (ae_Term a))) a r" by simp_all
    have "\<exists>rf'. sendAppendEntries True j a r (nodes c ! i) = Inr rf' \<and> indices_ok rf'"
      using base [OF i(1)] i(2) r by (intro sendAppendEntries_safe ok i) simp_all
    then obtain rf where "sendAppendEntries True j a r (nodes c ! i) = Inr rf" "indices_ok rf" by blast
    then show ?thesis using assms(3,4) by (intro step [of i rf]) (auto simp: AppRep doPacket_def finish_def)
  qed
qed

text \<open>One step: the invariant is kept, and only an applier can fail.\<close>

lemma apply_index_step:
  assumes "log_election_inv c" and "index_inv c" and "i < length (nodes c)" and "doApply i c = Some c'"
  shows "index_inv c'" "failed c' \<noteq> failed c \<Longrightarrow>
    failed c' = Some IndexOutOfRange \<and> int (length (rlog (nodes c ! i))) \<le> commitIdx (nodes c ! i)"
proof -
  let ?rf = "(nodes c ! i)\<lparr>appliers := appliers (nodes c ! i) - 1\<rparr>"
  have fin: "finish c (applyCommitted ?rf) (\<lambda>rf'. setNode i rf' c) = Some c'"
    using assms(4) by (auto simp: doApply_def Let_def split: if_splits)
  have ok: "indices_ok ?rf" and base: "base_ok (rlog ?rf)"
    using index_invD(1) [OF assms(2,3)] cluster_logs(1) [OF assms(1,3)] by simp_all
  have fail: "e = IndexOutOfRange \<and> int (length (rlog ?rf)) \<le> commitIdx ?rf" if "applyCommitted ?rf = Inl e" for e
    using applyCommitted_safe [OF base _ that] ok by (simp add: indices_ok_def)
  show "index_inv c'" using fin
  proof (cases rule: finish_cases)
    case (1 rf)
    then show ?thesis using applyCommitted_indices [OF 1(1) ok] by (intro index_inv_step [OF assms(2)]) auto
  qed (use assms(2) in \<open>simp add: index_inv_def\<close>)
  show "failed c' = Some IndexOutOfRange \<and> int (length (rlog (nodes c ! i))) \<le> commitIdx (nodes c ! i)"
    if "failed c' \<noteq> failed c"
    using fin that fail by (cases "applyCommitted ?rf") (auto simp: finish_def split: if_splits)
qed

lemma timely_hext:
  assumes "timely_act a c = Some c'" and "log_election_inv c"
  shows "hext (hist c) (hist c')"
proof -
  have l: "log_inv c" and e: "election_inv c" using assms(2) by (simp_all add: log_election_inv_def)
  have s: "cluster_step a c = Some c'" using assms(1) by (auto simp: timely_act_def cluster_act_def split: if_splits)
  show ?thesis
  proof (cases a)
    case (Deliver k)
    then show ?thesis using s packet_hext [OF l e nth_mem _ owner_stays [OF assms(1) e]]
      by (auto simp: cluster_step_def removePacket_def split: if_splits)
  next
    case (Submit i cmd)
    then show ?thesis using s submit_hext [OF l e] by (auto simp: cluster_step_def split: if_splits)
  next
    case (Apply i)
    then show ?thesis using s by (auto simp: cluster_step_def doApply_def Let_def elim!: finish_cases split: if_splits)
  qed (use s in \<open>auto simp: cluster_step_def doTick_def doSelect_def doSolicit_def doBroadcast_def doRestart_def
      removePacket_def Let_def elim!: finish_cases split: if_splits option.splits list.splits\<close>)
qed

lemma timely_index_step:
  assumes "timely_act a c = Some c'" and "log_election_inv c" and "index_inv c"
  shows "index_inv c'" "failed c' \<noteq> None \<Longrightarrow> \<exists>i < length (nodes c). a = Apply i \<and>
    failed c' = Some IndexOutOfRange \<and> int (length (rlog (nodes c ! i))) \<le> commitIdx (nodes c ! i)"
proof -
  have s: "cluster_step a c = Some c'" and nr: "\<And>i. a \<noteq> Restart i" and f: "failed c = None"
    using assms(1) by (auto simp: timely_act_def cluster_act_def timely_def split: if_splits)
  have c': "log_election_inv c'" using rlogs.act_inv [OF assms(1,2)] .
  have "kept c c' \<or> (\<exists>i < length (nodes c). a = Apply i \<and> doApply i c = Some c')"
  proof (cases a)
    case (Deliver k)
    then have "k < length (net c)" "doPacket (net c ! k) (c\<lparr>net := take k (net c) @ drop (Suc k) (net c)\<rparr>) = Some c'"
      using s by (auto simp: cluster_step_def removePacket_def split: if_splits)
    then show ?thesis using packet_index_step [OF assms(2,3) id_take_nth_drop _ c' timely_hext [OF assms(1,2)]] by blast
  next
    case (Drop k)
    then have "c' = c\<lparr>net := take k (net c) @ drop (Suc k) (net c)\<rparr>"
      using s by (auto simp: cluster_step_def removePacket_def split: if_splits)
    moreover have "set (take k (net c) @ drop (Suc k) (net c)) \<subseteq> set (net c)" by (auto dest: in_set_takeD in_set_dropD)
    ultimately show ?thesis using assms(3) by (auto simp: kept_def index_inv_def)
  qed (use s nr local_index_steps [OF assms(2,3)] submit_index_step [OF assms(2,3)] in \<open>auto simp: cluster_step_def split: if_splits\<close>)
  then show "index_inv c'" "failed c' \<noteq> None \<Longrightarrow> \<exists>i < length (nodes c). a = Apply i \<and>
      failed c' = Some IndexOutOfRange \<and> int (length (rlog (nodes c ! i))) \<le> commitIdx (nodes c ! i)"
    using apply_index_step [OF assms(2,3)] f by (auto simp: kept_def)
qed

section \<open>Where a cluster can panic\<close>

definition index_log_inv :: "'c cluster \<Rightarrow> bool" where
  "index_log_inv c \<longleftrightarrow> log_election_inv c \<and> index_inv c"

lemma initial_indices: "index_inv (cluster_init n :: 'c cluster)"
proof -
  have "indices_ok (Make n i MakePersister :: 'c Raft)" for i
    by (simp add: indices_ok_def Make_def Let_def persist_def readPersist_def ReadRaftState_def MakePersister_def)
  then show ?thesis by (simp add: index_inv_def cluster_init_def)
qed

interpretation rindices: machine_invariant "\<lambda>c. c = cluster_init n" timely_act index_log_inv for n
proof unfold_locales
  show "c = cluster_init n \<Longrightarrow> index_log_inv c" for c
    by (simp add: index_log_inv_def initial_indices rlogs.start_inv)
  show "timely_act a s = Some t \<Longrightarrow> index_log_inv s \<Longrightarrow> index_log_inv t" for a s t
    by (auto simp: index_log_inv_def intro: rlogs.act_inv timely_index_step(1))
qed

text \<open>
  C11. The handlers of a cluster do not panic.  In a run without restarts and with timely vote solicitation, with calls
  lost, delayed and reordered in any way, a peer that leads has an index for every peer and each lies within its log
  or just after it.  Hence no RPC handler, no handling of a reply, no broadcast, no solicitation and no \<open>Start\<close> ever panics on
  an index or slice expression: the only step of such a cluster that can panic is an applier's, with an index out of
  range, and only at a peer whose commit index is beyond the end of its log.
\<close>

theorem raft_handlers_never_panic:
  assumes "reach (\<lambda>c. c = cluster_init n) (act_step timely_act) c"
  shows "(\<forall>i < length (nodes c). state (nodes c ! i) = LEADER \<longrightarrow> length (nextIdx (nodes c ! i)) = length (nodes c) \<and>
      (\<forall>x \<in> set (nextIdx (nodes c ! i)). 0 \<le> x \<and> x \<le> int (length (rlog (nodes c ! i))))) \<and>
    (\<forall>a c'. timely_act a c = Some c' \<longrightarrow> failed c' \<noteq> None \<longrightarrow> (\<exists>i < length (nodes c). a = Apply i \<and>
      failed c' = Some IndexOutOfRange \<and> int (length (rlog (nodes c ! i))) \<le> commitIdx (nodes c ! i)))"
proof -
  have inv: "log_election_inv c" "index_inv c" using rindices.reach_inv [OF assms] by (simp_all add: index_log_inv_def)
  have "length (nextIdx (nodes c ! i)) = length (nodes c) \<and>
      (\<forall>x \<in> set (nextIdx (nodes c ! i)). 0 \<le> x \<and> x \<le> int (length (rlog (nodes c ! i))))"
    if "i < length (nodes c)" "state (nodes c ! i) = LEADER" for i
    using index_invD(1) [OF inv(2) that(1)] cluster_logs(3) [OF inv(1) that(1)] that(2) by (simp add: indices_ok_def)
  with timely_index_step(2) [OF _ inv] show ?thesis by blast
qed

text \<open>The leader of the run of the stale call has both followers' indices within its log, and the applier of the peer whose
  committed entry was cut is the step that panics.\<close>

theorem raft_handlers_never_panic_witness:
  "\<exists>c c'. run timely_act (stale_run @ [Deliver 0]) (cluster_init 3) = Some c \<and> timely_act (Apply 2) c = Some c' \<and>
     failed c' = Some IndexOutOfRange \<and> int (length (rlog (nodes c ! 2))) \<le> commitIdx (nodes c ! 2) \<and>
     (\<forall>x \<in> set (nextIdx (nodes c ! 0)). 0 \<le> x \<and> x \<le> int (length (rlog (nodes c ! 0))))"
proof -
  have "map_option (\<lambda>c. (length (nodes c), state (nodes c ! 0), map_option failed (timely_act (Apply 2) c)))
      (run timely_act (stale_run @ [Deliver 0]) (cluster_init 3)) = Some (3, LEADER, Some (Some IndexOutOfRange))"
    unfolding stale_run_def win_run_def by code_simp
  then obtain c c' where c: "run timely_act (stale_run @ [Deliver 0]) (cluster_init 3) = Some c" "length (nodes c) = 3"
      "state (nodes c ! 0) = LEADER" "timely_act (Apply 2) c = Some c'" "failed c' = Some IndexOutOfRange" by auto
  note np = raft_handlers_never_panic [OF run_from [OF c(1)]]
  have "\<forall>x \<in> set (nextIdx (nodes c ! 0)). 0 \<le> x \<and> x \<le> int (length (rlog (nodes c ! 0)))"
    using conjunct1 [OF np, rule_format, of 0] c(2,3) by simp
  moreover have "int (length (rlog (nodes c ! 2))) \<le> commitIdx (nodes c ! 2)"
    using conjunct2 [OF np, rule_format, OF c(4)] c(5) by auto
  ultimately show ?thesis using c by blast
qed

section \<open>A stale \<open>matchIdx\<close>\<close>

text \<open>Five peers.  Peer 0 leads term 1 and replicates two commands to peer 1; peer 2 leads term 2 and overwrites both
  logs; peer 0 leads term 3, appends a command and replicates it to peer 2 only.  Calls arrive in the order they were made.\<close>

definition first_lead :: "nat cact list" where
  "first_lead = [Tick 0, Select 0 ChooseTimeout, Tick 0, Solicit 0, Deliver 0, Deliver 3, Deliver 0, Deliver 2, Drop 0, Drop 0,
     Select 0 ChooseWin, Submit 0 7, Submit 0 8, Tick 0, Broadcast 0, Deliver 0, Deliver 3, Drop 0, Drop 0, Drop 0]"

definition second_lead :: "nat cact list" where
  "second_lead = [Tick 2, Select 2 ChooseTimeout, Tick 2, Solicit 2, Drop 0, Drop 0, Deliver 0, Deliver 1, Deliver 0, Deliver 0,
     Select 2 ChooseWin, Submit 2 9, Tick 2, Broadcast 2, Deliver 0, Deliver 0, Drop 0, Drop 0, Drop 0, Drop 0]"

definition third_lead :: "nat cact list" where
  "third_lead = [Select 0 ChoosePersist, Tick 0, Select 0 ChooseTimeout, Tick 0, Solicit 0, Drop 0, Drop 0,
     Deliver 0, Deliver 1, Deliver 0, Deliver 0, Select 0 ChooseWin, Submit 0 10, Tick 0, Broadcast 0,
     Deliver 1, Deliver 3, Apply 0, Drop 0, Drop 0, Drop 0]"

text \<open>Then peer 1 leads term 4 and commits another command at the same index.\<close>

definition fourth_lead :: "nat cact list" where
  "fourth_lead = [Tick 1, Select 1 ChooseTimeout, Tick 1, Solicit 1, Drop 0, Drop 0, Drop 0, Drop 0, Select 1 ChooseTimeout,
     Tick 1, Select 1 ChooseTimeout, Tick 1, Solicit 1, Drop 0, Drop 0, Deliver 0, Deliver 1, Deliver 0, Deliver 0,
     Select 1 ChooseWin, Submit 1 11, Tick 1, Broadcast 1, Deliver 2, Deliver 3, Deliver 2, Deliver 2, Drop 0, Drop 0,
     Select 1 ChoosePersist, Tick 1, Broadcast 1, Deliver 2, Deliver 3, Deliver 2, Deliver 2, Apply 1]"

definition stale_match_run :: "nat cact list" where
  "stale_match_run = first_lead @ second_lead @ third_lead"

text \<open>
  C39. A stale \<open>matchIdx\<close> commits an entry a minority holds.  \<open>sendRequestVote\<close> resets \<open>nextIdx\<close> when an election is
  won, but not \<open>matchIdx\<close>: a peer that leads again still counts the positions its followers had in its former term.
  In a cluster of five, without a restart, with timely solicitation and with calls that arrive in order, the leader of term
  3 commits and applies an entry that only two logs hold, and the leader of term 4 then applies a different command
  at the same index.
\<close>

theorem stale_match_breaks_safety:
  "(\<exists>c. run timely_act stale_match_run (cluster_init 5) = Some c \<and> failed c = None \<and>
      map (\<lambda>m. (CommandIndex m, am_Command m)) (cApplyMsg (nodes c ! 0)) = [(1, Some 9), (2, Some 10)] \<and>
      map (map le_Command \<circ> rlog) (nodes c) =
        [[None, Some 9, Some 10], [None, Some 9], [None, Some 9, Some 10], [None], [None]]) \<and>
   (\<exists>c. run timely_act (stale_match_run @ fourth_lead) (cluster_init 5) = Some c \<and> failed c = None \<and>
      map (map (\<lambda>m. (CommandIndex m, am_Command m)) \<circ> cApplyMsg) (nodes c) =
        [[(1, Some 9), (2, Some 10)], [(1, Some 9), (2, Some 11)], [], [], []])"
proof -
  have "map_option (\<lambda>c. (failed c, map (\<lambda>m. (CommandIndex m, am_Command m)) (cApplyMsg (nodes c ! 0)),
        map (map le_Command \<circ> rlog) (nodes c))) (run timely_act stale_match_run (cluster_init 5)) =
      Some (None, [(1, Some 9), (2, Some 10)],
        [[None, Some 9, Some 10], [None, Some 9], [None, Some 9, Some 10], [None], [None]])"
    unfolding stale_match_run_def first_lead_def second_lead_def third_lead_def by code_simp
  moreover have "map_option (\<lambda>c. (failed c, map (map (\<lambda>m. (CommandIndex m, am_Command m)) \<circ> cApplyMsg) (nodes c)))
      (run timely_act (stale_match_run @ fourth_lead) (cluster_init 5)) =
      Some (None, [[(1, Some 9), (2, Some 10)], [(1, Some 9), (2, Some 11)], [], [], []])"
    unfolding stale_match_run_def first_lead_def second_lead_def third_lead_def fourth_lead_def by code_simp
  ultimately show ?thesis by auto
qed

end
