(* ===== verification/RaftSpec.thy ===== *)
theory RaftSpec
  imports RaftCluster
begin

text \<open>
  An abstract specification of the replicated log of \<^verbatim>\<open>lab3/raft/raft.go\<close>: peers with a term and a log, for every
  term its leader, the log it started with and the log it has, who has stored how much of which leader's log,
  and the logs the voters had when they voted.  There are no messages.  Its invariant gives
  leader completeness, and with it that committed entries agree.  \<open>RaftRefine\<close> shows that the cluster implements it.
\<close>

section \<open>The specification\<close>

record 'c spec =
  sterm :: "nat \<Rightarrow> int"
  slog :: "nat \<Rightarrow> 'c LogElement list"
  sowner :: "int \<Rightarrow> nat option"
  stlog :: "int \<Rightarrow> 'c LogElement list"
  selog :: "int \<Rightarrow> 'c LogElement list"
  sacks :: "(nat \<times> int \<times> nat) set"
  svotes :: "(nat \<times> int \<times> nat \<times> 'c LogElement list) set"

text \<open>The comparison of \<open>RequestVote\<close>, on whole logs.\<close>

definition log_ge :: "'c LogElement list \<Rightarrow> 'c LogElement list \<Rightarrow> bool" where
  "log_ge m l \<longleftrightarrow> le_Term (last m) > le_Term (last l) \<or> le_Term (last m) = le_Term (last l) \<and> length m \<ge> length l"

inductive spec_step :: "nat \<Rightarrow> 'c spec \<Rightarrow> 'c spec \<Rightarrow> bool" for N where
  spec_term: "sterm s j \<le> u \<Longrightarrow> spec_step N s (s\<lparr>sterm := (sterm s)(j := u)\<rparr>)"
| spec_vote: "sterm s j \<le> u \<Longrightarrow> sowner s u = None \<Longrightarrow>
    spec_step N s (s\<lparr>sterm := (sterm s)(j := u), svotes := insert (j, u, i, slog s j) (svotes s)\<rparr>)"
| spec_win: "sterm s i = u \<Longrightarrow> 1 \<le> u \<Longrightarrow> sowner s u = None \<Longrightarrow> majority N Q \<Longrightarrow>
    \<forall>v \<in> Q. \<exists>l. (v, u, i, l) \<in> svotes s \<and> log_ge (slog s i) l \<Longrightarrow>
    spec_step N s (s\<lparr>sowner := (sowner s)(u := Some i), stlog := (stlog s)(u := slog s i), selog := (selog s)(u := slog s i)\<rparr>)"
| spec_append: "sterm s i = u \<Longrightarrow> sowner s u = Some i \<Longrightarrow> le_Term e = u \<Longrightarrow>
    spec_step N s (s\<lparr>slog := (slog s)(i := slog s i @ [e]), stlog := (stlog s)(u := slog s i @ [e])\<rparr>)"
| spec_accept: "sterm s j \<le> u \<Longrightarrow> sowner s u = Some i \<Longrightarrow> i \<noteq> j \<Longrightarrow> length (selog s u) \<le> n \<Longrightarrow> n \<le> length (stlog s u) \<Longrightarrow>
    \<forall>m. (j, u, m) \<in> sacks s \<longrightarrow> m \<le> n \<Longrightarrow>
    spec_step N s (s\<lparr>sterm := (sterm s)(j := u), slog := (slog s)(j := take n (stlog s u)), sacks := insert (j, u, n) (sacks s)\<rparr>)"

text \<open>Peer \<open>j\<close> has stored the first \<open>n\<close> entries of the log of term \<open>t\<close>.\<close>

definition acked :: "'c spec \<Rightarrow> nat \<Rightarrow> int \<Rightarrow> nat \<Rightarrow> bool" where
  "acked s j t n \<longleftrightarrow> (\<exists>m. (j, t, m) \<in> sacks s \<and> n \<le> m) \<or> sowner s t = Some j \<and> n \<le> length (stlog s t)"

text \<open>The first \<open>n\<close> entries of term \<open>t\<close> are committed: a majority has stored them, and the last of them is of that term.\<close>

definition committed :: "nat \<Rightarrow> 'c spec \<Rightarrow> int \<Rightarrow> nat \<Rightarrow> bool" where
  "committed N s t n \<longleftrightarrow> 0 < n \<and> n \<le> length (stlog s t) \<and> sowner s t \<noteq> None \<and> le_Term (stlog s t ! (n - 1)) = t \<and>
     (\<exists>Q. majority N Q \<and> (\<forall>j \<in> Q. acked s j t n))"

section \<open>The invariant\<close>

definition matched :: "'c spec \<Rightarrow> 'c LogElement list \<Rightarrow> bool" where
  "matched s l \<longleftrightarrow> l \<noteq> [] \<and> le_Term (l ! 0) = 0 \<and> (\<forall>k < length l. 0 < k \<longrightarrow>
     sowner s (le_Term (l ! k)) \<noteq> None \<and> take (Suc k) l = take (Suc k) (stlog s (le_Term (l ! k))))"

definition spec_log :: "'c spec \<Rightarrow> int \<Rightarrow> 'c LogElement list \<Rightarrow> bool" where
  "spec_log s u l \<longleftrightarrow> matched s l \<and> sorted (map le_Term l) \<and> (\<forall>e \<in> set l. le_Term e \<le> u)"

text \<open>A log that held the first \<open>n\<close> entries of term \<open>t\<close> still does, unless a leader of a term in between started without them.\<close>

definition keeps :: "'c spec \<Rightarrow> int \<Rightarrow> nat \<Rightarrow> 'c LogElement list \<Rightarrow> int \<Rightarrow> bool" where
  "keeps s t n l u \<longleftrightarrow> take n l = take n (stlog s t) \<or>
     (\<exists>w. t < w \<and> w < u \<and> sowner s w \<noteq> None \<and> take n (selog s w) \<noteq> take n (stlog s t))"

definition leader_log :: "nat \<Rightarrow> 'c spec \<Rightarrow> int \<Rightarrow> nat \<Rightarrow> bool" where
  "leader_log N s t i \<longleftrightarrow> 1 \<le> t \<and> t \<le> sterm s i \<and> (t = sterm s i \<longrightarrow> slog s i = stlog s t) \<and> spec_log s t (stlog s t) \<and>
     selog s t \<noteq> [] \<and> (\<exists>es. stlog s t = selog s t @ es \<and> (\<forall>e \<in> set es. le_Term e = t)) \<and> (\<forall>e \<in> set (selog s t). le_Term e < t) \<and>
     (\<exists>Q. majority N Q \<and> (\<forall>v \<in> Q. \<exists>l. (v, t, i, l) \<in> svotes s \<and> log_ge (selog s t) l))"

definition spec_inv :: "nat \<Rightarrow> 'c spec \<Rightarrow> bool" where
  "spec_inv N s \<longleftrightarrow>
     (\<forall>j. 0 \<le> sterm s j \<and> spec_log s (sterm s j) (slog s j)) \<and>
     (\<forall>t i. sowner s t = Some i \<longrightarrow> leader_log N s t i) \<and>
     (\<forall>j u i l. (j, u, i, l) \<in> svotes s \<longrightarrow> u \<le> sterm s j \<and> spec_log s u l \<and> (\<forall>t n. t < u \<longrightarrow> acked s j t n \<longrightarrow> keeps s t n l u)) \<and>
     (\<forall>j t n. acked s j t n \<longrightarrow> sowner s t \<noteq> None \<and> n \<le> length (stlog s t) \<and> t \<le> sterm s j \<and> keeps s t n (slog s j) (sterm s j + 1))"

lemma spec_invD:
  assumes "spec_inv N s"
  shows "0 \<le> sterm s j" "spec_log s (sterm s j) (slog s j)" "sowner s t = Some i \<Longrightarrow> leader_log N s t i"
    "(j, u, i, l) \<in> svotes s \<Longrightarrow> u \<le> sterm s j \<and> spec_log s u l"
    "(j, u, i, l) \<in> svotes s \<Longrightarrow> t < u \<Longrightarrow> acked s j t n \<Longrightarrow> keeps s t n l u"
    "acked s j t n \<Longrightarrow> sowner s t \<noteq> None \<and> n \<le> length (stlog s t) \<and> t \<le> sterm s j"
    "acked s j t n \<Longrightarrow> keeps s t n (slog s j) (sterm s j + 1)"
  using assms unfolding spec_inv_def by blast+

section \<open>Leader completeness\<close>

text \<open>A log whose last entry is of term \<open>t\<close> is a piece of the log of that term.\<close>

lemma matched_last:
  assumes "matched s l" and "le_Term (last l) \<noteq> 0"
  shows "l = take (length l) (stlog s (le_Term (last l)))" "sowner s (le_Term (last l)) \<noteq> None"
proof -
  have ne: "l \<noteq> []" using assms(1) by (simp add: matched_def)
  then have last: "last l = l ! (length l - 1)" by (rule last_conv_nth)
  have k: "0 < length l - 1"
  proof (rule ccontr)
    assume "\<not> 0 < length l - 1"
    with last assms show False by (simp add: matched_def)
  qed
  moreover have "length l - 1 < length l" using ne by simp
  ultimately have "sowner s (le_Term (l ! (length l - 1))) \<noteq> None \<and>
      take (Suc (length l - 1)) l = take (Suc (length l - 1)) (stlog s (le_Term (l ! (length l - 1))))"
    using assms(1) unfolding matched_def by blast
  moreover have "Suc (length l - 1) = length l" using ne by (cases l) simp_all
  ultimately show "l = take (length l) (stlog s (le_Term (last l)))" "sowner s (le_Term (last l)) \<noteq> None"
    by (simp_all add: last)
qed

lemma spec_log_take:
  assumes "spec_log s u l" and "0 < n"
  shows "spec_log s u (take n l)"
proof -
  have "matched s (take n l)" using assms by (auto simp: spec_log_def matched_def min_absorb1)
  with assms(1) show ?thesis by (auto simp: spec_log_def take_map [symmetric] sorted_wrt_take dest: in_set_takeD)
qed

lemma sorted_last:
  assumes "sorted (map le_Term l)" and "k < length l"
  shows "le_Term (l ! k) \<le> le_Term (last l)"
  using assms sorted_nth_mono [of "map le_Term l" k "length l - 1"] by (cases "l = []") (auto simp: last_conv_nth)

text \<open>A log that holds an entry of term \<open>t\<close> at \<open>n - 1\<close> passes the comparison only against logs that hold it too.\<close>

lemma log_ge_contains:
  assumes l: "spec_log s u l" "take n l = take n (stlog s t)" "n \<le> length l" "0 < n" "le_Term (stlog s t ! (n - 1)) = t" "1 \<le> t"
    and m: "spec_log s u m" "log_ge m l" "\<forall>e \<in> set m. le_Term e < u"
    and hyp: "\<And>w. t < w \<Longrightarrow> w < u \<Longrightarrow> sowner s w \<noteq> None \<Longrightarrow> take n (stlog s w) = take n (stlog s t)"
    and srt: "\<And>w. sowner s w \<noteq> None \<Longrightarrow> sorted (map le_Term (stlog s w))"
  shows "take n m = take n (stlog s t)"
proof -
  have ln: "l ! (n - 1) = stlog s t ! (n - 1)" using l(2,4) by (metis diff_less nth_take zero_less_one)
  have "le_Term (l ! (n - 1)) \<le> le_Term (last l)" using l(1,3,4) by (intro sorted_last) (auto simp: spec_log_def)
  then have tl: "t \<le> le_Term (last l)" using ln l(5) by simp
  have m0: "le_Term (last m) \<noteq> 0" "le_Term (last l) \<noteq> 0" using tl l(6) m(2) by (auto simp: log_ge_def)
  note ml = matched_last [of s m] matched_last [of s l]
  have pm: "m = take (length m) (stlog s (le_Term (last m)))" "sowner s (le_Term (last m)) \<noteq> None"
    and pl: "l = take (length l) (stlog s (le_Term (last l)))"
    using ml m0 l(1) m(1) by (auto simp: spec_log_def)
  show ?thesis
  proof (cases "le_Term (last m) = le_Term (last l)")
    case True
    then have "length l \<le> length m" using m(2) by (simp add: log_ge_def)
    then have "n \<le> length m" using l(3) by simp
    then have "take n (take (length m) (stlog s (le_Term (last l)))) = take n (take (length l) (stlog s (le_Term (last l))))"
      using l(3) by (simp add: min_absorb1)
    with arg_cong [OF pm(1) [unfolded True], of "take n"] arg_cong [OF pl, of "take n"] have "take n m = take n l" by metis
    with l(2) show ?thesis by simp
  next
    case False
    define w where "w = le_Term (last m)"
    have mne: "m \<noteq> []" using m(1) by (simp add: spec_log_def matched_def)
    have w: "t < w" "w < u" using False m(2) tl m(3) mne by (auto simp: log_ge_def w_def)
    have eq: "take n (stlog s w) = take n (stlog s t)" using hyp w pm(2) by (simp add: w_def)
    have "n \<le> length m"
    proof (rule ccontr)
      assume "\<not> n \<le> length m"
      then have k: "length m - 1 \<le> n - 1" "n - 1 < length (take n (stlog s w))"
        using l(2-4) eq by (auto dest: arg_cong [of _ _ length])
      then have "le_Term (stlog s w ! (length m - 1)) \<le> le_Term (stlog s w ! (n - 1))"
        using sorted_nth_mono [OF srt, of w "length m - 1" "n - 1"] pm(2) by (simp add: w_def)
      moreover have "stlog s w ! (length m - 1) = last m"
      proof -
        have "stlog s w ! (length m - 1) = take (length m) (stlog s w) ! (length m - 1)" using mne by simp
        also have "take (length m) (stlog s w) = m" using pm(1) by (simp add: w_def)
        finally show ?thesis using mne by (simp add: last_conv_nth)
      qed
      moreover have "stlog s w ! (n - 1) = stlog s t ! (n - 1)" using eq l(4) by (metis diff_less nth_take zero_less_one)
      ultimately show False using w(1) l(5) by (simp add: w_def)
    qed
    then have "take n (take (length m) (stlog s w)) = take n (stlog s w)" by (simp add: min_absorb1)
    then have "take n m = take n (stlog s w)" using pm(1) by (simp add: w_def)
    with eq show ?thesis by simp
  qed
qed

theorem leader_completeness:
  assumes "spec_inv N s" and "committed N s t n" and "sowner s u \<noteq> None" and "t < u"
  shows "take n (selog s u) = take n (stlog s t)"
  using assms(3,4)
proof (induction "nat (u - t)" arbitrary: u rule: less_induct)
  case less
  have lead: "leader_log N s w k" if "sowner s w = Some k" for w k using spec_invD(3) [OF assms(1) that] .
  have elog: "n \<le> length (selog s w) \<and> take n (stlog s w) = take n (stlog s t)"
    if "take n (selog s w) = take n (stlog s t)" "sowner s w \<noteq> None" for w
  proof -
    have "n \<le> length (stlog s t)" using assms(2) by (simp add: committed_def)
    then have "n \<le> length (selog s w)" using arg_cong [OF that(1), of length] by simp
    with that lead show ?thesis by (fastforce simp: leader_log_def)
  qed
  from less.prems(1) obtain i where "sowner s u = Some i" by blast
  then have lu: "leader_log N s u i" by (rule lead)
  then obtain P where P: "majority N P" "\<forall>v \<in> P. \<exists>l. (v, u, i, l) \<in> svotes s \<and> log_ge (selog s u) l"
    by (auto simp: leader_log_def)
  obtain Q where Q: "majority N Q" "\<forall>j \<in> Q. acked s j t n" using assms(2) by (auto simp: committed_def)
  from maj.quorum_meet [OF P(1) Q(1)] P(2) Q(2) obtain v l where
    v: "(v, u, i, l) \<in> svotes s" "log_ge (selog s u) l" "acked s v t n" by blast
  have IH: "take n (selog s w) = take n (stlog s t)" if "t < w" "w < u" "sowner s w \<noteq> None" for w
    using less.hyps [of w] that by auto
  have hold: "take n l = take n (stlog s t)"
    using spec_invD(5) [OF assms(1) v(1) less.prems(2) v(3)] IH by (auto simp: keeps_def)
  have t: "1 \<le> t" "n \<le> length (stlog s t)" "0 < n" "le_Term (stlog s t ! (n - 1)) = t"
    using assms(2) lead by (auto simp: committed_def leader_log_def)
  have "selog s u = take (length (selog s u)) (stlog s u)" using lu by (auto simp: leader_log_def)
  with lu have el: "spec_log s u (selog s u)" "\<forall>e \<in> set (selog s u). le_Term e < u"
    using spec_log_take [of s u "stlog s u" "length (selog s u)"] by (auto simp: leader_log_def)
  have "n \<le> length l" using arg_cong [OF hold, of length] t(2) by simp
  moreover have "sorted (map le_Term (stlog s w))" if "sowner s w \<noteq> None" for w
    using that lead by (auto simp: leader_log_def spec_log_def)
  ultimately show ?case
    using log_ge_contains [OF _ hold _ t(3,4,1) el(1) v(2) el(2)] spec_invD(4) [OF assms(1) v(1)] elog IH by blast
qed

lemma committed_prefix:
  assumes "spec_inv N s" and "committed N s t n" and "sowner s u \<noteq> None" and "t \<le> u"
  shows "take n (stlog s u) = take n (stlog s t)"
proof (cases "t = u")
  case False
  obtain i where i: "sowner s u = Some i" using assms(3) by auto
  from spec_invD(3) [OF assms(1) i] obtain es where es: "stlog s u = selog s u @ es" by (auto simp: leader_log_def)
  have pre: "take n (selog s u) = take n (stlog s t)" using leader_completeness [OF assms(1-3)] assms(4) False by simp
  have "n \<le> length (stlog s t)" using assms(2) by (simp add: committed_def)
  then have "n \<le> length (selog s u)" using arg_cong [OF pre, of length] by simp
  then show ?thesis using pre by (simp add: es)
qed simp

text \<open>Two committed pieces agree where both reach.\<close>

lemma committed_agree:
  assumes "spec_inv N s" and "committed N s t n" and "committed N s t' n'" and "k < n" and "k < n'"
  shows "stlog s t ! k = stlog s t' ! k"
proof -
  have own: "sowner s t \<noteq> None" "sowner s t' \<noteq> None" using assms(2,3) by (simp_all add: committed_def)
  consider "t \<le> t'" | "t' \<le> t" by linarith
  then show ?thesis
  proof cases
    case 1
    with committed_prefix [OF assms(1,2) own(2)] assms(4) show ?thesis by (metis nth_take)
  next
    case 2
    with committed_prefix [OF assms(1,3) own(1)] assms(5) show ?thesis by (metis nth_take)
  qed
qed

section \<open>Every step keeps the invariant\<close>

text \<open>Leaders stay, their logs grow and the logs they started with do not change.\<close>

definition spec_ext :: "'c spec \<Rightarrow> 'c spec \<Rightarrow> bool" where
  "spec_ext s s' \<longleftrightarrow> (\<forall>t i. sowner s t = Some i \<longrightarrow>
     sowner s' t = Some i \<and> selog s' t = selog s t \<and> (\<exists>xs. stlog s' t = stlog s t @ xs))"

lemma spec_ext_same: "sowner s' = sowner s \<Longrightarrow> selog s' = selog s \<Longrightarrow> stlog s' = stlog s \<Longrightarrow> spec_ext s s'"
  by (simp add: spec_ext_def)

lemma spec_ext_take:
  assumes "spec_ext s s'" and "sowner s t \<noteq> None" and "n \<le> length (stlog s t)"
  shows "take n (stlog s' t) = take n (stlog s t)"
  using assms by (fastforce simp: spec_ext_def)

lemma spec_log_ext:
  assumes "spec_log s u l" and "spec_ext s s'" and "u \<le> u'"
  shows "spec_log s' u' l"
proof -
  have "sowner s' (le_Term (l ! k)) \<noteq> None \<and> take (Suc k) l = take (Suc k) (stlog s' (le_Term (l ! k)))"
    if "k < length l" "0 < k" for k
  proof -
    let ?t = "le_Term (l ! k)"
    have m: "sowner s ?t \<noteq> None" "take (Suc k) l = take (Suc k) (stlog s ?t)"
      using assms(1) that by (auto simp: spec_log_def matched_def)
    have "length (take (Suc k) l) = length (take (Suc k) (stlog s ?t))" using m(2) by (rule arg_cong)
    then have "Suc k \<le> length (stlog s ?t)" using that(1) by simp
    with m spec_ext_take [OF assms(2) m(1)] assms(2) show ?thesis by (auto simp: spec_ext_def)
  qed
  with assms(1,3) show ?thesis by (fastforce simp: spec_log_def matched_def)
qed

lemma keeps_ext:
  assumes "keeps s t n l u" and "sowner s t \<noteq> None" and "n \<le> length (stlog s t)" and "spec_ext s s'" and "u \<le> u'"
  shows "keeps s' t n l u'"
proof -
  note tk = spec_ext_take [OF assms(4,2,3)]
  from assms(1) consider "take n l = take n (stlog s t)"
    | w where "t < w" "w < u" "sowner s w \<noteq> None" "take n (selog s w) \<noteq> take n (stlog s t)" by (auto simp: keeps_def)
  then show ?thesis
  proof cases
    case (2 w)
    then have "sowner s' w \<noteq> None \<and> selog s' w = selog s w" using assms(4) by (auto simp: spec_ext_def)
    with 2 assms(5) tk have "t < w \<and> w < u' \<and> sowner s' w \<noteq> None \<and> take n (selog s' w) \<noteq> take n (stlog s' t)" by simp
    then show ?thesis unfolding keeps_def by blast
  qed (simp add: keeps_def tk)
qed

text \<open>What a step has to show: about the leaders, the peer that moved, and what is new among votes and stored pieces.\<close>

lemma spec_inv_step:
  assumes inv: "spec_inv N s" and ext: "spec_ext s s'"
    and mono: "\<And>k. sterm s k \<le> sterm s' k" and other: "\<And>k. k \<noteq> j \<Longrightarrow> sterm s' k = sterm s k \<and> slog s' k = slog s k"
    and lead: "\<And>t i. sowner s' t = Some i \<Longrightarrow> leader_log N s' t i" and mine: "spec_log s' (sterm s' j) (slog s' j)"
    and votes: "\<And>k u i l. (k, u, i, l) \<in> svotes s' \<Longrightarrow> (k, u, i, l) \<in> svotes s \<or> u = sterm s' k \<and> spec_log s' u l \<and>
      (\<forall>t n. t < u \<longrightarrow> acked s' k t n \<longrightarrow> keeps s' t n l u)"
    and acks: "\<And>k t n. acked s' k t n \<Longrightarrow> acked s k t n \<or> k = j \<and> t = sterm s' j \<and> sowner s' t \<noteq> None \<and> n \<le> length (stlog s' t) \<and> sterm s j \<le> t"
    and kept: "\<And>t n. acked s' j t n \<Longrightarrow> keeps s' t n (slog s' j) (sterm s' j + 1)"
  shows "spec_inv N s'"
proof -
  have old: "sowner s' t \<noteq> None \<and> n \<le> length (stlog s' t) \<and> t \<le> sterm s' k" if "acked s k t n" for k t n
  proof -
    have o: "sowner s t \<noteq> None \<and> n \<le> length (stlog s t) \<and> t \<le> sterm s k" using spec_invD(6) [OF inv that] .
    then obtain i xs where "sowner s' t = Some i" "stlog s' t = stlog s t @ xs" using ext unfolding spec_ext_def by blast
    with o mono [of k] show ?thesis by auto
  qed
  have a: "sowner s' t \<noteq> None \<and> n \<le> length (stlog s' t) \<and> t \<le> sterm s' k \<and> keeps s' t n (slog s' k) (sterm s' k + 1)"
    if "acked s' k t n" for k t n
  proof (cases "k = j")
    case True
    with that acks [OF that] old [of k t n] kept show ?thesis by auto
  next
    case False
    with acks [OF that] have "acked s k t n" by simp
    with False other old keeps_ext [OF spec_invD(7) [OF inv] _ _ ext] spec_invD(6) [OF inv] show ?thesis by simp
  qed
  have v: "u \<le> sterm s' k \<and> spec_log s' u l \<and> (\<forall>t n. t < u \<longrightarrow> acked s' k t n \<longrightarrow> keeps s' t n l u)"
    if "(k, u, i, l) \<in> svotes s'" for k u i l
  proof (cases "(k, u, i, l) \<in> svotes s")
    case True
    note o = spec_invD(4) [OF inv True]
    have "keeps s' t n l u" if "t < u" "acked s' k t n" for t n
    proof -
      have "acked s k t n" using acks [OF that(2)] that(1) o by auto
      with spec_invD(5) [OF inv True that(1)] spec_invD(6) [OF inv] ext show ?thesis by (metis keeps_ext order_refl)
    qed
    with o ext mono [of k] show ?thesis by (auto intro: spec_log_ext)
  next
    case False
    with votes [OF that] show ?thesis by auto
  qed
  have l: "0 \<le> sterm s' k \<and> spec_log s' (sterm s' k) (slog s' k)" for k
    using spec_invD(1,2) [OF inv, of k] mono [of k] other [of k] mine ext
    by (cases "k = j") (auto intro: spec_log_ext)
  show ?thesis unfolding spec_inv_def using l lead v a by blast
qed

lemma leader_log_same:
  assumes "leader_log N s t i" and "sowner s t = Some i" and "spec_ext s s'" and "stlog s' t = stlog s t"
    and "svotes s \<subseteq> svotes s'" and "sterm s i \<le> sterm s' i" and "t = sterm s' i \<Longrightarrow> slog s' i = stlog s t"
  shows "leader_log N s' t i"
proof -
  have e: "selog s' t = selog s t" using assms(2,3) by (simp add: spec_ext_def)
  have "spec_log s' t (stlog s t)" using assms(1,3) by (auto simp: leader_log_def intro: spec_log_ext)
  moreover obtain Q where "majority N Q" "\<forall>v \<in> Q. \<exists>l. (v, t, i, l) \<in> svotes s' \<and> log_ge (selog s t) l"
    using assms(1,5) unfolding leader_log_def by (meson subsetD)
  ultimately show ?thesis using assms(1,4,6,7) unfolding leader_log_def e by force
qed

lemma spec_term_inv:
  assumes "spec_inv N s" and "sterm s j \<le> u"
  shows "spec_inv N (s\<lparr>sterm := (sterm s)(j := u)\<rparr>)" (is "spec_inv N ?s")
proof (rule spec_inv_step [OF assms(1), of _ j])
  show ext: "spec_ext s ?s" by (simp add: spec_ext_same)
  have a: "acked ?s k t n = acked s k t n" for k t n by (simp add: acked_def)
  show "leader_log N ?s t i" if "sowner ?s t = Some i" for t i
  proof (rule leader_log_same [OF spec_invD(3) [OF assms(1)] _ ext])
    from that spec_invD(3) [OF assms(1), of t i] assms(2)
    show "t = sterm ?s i \<Longrightarrow> slog ?s i = stlog s t" by (auto simp: leader_log_def split: if_splits)
  qed (use that assms(2) in auto)
  show "spec_log ?s (sterm ?s j) (slog ?s j)"
    using spec_invD(2) [OF assms(1), of j] ext assms(2) by (auto intro: spec_log_ext)
  show "keeps ?s t n (slog ?s j) (sterm ?s j + 1)" if "acked ?s j t n" for t n
    using that spec_invD(6,7) [OF assms(1), of j t n] ext assms(2) by (auto simp: a intro: keeps_ext)
qed (use assms(2) in \<open>auto simp: acked_def\<close>)

lemma spec_vote_inv:
  assumes "spec_inv N s" and "sterm s j = u" and "sowner s u = None"
  shows "spec_inv N (s\<lparr>svotes := insert (j, u, i, slog s j) (svotes s)\<rparr>)" (is "spec_inv N ?s")
proof (rule spec_inv_step [OF assms(1), of _ j])
  show ext: "spec_ext s ?s" by (simp add: spec_ext_same)
  have a: "acked ?s k t n = acked s k t n" for k t n by (simp add: acked_def)
  have kp: "keeps ?s t n l w = keeps s t n l w" for t n l w by (simp add: keeps_def)
  have lg: "spec_log ?s w l = spec_log s w l" for w l by (simp add: spec_log_def matched_def)
  show "leader_log N ?s t k" if "sowner ?s t = Some k" for t k
    by (rule leader_log_same [OF spec_invD(3) [OF assms(1)] _ ext])
       (use that spec_invD(3) [OF assms(1), of t k] in \<open>auto simp: leader_log_def\<close>)
  show "spec_log ?s (sterm ?s j) (slog ?s j)" using spec_invD(2) [OF assms(1), of j] by (simp add: lg)
  show "keeps ?s t n (slog ?s j) (sterm ?s j + 1)" if "acked ?s j t n" for t n
    using that spec_invD(7) [OF assms(1), of j t n] by (simp add: a kp)
  show "(k, w, x, l) \<in> svotes s \<or> w = sterm ?s k \<and> spec_log ?s w l \<and> (\<forall>t n. t < w \<longrightarrow> acked ?s k t n \<longrightarrow> keeps ?s t n l w)"
    if "(k, w, x, l) \<in> svotes ?s" for k w x l
  proof (cases "(k, w, x, l) \<in> svotes s")
    case False
    with that have k: "k = j" "w = u" "l = slog s j" by auto
    have "keeps s t n (slog s j) u" if "acked s j t n" for t n
      using spec_invD(7) [OF assms(1) that] assms(2,3) unfolding keeps_def by (metis order_le_less zless_add1_eq)
    with k assms(2) spec_invD(2) [OF assms(1), of j] show ?thesis by (simp add: a kp lg)
  qed simp
qed (auto simp: acked_def)

lemma spec_win_inv:
  assumes "spec_inv N s" and "sterm s i = u" and "1 \<le> u" and "sowner s u = None" and "majority N Q"
    and "\<forall>v \<in> Q. \<exists>l. (v, u, i, l) \<in> svotes s \<and> log_ge (slog s i) l"
  shows "spec_inv N (s\<lparr>sowner := (sowner s)(u := Some i), stlog := (stlog s)(u := slog s i), selog := (selog s)(u := slog s i)\<rparr>)"
    (is "spec_inv N ?s")
proof (rule spec_inv_step [OF assms(1), of _ i])
  show ext: "spec_ext s ?s" using assms(4) by (auto simp: spec_ext_def)
  have li: "spec_log s u (slog s i)" using spec_invD(2) [OF assms(1), of i] assms(2) by simp
  show mine: "spec_log ?s (sterm ?s i) (slog ?s i)" using spec_log_ext [OF li ext] assms(2) by simp
  have "le_Term e < u" if e: "e \<in> set (slog s i)" for e
  proof -
    from e obtain k where k: "k < length (slog s i)" "e = slog s i ! k" by (auto simp: in_set_conv_nth)
    have "le_Term e \<le> u" using li e by (simp add: spec_log_def)
    moreover have "le_Term e \<noteq> u" using li k assms(3,4) by (cases "k = 0") (auto simp: spec_log_def matched_def)
    ultimately show ?thesis by simp
  qed
  then have new: "leader_log N ?s u i"
    using mine assms(2,3,5,6) by (auto simp: leader_log_def spec_log_def matched_def)
  show "leader_log N ?s t k" if "sowner ?s t = Some k" for t k
  proof (cases "t = u")
    case False
    then show ?thesis
      by (intro leader_log_same [OF spec_invD(3) [OF assms(1)] _ ext])
         (use that spec_invD(3) [OF assms(1), of t k] in \<open>auto simp: leader_log_def\<close>)
  qed (use that new in simp)
  have a: "acked s k t n \<or> k = i \<and> t = u \<and> n \<le> length (slog s i)" if "acked ?s k t n" for k t n
    using that assms(4) spec_invD(6) [OF assms(1), of k t n] by (auto simp: acked_def split: if_splits)
  then show "acked s k t n \<or> k = i \<and> t = sterm ?s i \<and> sowner ?s t \<noteq> None \<and> n \<le> length (stlog ?s t) \<and> sterm s i \<le> t"
    if "acked ?s k t n" for k t n using a [OF that] assms(2) by auto
  show "keeps ?s t n (slog ?s i) (sterm ?s i + 1)" if "acked ?s i t n" for t n
    using a [OF that]
  proof
    assume "acked s i t n"
    with keeps_ext [OF spec_invD(7) [OF assms(1)] _ _ ext] spec_invD(6) [OF assms(1)] show ?thesis by simp
  qed (simp add: keeps_def)
qed auto

lemma spec_append_inv:
  assumes "spec_inv N s" and "sterm s i = u" and "sowner s u = Some i" and "le_Term e = u"
  shows "spec_inv N (s\<lparr>slog := (slog s)(i := slog s i @ [e]), stlog := (stlog s)(u := slog s i @ [e])\<rparr>)" (is "spec_inv N ?s")
proof (rule spec_inv_step [OF assms(1), of _ i])
  have ll: "leader_log N s u i" using spec_invD(3) [OF assms(1,3)] .
  then have eq: "stlog s u = slog s i" using assms(2) by (simp add: leader_log_def)
  show ext: "spec_ext s ?s" using eq by (auto simp: spec_ext_def)
  have li: "spec_log s u (slog s i)" using spec_invD(2) [OF assms(1), of i] assms(2) by simp
  then have l: "spec_log ?s u (slog s i)" using ext by (auto intro: spec_log_ext)
  have "matched ?s (slog s i @ [e])"
  proof -
    have "sowner ?s (le_Term ((slog s i @ [e]) ! k)) \<noteq> None \<and>
        take (Suc k) (slog s i @ [e]) = take (Suc k) (stlog ?s (le_Term ((slog s i @ [e]) ! k)))"
      if "k < length (slog s i @ [e])" "0 < k" for k
    proof (cases "k < length (slog s i)")
      case True
      with l that show ?thesis by (auto simp: spec_log_def matched_def nth_append)
    next
      case False
      with that have "k = length (slog s i)" by simp
      with assms(3,4) show ?thesis by (simp add: nth_append)
    qed
    moreover have "slog s i \<noteq> []" "le_Term (slog s i ! 0) = 0" using li by (auto simp: spec_log_def matched_def)
    ultimately show ?thesis by (auto simp: matched_def nth_append)
  qed
  then have new: "spec_log ?s u (slog s i @ [e])" using l assms(4) by (auto simp: spec_log_def sorted_append)
  then show "spec_log ?s (sterm ?s i) (slog ?s i)" using assms(2) by simp
  show "leader_log N ?s t k" if "sowner ?s t = Some k" for t k
  proof (cases "t = u")
    case True
    then have "k = i" using that assms(3) by simp
    then show ?thesis using True ll new assms(2,4) eq unfolding leader_log_def by auto
  next
    case False
    then show ?thesis
      by (intro leader_log_same [OF spec_invD(3) [OF assms(1)] _ ext])
         (use that assms(2) spec_invD(3) [OF assms(1), of t k] in \<open>auto simp: leader_log_def split: if_splits\<close>)
  qed
  have a: "acked s k t n \<or> k = i \<and> t = u \<and> n \<le> Suc (length (slog s i))" if "acked ?s k t n" for k t n
    using that assms(3) by (auto simp: acked_def split: if_splits)
  show "acked s k t n \<or> k = i \<and> t = sterm ?s i \<and> sowner ?s t \<noteq> None \<and> n \<le> length (stlog ?s t) \<and> sterm s i \<le> t"
    if "acked ?s k t n" for k t n using a [OF that] assms(2,3) by auto
  show "keeps ?s t n (slog ?s i) (sterm ?s i + 1)" if "acked ?s i t n" for t n
  proof (cases "t = u")
    case False
    with a [OF that] have o: "acked s i t n" by simp
    note d = spec_invD(6) [OF assms(1) o]
    have "take n (slog s i @ [e]) = take n (stlog s t)" if "take n (slog s i) = take n (stlog s t)"
    proof -
      have "length (take n (slog s i)) = length (take n (stlog s t))" using that by (rule arg_cong)
      then have "n \<le> length (slog s i)" using d by simp
      with that show ?thesis by simp
    qed
    then have "keeps s t n (slog s i @ [e]) (u + 1)"
      using spec_invD(7) [OF assms(1) o] assms(2) by (auto simp: keeps_def)
    then show ?thesis using keeps_ext [OF _ _ _ ext, of t n "slog s i @ [e]" "u + 1" "u + 1"] d assms(2) by simp
  qed (simp add: keeps_def)
qed auto

lemma spec_accept_inv:
  assumes "spec_inv N s" and "sterm s j \<le> u" and "sowner s u = Some i" and "i \<noteq> j"
    and "length (selog s u) \<le> n" and "n \<le> length (stlog s u)" and "\<forall>m. (j, u, m) \<in> sacks s \<longrightarrow> m \<le> n"
  shows "spec_inv N (s\<lparr>sterm := (sterm s)(j := u), slog := (slog s)(j := take n (stlog s u)), sacks := insert (j, u, n) (sacks s)\<rparr>)"
    (is "spec_inv N ?s")
proof (rule spec_inv_step [OF assms(1), of _ j])
  show ext: "spec_ext s ?s" by (simp add: spec_ext_same)
  have lu: "leader_log N s u i" using spec_invD(3) [OF assms(1,3)] .
  obtain es where es: "stlog s u = selog s u @ es" "selog s u \<noteq> []" using lu by (auto simp: leader_log_def)
  have "0 < n" using es(2) assms(5) by (cases "selog s u") simp_all
  then have "spec_log s u (take n (stlog s u))" using lu by (intro spec_log_take) (simp_all add: leader_log_def)
  then show "spec_log ?s (sterm ?s j) (slog ?s j)" using spec_log_ext [OF _ ext] by simp
  show "leader_log N ?s t k" if "sowner ?s t = Some k" for t k
  proof -
    have "leader_log N s t k" "k = j \<Longrightarrow> t \<noteq> u" using that spec_invD(3) [OF assms(1), of t k] assms(3,4) by auto
    then show ?thesis
      by (intro leader_log_same [OF _ _ ext]) (use that assms(2) in \<open>auto simp: leader_log_def split: if_splits\<close>)
  qed
  have a: "acked s k t m \<or> k = j \<and> t = u \<and> m \<le> n" if "acked ?s k t m" for k t m
    using that by (auto simp: acked_def)
  show "acked s k t m \<or> k = j \<and> t = sterm ?s j \<and> sowner ?s t \<noteq> None \<and> m \<le> length (stlog ?s t) \<and> sterm s j \<le> t"
    if "acked ?s k t m" for k t m using a [OF that] assms(2,3,6) by auto
  show "keeps ?s t m (slog ?s j) (sterm ?s j + 1)" if "acked ?s j t m" for t m
  proof (cases "t = u")
    case True
    then have "m \<le> n" using a [OF that] assms(3,4,7) by (auto simp: acked_def intro: order_trans)
    with True show ?thesis by (simp add: keeps_def min_absorb1)
  next
    case False
    with a [OF that] have o: "acked s j t m" by simp
    note d = spec_invD(6) [OF assms(1) o]
    have t: "t < u" using d assms(2) False by simp
    show ?thesis
    proof (cases "take m (selog s u) = take m (stlog s t)")
      case True
      have "length (take m (selog s u)) = length (take m (stlog s t))" using True by (rule arg_cong)
      then have "m \<le> length (selog s u)" using d by simp
      then have "take m (take n (stlog s u)) = take m (selog s u)" using assms(5) es(1) by (simp add: min_absorb1)
      with True show ?thesis by (simp add: keeps_def)
    next
      case False
      then show ?thesis using t assms(3) by (auto simp: keeps_def)
    qed
  qed
qed (use assms(2) in auto)

lemma spec_step_inv: "spec_step N s s' \<Longrightarrow> spec_inv N s \<Longrightarrow> spec_inv N s'"
proof (induction rule: spec_step.induct)
  case (spec_vote s j u i)
  then have "spec_inv N (s\<lparr>sterm := (sterm s)(j := u)\<rparr>)" by (simp add: spec_term_inv)
  from spec_vote_inv [OF this, of j u i] spec_vote.hyps(2) show ?case by simp
qed (auto intro: spec_term_inv spec_win_inv spec_append_inv spec_accept_inv)

definition spec_init :: "'c spec \<Rightarrow> bool" where
  "spec_init s \<longleftrightarrow> (\<forall>j. sterm s j = 0 \<and> slog s j = [\<lparr>le_Term = 0, le_Command = None, le_Index = 0\<rparr>]) \<and>
     sowner s = (\<lambda>_. None) \<and> sacks s = {} \<and> svotes s = {}"

interpretation rspec: inductive_invariant spec_init "spec_step N" "spec_inv N" for N
proof unfold_locales
  show "spec_init s \<Longrightarrow> spec_inv N s" for s :: "'c spec"
    by (simp add: spec_init_def spec_inv_def spec_log_def matched_def acked_def)
qed (rule spec_step_inv)

text \<open>What was stored or committed stays so.\<close>

lemma acked_mono:
  assumes "acked s j t n" and "spec_ext s s'" and "sacks s \<subseteq> sacks s'"
  shows "acked s' j t n"
  using assms by (fastforce simp: acked_def spec_ext_def)

lemma committed_mono:
  assumes "committed N s t n" and "spec_ext s s'" and "sacks s \<subseteq> sacks s'"
  shows "committed N s' t n"
proof -
  obtain i Q where c: "sowner s t = Some i" "0 < n" "n \<le> length (stlog s t)" "le_Term (stlog s t ! (n - 1)) = t" "majority N Q"
      "\<forall>j \<in> Q. acked s j t n" using assms(1) by (auto simp: committed_def)
  moreover obtain xs where "sowner s' t = Some i" "stlog s' t = stlog s t @ xs" using c(1) assms(2) unfolding spec_ext_def by blast
  ultimately show ?thesis using acked_mono [OF _ assms(2,3)] unfolding committed_def
    by (auto simp: nth_append)
qed

end
