(* ===== verification/RaftRefine.thy ===== *)
theory RaftRefine
  imports RaftIndices RaftSpec
begin

text \<open>
  The cluster of \<^verbatim>\<open>lab3/raft/raft.go\<close> implements the specification of \<open>RaftSpec\<close> in its orderly runs: no
  restart, votes are asked for in the term of their campaign, the calls of one leader to one follower arrive in the order they
  were made, and a peer that has learnt how far its followers are in one term does not lead another.  The proof is a forward
  simulation: \<open>link\<close> relates a cluster to a state of the specification, and every action of the cluster is
  a sequence of steps there.  \<open>RaftSafety\<close> draws the conclusions.
\<close>

section \<open>Orderly runs\<close>

fun isCall :: "nat \<Rightarrow> nat \<Rightarrow> 'c packet \<Rightarrow> bool" where
  "isCall i j (AppReq k m a) \<longleftrightarrow> k = i \<and> m = j"
| "isCall i j _ \<longleftrightarrow> False"

text \<open>The reply makes peer \<open>i\<close> a leader.\<close>

definition winsWith :: "RequestVoteArgs \<Rightarrow> RequestVoteReply \<Rightarrow> 'c Raft \<Rightarrow> bool" where
  "winsWith a r rf = (counts a r rf \<and> (case sendRequestVote True a r rf of Inr rf' \<Rightarrow> state rf' = LEADER | Inl e \<Rightarrow> False))"

definition orderly :: "'c cact \<Rightarrow> 'c cluster \<Rightarrow> bool" where
  "orderly a c = (timely a c \<and> (case a of
     Deliver k \<Rightarrow> if k < length (net c) then
       (case net c ! k of
          AppReq i j x \<Rightarrow> list_all (\<lambda>p. \<not> isCall i j p) (take k (net c))
        | VoteRep i j x r \<Rightarrow> winsWith x r (nodes c ! i) \<longrightarrow>
            owner (hist c) (currentTerm (nodes c ! i)) = Some i \<or> list_all (\<lambda>m. m = 0) (matchIdx (nodes c ! i))
        | _ \<Rightarrow> True) else True
   | _ \<Rightarrow> True))"

definition orderly_act :: "'c cact \<Rightarrow> 'c cluster \<Rightarrow> 'c cluster option" where
  "orderly_act a c = (if orderly a c then cluster_act a c else None)"

lemma orderly_timely: "orderly_act a c = Some c' \<Longrightarrow> timely_act a c = Some c'"
  by (simp add: orderly_act_def timely_act_def orderly_def split: if_splits)

lemma orderly_reach:
  "reach init (act_step orderly_act) c \<Longrightarrow> reach init (act_step timely_act) c"
  by (induction rule: reach.induct) (auto intro: reach_init reach_step act_stepI dest: orderly_timely elim!: act_stepE)

section \<open>The simulation relation\<close>

text \<open>How many entries of the leader's log a call reaches.\<close>

definition reached :: "'c AppendEntriesArgs \<Rightarrow> nat" where
  "reached a = Suc (nat (PrevLogIdx a) + length (Entries a))"

definition voted :: "'c spec \<Rightarrow> nat \<Rightarrow> nat \<Rightarrow> int \<Rightarrow> 'c LogElement list \<Rightarrow> bool" where
  "voted s v i u m \<longleftrightarrow> (\<exists>l. (v, u, i, l) \<in> svotes s \<and> log_ge m l)"

text \<open>Entry \<open>k\<close> of a log, and all before it, are committed by a term up to \<open>u\<close>.\<close>

definition sealed :: "nat \<Rightarrow> 'c spec \<Rightarrow> (int \<Rightarrow> bool) \<Rightarrow> nat \<Rightarrow> 'c LogElement list \<Rightarrow> bool" where
  "sealed N s P k l \<longleftrightarrow> (\<exists>t n. committed N s t n \<and> k < n \<and> P t \<and> take (Suc k) l = take (Suc k) (stlog s t))"

definition applied_ok :: "nat \<Rightarrow> 'c spec \<Rightarrow> 'c ApplyMsg \<Rightarrow> bool" where
  "applied_ok N s m \<longleftrightarrow> (\<exists>k t n. CommandIndex m = int k \<and> committed N s t n \<and> k < n \<and> am_Command m = le_Command (stlog s t ! k))"

definition node_link :: "nat \<Rightarrow> 'c history \<Rightarrow> 'c spec \<Rightarrow> nat \<Rightarrow> 'c Raft \<Rightarrow> bool" where
  "node_link N h s i rf \<longleftrightarrow>
     sterm s i = currentTerm rf \<and> slog s i = rlog rf \<and>
     (owner h (currentTerm rf) = None \<longrightarrow> camp h i = currentTerm rf \<longrightarrow>
        (\<forall>v \<in> insert i (set (counted h i)). voted s v i (currentTerm rf) (rlog rf))) \<and>
     (owner h (currentTerm rf) = Some i \<longrightarrow>
        (\<forall>j < N. j \<noteq> i \<longrightarrow> 0 < matchIdx rf ! j \<longrightarrow> acked s j (currentTerm rf) (Suc (nat (matchIdx rf ! j))))) \<and>
     (0 < commitIdx rf \<longrightarrow> sealed N s (\<lambda>t. t < currentTerm rf \<or> t = currentTerm rf \<and> acked s i t (Suc (nat (commitIdx rf))))
        (nat (commitIdx rf)) (rlog rf)) \<and>
     (\<forall>m \<in> set (cApplyMsg rf). applied_ok N s m)"

fun packet_link :: "nat \<Rightarrow> 'c Raft list \<Rightarrow> 'c history \<Rightarrow> 'c spec \<Rightarrow> 'c packet \<Rightarrow> bool" where
  "packet_link N ns h s (VoteReq i j a) \<longleftrightarrow> (rv_Term a = currentTerm (ns ! i) \<longrightarrow> owner h (rv_Term a) = None \<longrightarrow>
     LastLogIdx a = int (length (rlog (ns ! i))) - 1 \<and> LastLogTerm a = le_Term (last (rlog (ns ! i))))"
| "packet_link N ns h s (VoteRep i j a r) \<longleftrightarrow> (VoteGranted r \<longrightarrow> rv_Term a = currentTerm (ns ! i) \<longrightarrow> owner h (rv_Term a) = None \<longrightarrow>
     voted s j i (rv_Term a) (rlog (ns ! i)))"
| "packet_link N ns h s (AppReq i j a) \<longleftrightarrow> length (selog s (ae_Term a)) \<le> reached a \<and>
     (\<forall>n. (j, ae_Term a, n) \<in> sacks s \<longrightarrow> n \<le> reached a) \<and>
     (0 < LeaderCommit a \<longrightarrow> sealed N s (\<lambda>t. t \<le> ae_Term a) (nat (LeaderCommit a)) (tlog h (ae_Term a)))"
| "packet_link N ns h s (AppRep i j a r) \<longleftrightarrow> (Success r \<longrightarrow> (j, ae_Term a, reached a) \<in> sacks s)"

text \<open>Two calls of one leader to one follower in one term, in the order they were made.\<close>

fun inorder :: "'c packet \<Rightarrow> 'c packet \<Rightarrow> bool" where
  "inorder (AppReq i j a) (AppReq k m b) \<longleftrightarrow> (i = k \<longrightarrow> j = m \<longrightarrow> ae_Term a = ae_Term b \<longrightarrow> reached a \<le> reached b)"
| "inorder _ _ \<longleftrightarrow> True"

definition link :: "nat \<Rightarrow> 'c cluster \<Rightarrow> 'c spec \<Rightarrow> bool" where
  "link N c s \<longleftrightarrow> length (nodes c) = N \<and> sowner s = owner (hist c) \<and>
     (\<forall>t. owner (hist c) t \<noteq> None \<longrightarrow> stlog s t = tlog (hist c) t) \<and>
     (\<forall>j t i. (j, t, i) \<in> set (votes (hist c)) \<longrightarrow> 1 \<le> t) \<and>
     (\<forall>i < N. node_link N (hist c) s i (nodes c ! i)) \<and>
     (\<forall>p \<in> set (net c). packet_link N (nodes c) (hist c) s p) \<and> sorted_wrt inorder (net c)"

lemma linkD:
  assumes "link N c s"
  shows "length (nodes c) = N" "sowner s = owner (hist c)" "owner (hist c) t \<noteq> None \<Longrightarrow> stlog s t = tlog (hist c) t"
    "(j, t, i) \<in> set (votes (hist c)) \<Longrightarrow> 1 \<le> t" "i < N \<Longrightarrow> node_link N (hist c) s i (nodes c ! i)"
    "p \<in> set (net c) \<Longrightarrow> packet_link N (nodes c) (hist c) s p" "sorted_wrt inorder (net c)"
  using assms unfolding link_def by blast+

section \<open>What steps of the specification leave alone\<close>

definition spec_le :: "'c spec \<Rightarrow> 'c spec \<Rightarrow> bool" where
  "spec_le s s' \<longleftrightarrow> spec_ext s s' \<and> sacks s \<subseteq> sacks s' \<and> svotes s \<subseteq> svotes s'"

lemma spec_le_refl [simp]: "spec_le s s"
  by (simp add: spec_le_def spec_ext_same)

lemma voted_mono: "voted s v i u m \<Longrightarrow> spec_le s s' \<Longrightarrow> voted s' v i u m"
  by (auto simp: voted_def spec_le_def)

lemma acked_le: "acked s j t n \<Longrightarrow> spec_le s s' \<Longrightarrow> acked s' j t n"
  by (auto simp: spec_le_def intro: acked_mono)

lemma committed_le: "committed N s t n \<Longrightarrow> spec_le s s' \<Longrightarrow> committed N s' t n"
  by (auto simp: spec_le_def intro: committed_mono)

lemma committed_take:
  assumes "committed N s t n" and "spec_le s s'" and "k \<le> n"
  shows "take k (stlog s' t) = take k (stlog s t)"
  using assms spec_ext_take [of s s' t k] by (auto simp: committed_def spec_le_def)

lemma committed_length: "committed N s t n \<Longrightarrow> n \<le> length (stlog s t)"
  by (simp add: committed_def)

lemma sealed_length:
  assumes "sealed N s P k l"
  shows "k < length l"
proof -
  from assms obtain t n where t: "committed N s t n" "k < n" and eq: "take (Suc k) l = take (Suc k) (stlog s t)"
    by (auto simp: sealed_def)
  have "length (take (Suc k) l) = length (take (Suc k) (stlog s t))" using eq by (rule arg_cong)
  then show ?thesis using t(2) committed_length [OF t(1)] by simp
qed

lemma sealed_mono:
  assumes "sealed N s P k l" and "spec_le s s'" and "\<And>t. P t \<Longrightarrow> P' t"
  shows "sealed N s' P' k (l @ xs)"
proof -
  from assms(1) obtain t n where t: "committed N s t n" "k < n" "P t" "take (Suc k) l = take (Suc k) (stlog s t)"
    by (auto simp: sealed_def)
  have "take (Suc k) (l @ xs) = take (Suc k) l" using sealed_length [OF assms(1)] by simp
  then have "take (Suc k) (l @ xs) = take (Suc k) (stlog s' t)"
    using t(2,4) committed_take [OF t(1) assms(2), of "Suc k"] by simp
  with t assms(3) committed_le [OF t(1) assms(2)] show ?thesis unfolding sealed_def by blast
qed

lemma sealed_le: "sealed N s P k l \<Longrightarrow> spec_le s s' \<Longrightarrow> (\<And>t. P t \<Longrightarrow> P' t) \<Longrightarrow> sealed N s' P' k l"
  using sealed_mono [of N s P k l s' P' "[]"] by simp

lemma applied_ok_mono:
  assumes "applied_ok N s m" and "spec_le s s'"
  shows "applied_ok N s' m"
proof -
  from assms(1) obtain k t n where k: "CommandIndex m = int k" "committed N s t n" "k < n" "am_Command m = le_Command (stlog s t ! k)"
    by (auto simp: applied_ok_def)
  have "stlog s' t ! k = take n (stlog s' t) ! k" using k(3) by simp
  also have "\<dots> = stlog s t ! k" using committed_take [OF k(2) assms(2), of n] k(3) by simp
  finally show ?thesis using k committed_le [OF k(2) assms(2)] unfolding applied_ok_def by metis
qed

section \<open>One peer moves\<close>

text \<open>The peers that do not move stay linked.\<close>

lemma node_link_other:
  assumes "node_link N h s j rf" and "spec_le s s'" and "sterm s' j = sterm s j" and "slog s' j = slog s j"
    and "\<And>t. owner h t \<noteq> None \<Longrightarrow> owner h' t \<noteq> None" and "\<And>t. owner h' t = Some j \<Longrightarrow> owner h t = Some j"
    and "camp h' j = camp h j" and "counted h' j = counted h j"
  shows "node_link N h' s' j rf"
proof -
  have "sealed N s' (\<lambda>t. t < currentTerm rf \<or> t = currentTerm rf \<and> acked s' j t (Suc (nat (commitIdx rf)))) (nat (commitIdx rf)) (rlog rf)"
    if "0 < commitIdx rf"
    by (rule sealed_le [OF _ assms(2), of N "\<lambda>t. t < currentTerm rf \<or> t = currentTerm rf \<and> acked s j t (Suc (nat (commitIdx rf)))"])
       (use that assms(1) acked_le [OF _ assms(2)] in \<open>auto simp: node_link_def\<close>)
  moreover have "applied_ok N s' m" if "m \<in> set (cApplyMsg rf)" for m
    using that assms(1) applied_ok_mono [OF _ assms(2)] by (simp add: node_link_def)
  moreover have "\<forall>v \<in> insert j (set (counted h' j)). voted s' v j (currentTerm rf) (rlog rf)"
    if "owner h' (currentTerm rf) = None" "camp h' j = currentTerm rf"
  proof -
    have "owner h (currentTerm rf) = None" using that(1) assms(5) by blast
    with that(2) assms(1,7,8) voted_mono [OF _ assms(2)] show ?thesis by (simp add: node_link_def)
  qed
  moreover have "acked s' k (currentTerm rf) (Suc (nat (matchIdx rf ! k)))"
    if "owner h' (currentTerm rf) = Some j" "k < N" "k \<noteq> j" "0 < matchIdx rf ! k" for k
    using that assms(1) assms(6) [OF that(1)] acked_le [OF _ assms(2)] by (simp add: node_link_def)
  ultimately show ?thesis using assms(1,3,4) by (simp add: node_link_def)
qed

text \<open>A message stays linked when its sender keeps its log or has gone on to another term.\<close>

lemma packet_link_mono:
  assumes "packet_link N ns h s p" and "spec_le s s'" and "hext h h'" and "appends_ok h p" and "packet_ok N h p"
    and "currentTerm (ns ! client p) = currentTerm (ns' ! client p) \<Longrightarrow> owner h' (currentTerm (ns ! client p)) = None \<Longrightarrow>
      rlog (ns' ! client p) = rlog (ns ! client p)"
    and "camp h (client p) \<le> currentTerm (ns ! client p)" and "currentTerm (ns ! client p) \<le> currentTerm (ns' ! client p)"
    and "sowner s = owner h"
    and "\<And>i j a n. p = AppReq i j a \<Longrightarrow> (j, ae_Term a, n) \<in> sacks s' \<Longrightarrow> (j, ae_Term a, n) \<notin> sacks s \<Longrightarrow> n \<le> reached a"
  shows "packet_link N ns' h' s' p"
proof -
  have own: "owner h t = None" if "owner h' t = None" for t using assms(3) that by (cases "owner h t") (auto simp: hext_def)
  have vote: "u = currentTerm (ns ! client p) \<and> owner h u = None \<and> rlog (ns' ! client p) = rlog (ns ! client p)"
    if "u \<le> camp h (client p)" "u = currentTerm (ns' ! client p)" "owner h' u = None" for u
  proof -
    have "currentTerm (ns ! client p) = currentTerm (ns' ! client p)" using that(1,2) assms(7,8) by simp
    with that(2,3) assms(6) own show ?thesis by simp
  qed
  show ?thesis
  proof (cases p)
    case (VoteReq i j a)
    then show ?thesis using assms(1,5) vote [of "rv_Term a"] by auto
  next
    case (VoteRep i j a r)
    then show ?thesis using assms(1,5) vote [of "rv_Term a"] voted_mono [OF _ assms(2)] by auto
  next
    case (AppReq i j a)
    let ?T = "ae_Term a"
    have o: "owner h ?T = Some i" using assms(4) AppReq by (simp add: carries_def)
    then obtain xs where xs: "tlog h' ?T = tlog h ?T @ xs" using assms(3) by (auto simp: hext_def)
    have "selog s' ?T = selog s ?T" using o assms(2,9) by (simp add: spec_le_def spec_ext_def)
    moreover have "sealed N s' (\<lambda>t. t \<le> ?T) (nat (LeaderCommit a)) (tlog h' ?T)" if "0 < LeaderCommit a"
      unfolding xs using that assms(1) AppReq by (intro sealed_mono [OF _ assms(2)]) auto
    ultimately show ?thesis using assms(1,10) AppReq by auto
  next
    case (AppRep i j a r)
    then show ?thesis using assms(1,2) by (auto simp: spec_le_def)
  qed
qed

lemma client_bound: "packet_ok n h p \<Longrightarrow> client p < n"
  by (cases p) auto

lemma link_step:
  assumes link: "link N c s" and el: "election_inv c" and lg: "log_inv c" and i: "i < N" and ns: "nodes c' = (nodes c)[i := rf']"
    and le: "spec_le s s'" and oth: "\<And>j. j \<noteq> i \<Longrightarrow> sterm s' j = sterm s j \<and> slog s' j = slog s j"
    and own: "sowner s' = owner (hist c')" and tl: "\<And>t. owner (hist c') t \<noteq> None \<Longrightarrow> stlog s' t = tlog (hist c') t"
    and mine: "\<And>t j. owner (hist c') t = Some j \<Longrightarrow> j \<noteq> i \<Longrightarrow> owner (hist c) t = Some j"
    and cc: "\<And>j. j \<noteq> i \<Longrightarrow> camp (hist c') j = camp (hist c) j \<and> counted (hist c') j = counted (hist c) j"
    and hx: "hext (hist c) (hist c')" and vt: "\<And>j t k. (j, t, k) \<in> set (votes (hist c')) \<Longrightarrow> (j, t, k) \<notin> set (votes (hist c)) \<Longrightarrow> 1 \<le> t"
    and node: "node_link N (hist c') s' i rf'" and tm: "currentTerm (nodes c ! i) \<le> currentTerm rf'"
    and same: "currentTerm rf' = currentTerm (nodes c ! i) \<Longrightarrow> owner (hist c') (currentTerm rf') = None \<Longrightarrow> rlog rf' = rlog (nodes c ! i)"
    and ack: "\<And>k j a n. AppReq k j a \<in> set (net c') \<Longrightarrow> AppReq k j a \<in> set (net c) \<Longrightarrow> (j, ae_Term a, n) \<in> sacks s' \<Longrightarrow>
      (j, ae_Term a, n) \<notin> sacks s \<Longrightarrow> n \<le> reached a"
    and new: "\<And>p. p \<in> set (net c') \<Longrightarrow> p \<notin> set (net c) \<Longrightarrow> packet_link N (nodes c') (hist c') s' p"
    and srt: "sorted_wrt inorder (net c')"
  shows "link N c' s'"
proof -
  have N: "length (nodes c) = N" using linkD(1) [OF link] .
  have ow: "owner (hist c') t \<noteq> None" if "owner (hist c) t \<noteq> None" for t using hx that by (auto simp: hext_def)
  have nl: "node_link N (hist c') s' j (nodes c' ! j)" if "j < N" for j
  proof (cases "j = i")
    case True
    with node ns that N show ?thesis by simp
  next
    case False
    with node_link_other [OF linkD(5) [OF link that] le, of "hist c'"] oth [OF False] ow mine cc [OF False] ns show ?thesis by auto
  qed
  have "packet_link N (nodes c') (hist c') s' p" if "p \<in> set (net c')" for p
  proof (cases "p \<in> set (net c)")
    case True
    have ok: "packet_ok N (hist c) p" using election_invD(2) [OF el True] N by simp
    have "camp (hist c) (client p) \<le> currentTerm (nodes c ! client p)"
      using election_invD(3) [OF el, of "client p"] client_bound [OF ok] N by (simp add: node_ok_def candidate_ok_def)
    moreover have "currentTerm (nodes c ! client p) = currentTerm (nodes c' ! client p) \<Longrightarrow>
        owner (hist c') (currentTerm (nodes c ! client p)) = None \<Longrightarrow> rlog (nodes c' ! client p) = rlog (nodes c ! client p)"
      "currentTerm (nodes c ! client p) \<le> currentTerm (nodes c' ! client p)"
      using ns tm same N i by (cases "client p = i"; simp)+
    ultimately show ?thesis
      by (intro packet_link_mono [OF linkD(6) [OF link True] le hx log_invD(4) [OF lg True] ok _ _ _ linkD(2) [OF link]])
         (use ack that True in \<open>simp_all\<close>)
  qed (use new that in auto)
  moreover have "1 \<le> t" if "(j, t, k) \<in> set (votes (hist c'))" for j t k
    using that vt linkD(4) [OF link] by blast
  ultimately show ?thesis using N nl own tl srt ns unfolding link_def by auto
qed

definition sim :: "nat \<Rightarrow> 'c spec \<Rightarrow> 'c cluster \<Rightarrow> bool" where
  "sim N s c \<longleftrightarrow> (\<exists>s'. (spec_step N)\<^sup>*\<^sup>* s s' \<and> link N c s')"

lemma sim_step: "spec_step N s s' \<Longrightarrow> link N c s' \<Longrightarrow> sim N s c"
  unfolding sim_def by blast

lemma sim_stay: "link N c s \<Longrightarrow> sim N s c"
  unfolding sim_def by blast

subsection \<open>A peer moves to a higher term, or nothing of interest happens\<close>

lemma spec_sterm [simp]:
  "voted (s\<lparr>sterm := f\<rparr>) = voted s" "acked (s\<lparr>sterm := f\<rparr>) = acked s" "committed N (s\<lparr>sterm := f\<rparr>) = committed N s"
  "sealed N (s\<lparr>sterm := f\<rparr>) = sealed N s" "applied_ok N (s\<lparr>sterm := f\<rparr>) = applied_ok N s"
  by (auto simp: fun_eq_iff voted_def acked_def committed_def sealed_def applied_ok_def)

lemma packet_link_sterm [simp]: "packet_link N ns h (s\<lparr>sterm := f\<rparr>) p = packet_link N ns h s p"
  by (cases p) simp_all

lemma spec_le_sterm [simp]: "spec_le s (s\<lparr>sterm := f\<rparr>)"
  by (simp add: spec_le_def spec_ext_same)

lemma node_link_term:
  assumes "node_link N h s i rf" and "owner_ok h i rf" and "camp h i \<le> currentTerm rf" and "currentTerm rf \<le> currentTerm rf'"
    and "rlog rf' = rlog rf" and "matchIdx rf' = matchIdx rf" and "commitIdx rf' = commitIdx rf" and "cApplyMsg rf' = cApplyMsg rf"
    and "s' = s\<lparr>sterm := (sterm s)(i := currentTerm rf')\<rparr>"
  shows "node_link N h s' i rf'"
proof -
  have same: "currentTerm rf' = currentTerm rf" if "owner h (currentTerm rf') = Some i \<or> camp h i = currentTerm rf'"
    using that assms(2-4) by (auto simp: owner_ok_def)
  have "sealed N s (\<lambda>t. t < currentTerm rf' \<or> t = currentTerm rf' \<and> acked s i t (Suc (nat (commitIdx rf)))) (nat (commitIdx rf)) (rlog rf)"
    if "0 < commitIdx rf"
    by (rule sealed_le [OF _ spec_le_refl, of N _ "\<lambda>t. t < currentTerm rf \<or> t = currentTerm rf \<and> acked s i t (Suc (nat (commitIdx rf)))"])
       (use that assms(1,4) in \<open>auto simp: node_link_def\<close>)
  moreover have "\<forall>v \<in> insert i (set (counted h i)). voted s v i (currentTerm rf') (rlog rf)"
    if "owner h (currentTerm rf') = None" "camp h i = currentTerm rf'"
    using that assms(1) same by (simp add: node_link_def)
  moreover have "acked s k (currentTerm rf') (Suc (nat (matchIdx rf ! k)))"
    if "owner h (currentTerm rf') = Some i" "k < N" "k \<noteq> i" "0 < matchIdx rf ! k" for k
    using that assms(1) same by (simp add: node_link_def)
  ultimately show ?thesis using assms(1,5-9) by (simp add: node_link_def)
qed

lemma camp_le: "election_inv c \<Longrightarrow> i < length (nodes c) \<Longrightarrow> camp (hist c) i \<le> currentTerm (nodes c ! i)"
  by (drule (1) election_invD(3)) (simp add: node_ok_def candidate_ok_def)

lemma link_quiet:
  assumes link: "link N c s" and inv: "election_inv c" "log_inv c" and i: "i < N" and ns: "nodes c' = (nodes c)[i := rf']"
    and rf: "rlog rf' = rlog (nodes c ! i)" "currentTerm (nodes c ! i) \<le> currentTerm rf'" "matchIdx rf' = matchIdx (nodes c ! i)"
      "commitIdx rf' = commitIdx (nodes c ! i)" "cApplyMsg rf' = cApplyMsg (nodes c ! i)"
    and h: "hist c' = hist c"
    and new: "\<And>p. p \<in> set (net c') \<Longrightarrow> p \<notin> set (net c) \<Longrightarrow> packet_link N (nodes c') (hist c) s p"
    and srt: "sorted_wrt inorder (net c')"
  shows "sim N s c'"
proof (rule sim_step)
  let ?s = "s\<lparr>sterm := (sterm s)(i := currentTerm rf')\<rparr>"
  have iN: "i < length (nodes c)" using i linkD(1) [OF link] by simp
  have n: "node_link N (hist c) s i (nodes c ! i)" using linkD(5) [OF link i] .
  show "spec_step N s ?s" using n rf(2) by (intro spec_term) (simp add: node_link_def)
  show "link N c' ?s"
  proof (rule link_step [OF link inv i ns])
    show "node_link N (hist c') ?s i rf'"
      using node_link_term [OF n log_invD(2) [OF inv(2) iN] camp_le [OF inv(1) iN] rf(2,1,3-5) refl] h by simp
  qed (use rf(1,2) h new srt linkD(2,3) [OF link] in auto)
qed

subsection \<open>Votes\<close>

text \<open>A vote counts for the specification while its term has no leader.\<close>

definition vote_spec :: "nat \<Rightarrow> int \<Rightarrow> nat \<Rightarrow> 'c spec \<Rightarrow> 'c spec" where
  "vote_spec j u i s = (if sowner s u = None
     then s\<lparr>sterm := (sterm s)(j := u), svotes := insert (j, u, i, slog s j) (svotes s)\<rparr>
     else s\<lparr>sterm := (sterm s)(j := u)\<rparr>)"

lemma vote_spec_frame [simp]:
  "sterm (vote_spec j u i s) = (sterm s)(j := u)" "slog (vote_spec j u i s) = slog s" "sowner (vote_spec j u i s) = sowner s"
  "stlog (vote_spec j u i s) = stlog s" "selog (vote_spec j u i s) = selog s" "sacks (vote_spec j u i s) = sacks s"
  by (simp_all add: vote_spec_def)

lemma vote_spec_step: "sterm s j \<le> u \<Longrightarrow> spec_step N s (vote_spec j u i s)"
  by (simp add: vote_spec_def spec_term spec_vote)

lemma vote_spec_le: "spec_le s (vote_spec j u i s)" "spec_le (s\<lparr>sterm := (sterm s)(j := u)\<rparr>) (vote_spec j u i s)"
  by (auto simp: spec_le_def spec_ext_same) (auto simp: vote_spec_def)

lemma vote_spec_voted: "sowner s u = None \<Longrightarrow> log_ge m (slog s j) \<Longrightarrow> voted (vote_spec j u i s) j i u m"
  by (auto simp: voted_def vote_spec_def)

lemma log_ge_refl [simp]: "log_ge l l"
  by (simp add: log_ge_def)

lemma node_link_votes [simp]: "node_link N (h\<lparr>votes := vs\<rparr>) s j rf = node_link N h s j rf"
  by (simp add: node_link_def)

lemma node_link_vote:
  assumes "node_link N h s j rf" and "owner_ok h j rf" and "camp h j \<le> currentTerm rf" and "currentTerm rf \<le> currentTerm rf'"
    and "rlog rf' = rlog rf" and "matchIdx rf' = matchIdx rf" and "commitIdx rf' = commitIdx rf" and "cApplyMsg rf' = cApplyMsg rf"
  shows "node_link N h (vote_spec j (currentTerm rf') i s) j rf'"
  by (rule node_link_other [OF node_link_term [OF assms refl] vote_spec_le(2)]) simp_all

lemma link_campaign:
  assumes link: "link N c s" and inv: "election_inv c" "log_inv c" and i: "i < N" and nonneg: "0 \<le> currentTerm (nodes c ! i)"
    and st: "state (nodes c ! i) = CANDIDATE" and step: "doTick i c = Some c'"
  shows "sim N s c'"
proof -
  let ?rf = "nodes c ! i" and ?u = "currentTerm (nodes c ! i) + 1" and ?h = "hist c"
  let ?s = "vote_spec i ?u i s"
  from step st obtain rf' where rf': "tickTop ?rf = Some rf'" and c': "c' = (setNode i rf' c)\<lparr>hist :=
      ?h\<lparr>votes := (i, ?u, i) # votes ?h, camp := (camp ?h)(i := ?u), counted := (counted ?h)(i := [])\<rparr>\<rparr>"
    by (auto simp: doTick_def Let_def tickTop_def split: option.splits if_splits)
  have f: "currentTerm rf' = ?u" "rlog rf' = rlog ?rf" "matchIdx rf' = matchIdx ?rf" "commitIdx rf' = commitIdx ?rf" "cApplyMsg rf' = cApplyMsg ?rf"
    using rf' st by (auto simp: tickTop_def Let_def split: if_splits)
  have iN: "i < length (nodes c)" using i linkD(1) [OF link] by simp
  note n = linkD(5) [OF link i]
  have n': "node_link N ?h ?s i rf'"
    using node_link_vote [OF n log_invD(2) [OF inv(2) iN] camp_le [OF inv(1) iN] _ f(2-5)] f(1) by simp
  have "voted ?s i i ?u (rlog ?rf)" if "owner ?h ?u = None"
    using that n linkD(2) [OF link] by (intro vote_spec_voted) (simp_all add: node_link_def)
  with n' have mine: "node_link N (hist c') ?s i rf'" using f(1,2) unfolding node_link_def by (simp add: c')
  have "link N c' ?s"
    by (rule link_step [OF link inv i, of c' rf'])
       (use mine f nonneg linkD(2,3,7) [OF link] vote_spec_le(1) in \<open>auto simp: c'\<close>)
  moreover have "spec_step N s ?s" using n by (intro vote_spec_step) (simp add: node_link_def)
  ultimately show ?thesis by (intro sim_step)
qed

lemma up_to_date_log_ge:
  assumes "up_to_date a (last l)" and "LastLogIdx a = int (length m) - 1" and "LastLogTerm a = le_Term (last m)" and "base_ok l"
  shows "log_ge m l"
proof -
  have "le_Index (last l) = int (length l) - 1"
    using assms(4) by (cases l) (auto simp: base_ok_def indexed_from_def last_conv_nth)
  with assms show ?thesis by (auto simp: up_to_date_def log_ge_def)
qed

lemma link_grant:
  assumes link: "link N c s" and inv: "election_inv c" "log_inv c" and net: "net c = ps @ VoteReq i j a # qs"
    and rv: "RequestVote a (nodes c ! j) = Inr (rf', r)" "VoteGranted r"
    and c': "nodes c' = (nodes c)[j := rf']" "hist c' = (hist c)\<lparr>votes := (j, rv_Term a, i) # votes (hist c)\<rparr>"
      "net c' = ps @ qs @ [VoteRep i j a r]"
  shows "sim N s c'"
proof -
  let ?rf = "nodes c ! j" and ?h = "hist c" and ?u = "rv_Term a"
  let ?s = "vote_spec j ?u i s"
  have N: "length (nodes c) = N" using linkD(1) [OF link] .
  have pk: "packet_ok N ?h (VoteReq i j a)" using packet_okD [OF inv(1) net] N by simp
  then have j: "j < N" "i < N" "i \<noteq> j" and id: "IDcand a = i" and u: "1 \<le> ?u" using linkD(4) [OF link] by auto
  have jN: "j < length (nodes c)" using j N by simp
  have base: "base_ok (rlog ?rf)" using log_invD(1) [OF inv(2) jN] by (simp add: agrees_def)
  have f: "currentTerm rf' = ?u" "currentTerm ?rf \<le> ?u" "rlog rf' = rlog ?rf" "matchIdx rf' = matchIdx ?rf"
      "commitIdx rf' = commitIdx ?rf" "cApplyMsg rf' = cApplyMsg ?rf" and up: "up_to_date a (last (rlog ?rf))"
    using rv base_ok_last [OF base] base_ok_last [of "newTerm ?u ?rf"] base
    by (auto simp: RequestVote_def go_bind_Inr_iff Let_def sendHeartbeat_def split: if_splits)
  note n = linkD(5) [OF link j(1)]
  have "node_link N ?h ?s j rf'"
    using node_link_vote [OF n log_invD(2) [OF inv(2) jN] camp_le [OF inv(1) jN] _ f(3-6)] f(1,2) by simp
  then have mine: "node_link N (hist c') ?s j rf'" by (simp add: c'(2))
  have "packet_link N (nodes c) ?h s (VoteReq i j a)" using linkD(6) [OF link, of "VoteReq i j a"] net by simp
  then have "log_ge (rlog (nodes c ! i)) (rlog ?rf)" if "?u = currentTerm (nodes c ! i)" "owner ?h ?u = None"
    using that up_to_date_log_ge [OF up _ _ base] by simp
  moreover have "slog s j = rlog ?rf" using n by (simp add: node_link_def)
  ultimately have "voted ?s j i ?u (rlog (nodes c ! i))" if "?u = currentTerm (nodes c ! i)" "owner ?h ?u = None"
    using that linkD(2) [OF link] by (intro vote_spec_voted) simp_all
  then have new: "packet_link N (nodes c') (hist c') ?s (VoteRep i j a r)" using j by (simp add: c')
  have "link N c' ?s"
    by (rule link_step [OF link inv j(1), of c' rf'])
       (use mine new f u net c' linkD(2,3,7) [OF link] vote_spec_le(1) in \<open>auto simp: sorted_wrt_append\<close>)
  moreover have "spec_step N s ?s" using n f(2) by (intro vote_spec_step) (simp add: node_link_def)
  ultimately show ?thesis by (intro sim_step)
qed

subsection \<open>Winning and leading\<close>

lemma sendRequestVote_frame:
  "sendRequestVote ok a r rf = Inr rf' \<Longrightarrow> rlog rf' = rlog rf \<and> matchIdx rf' = matchIdx rf \<and> commitIdx rf' = commitIdx rf \<and>
     cApplyMsg rf' = cApplyMsg rf"
  by (auto simp: sendRequestVote_def Let_def go_bind_Inr_iff setNextIdx_def sendWin_def split: if_splits)

text \<open>The part of the link of a peer that a won election does not touch.\<close>

lemma node_link_commit:
  assumes "node_link N h s i rf" and "spec_le s s'" and "rlog rf' = rlog rf @ xs" and "currentTerm rf' = currentTerm rf"
    and "commitIdx rf' = commitIdx rf" and "cApplyMsg rf' = cApplyMsg rf"
  shows "0 < commitIdx rf' \<Longrightarrow> sealed N s' (\<lambda>t. t < currentTerm rf' \<or> t = currentTerm rf' \<and> acked s' i t (Suc (nat (commitIdx rf'))))
      (nat (commitIdx rf')) (rlog rf')"
    "\<forall>m \<in> set (cApplyMsg rf'). applied_ok N s' m"
proof -
  show "sealed N s' (\<lambda>t. t < currentTerm rf' \<or> t = currentTerm rf' \<and> acked s' i t (Suc (nat (commitIdx rf'))))
      (nat (commitIdx rf')) (rlog rf')" if "0 < commitIdx rf'"
    unfolding assms(3-5)
    by (rule sealed_mono [OF _ assms(2), of N "\<lambda>t. t < currentTerm rf \<or> t = currentTerm rf \<and> acked s i t (Suc (nat (commitIdx rf)))"])
       (use that assms(1,5) acked_le [OF _ assms(2)] in \<open>auto simp: node_link_def\<close>)
  show "\<forall>m \<in> set (cApplyMsg rf'). applied_ok N s' m"
    using assms(1,6) applied_ok_mono [OF _ assms(2)] by (simp add: node_link_def)
qed

lemma link_count:
  assumes link: "link N c s" and inv: "election_inv c" "log_inv c" "index_inv c" and net: "net c = ps @ VoteRep i j a r # qs"
    and sv: "sendRequestVote True a r (nodes c ! i) = Inr rf'" "counts a r (nodes c ! i)"
    and c': "nodes c' = (nodes c)[i := rf']" "hist c' = recordCount i j rf' (hist c)" "net c' = ps @ qs"
    and hx: "hext (hist c) (hist c')"
    and fresh: "state rf' = LEADER \<Longrightarrow> owner (hist c) (currentTerm (nodes c ! i)) = Some i \<or> list_all (\<lambda>m. m = 0) (matchIdx (nodes c ! i))"
  shows "sim N s c'"
proof -
  let ?rf = "nodes c ! i" and ?h = "hist c" and ?t = "currentTerm (nodes c ! i)"
  have N: "length (nodes c) = N" using linkD(1) [OF link] .
  have pk: "packet_ok N ?h (VoteRep i j a r)" using packet_okD [OF inv(1) net] N by simp
  then have i: "i < N" by simp
  have iN: "i < length (nodes c)" using i N by simp
  have ok: "node_ok N (net c) ?h i ?rf" using election_invD(3) [OF inv(1) iN] N by simp
  have camp: "camp ?h i = ?t" "rv_Term a = ?t" "VoteGranted r"
    using sv(2) ok pk by (auto simp: counts_def node_ok_def candidate_ok_def)
  have f: "rlog rf' = rlog ?rf" "matchIdx rf' = matchIdx ?rf" "commitIdx rf' = commitIdx ?rf" "cApplyMsg rf' = cApplyMsg ?rf"
      "currentTerm rf' = ?t"
    using sendRequestVote_frame [OF sv(1)] counted_reply(3) [OF sv] by simp_all
  note n = linkD(5) [OF link i]
  have vj: "\<forall>v \<in> insert i (set (j # counted ?h i)). voted s v i ?t (rlog ?rf)" if "owner ?h ?t = None"
    using that camp n linkD(6) [OF link, of "VoteRep i j a r"] net by (simp add: node_link_def)
  have srt: "sorted_wrt inorder (net c')" using linkD(7) [OF link] net c'(3) by (simp add: sorted_wrt_append)
  have fr: "j' \<noteq> i \<Longrightarrow> camp (hist c') j' = camp ?h j' \<and> counted (hist c') j' = counted ?h j'" "votes (hist c') = votes ?h" "camp (hist c') i = camp ?h i"
    "counted (hist c') i = j # counted ?h i" for j'
    by (simp_all add: c'(2) recordCount_def Let_def)
  show ?thesis
  proof (cases "state rf' = LEADER \<and> owner ?h ?t = None")
    case False
    have own: "owner (hist c') = owner ?h" and tl: "t \<in> dom (owner ?h) \<Longrightarrow> tlog (hist c') t = tlog ?h t" for t
    proof -
      have "owner ?h ?t = Some i" if "state rf' = LEADER"
        using that False hx c'(2) f(5) by (auto simp: hext_def recordCount_def Let_def split: if_splits)
      moreover from this have "state rf' = LEADER \<Longrightarrow> rlog rf' = tlog ?h ?t" using log_invD(2) [OF inv(2) iN] f(1) by (simp add: owner_ok_def)
      ultimately show "owner (hist c') = owner ?h" "t \<in> dom (owner ?h) \<Longrightarrow> tlog (hist c') t = tlog ?h t"
        using f(5) by (auto simp: c'(2) recordCount_def Let_def)
    qed
    have "node_link N (hist c') s i rf'"
      using n vj f own camp(1) fr(3,4) by (simp add: node_link_def)
    then have "link N c' s"
      by (intro link_step [OF link inv(1,2) i c'(1)])
         (use own tl fr f hx srt c'(3) net linkD(2,3) [OF link] in \<open>auto simp: dom_def\<close>)
    then show ?thesis by (rule sim_stay)
  next
    case True
    let ?s = "s\<lparr>sowner := (sowner s)(?t := Some i), stlog := (stlog s)(?t := slog s i), selog := (selog s)(?t := slog s i)\<rparr>"
    have h': "owner (hist c') = (owner ?h)(?t := Some i)" "tlog (hist c') = (tlog ?h)(?t := rlog ?rf)"
      using True f(1,5) by (simp_all add: c'(2) recordCount_def Let_def)
    have le: "spec_le s ?s" using True linkD(2) [OF link] by (auto simp: spec_le_def spec_ext_def)
    have "VoteRep i j a r \<in> set (net c)" using net by simp
    from count_majority(3) [OF ok sv i pk this] True have Q: "majority N (set (i # j # counted ?h i))" by blast
    have "(i, ?t, i) \<in> set (votes ?h)" using pk camp(2) by simp
    then have t: "1 \<le> ?t" by (rule linkD(4) [OF link])
    have sn: "sterm s i = ?t" "slog s i = rlog ?rf" "sowner s ?t = None" using n True linkD(2) [OF link] by (simp_all add: node_link_def)
    have "spec_step N s ?s"
      by (rule spec_win [OF sn(1) t sn(3) Q]) (use vj True sn in \<open>auto simp: voted_def\<close>)
    moreover have "length (matchIdx ?rf) = N" using index_invD(1) [OF inv(3) iN] ok by (simp add: indices_ok_def node_ok_def)
    then have "matchIdx ?rf ! k = 0" if "k < N" for k using fresh True that by (auto simp: list_all_length)
    then have "node_link N (hist c') ?s i rf'"
      using n node_link_commit [OF n le _ f(5,3,4), of "[]"] f(1,2,5) h'(1) by (simp add: node_link_def)
    then have "link N c' ?s"
      by (intro link_step [OF link inv(1,2) i c'(1) le])
         (use h' fr f hx srt c'(3) net sn linkD(2,3) [OF link] in \<open>auto split: if_splits\<close>)
    ultimately show ?thesis by (rule sim_step)
  qed
qed

lemma link_submit:
  assumes link: "link N c s" and inv: "election_inv c" "log_inv c" and i: "i < N" and step: "doSubmit i cmd c = Some c'" and ok: "failed c' = failed c"
    "failed c = None"
  shows "sim N s c'"
proof -
  let ?rf = "nodes c ! i" and ?h = "hist c" and ?t = "currentTerm (nodes c ! i)"
  have iN: "i < length (nodes c)" using i linkD(1) [OF link] by simp
  from step ok obtain rf k tm ld where 1: "Start cmd ?rf = Inr (rf, k, tm, ld)"
      "c' = (let c1 = setNode i rf c in if ld then c1\<lparr>hist := ?h\<lparr>tlog := (tlog ?h)(currentTerm rf := rlog rf)\<rparr>\<rparr> else c1)"
    unfolding doSubmit_def by (elim finish_cases) auto
  note n = linkD(5) [OF link i]
  show ?thesis
  proof (cases "state ?rf = LEADER")
    case False
    then show ?thesis using 1
      by (intro link_quiet [OF link inv i, of c' rf]) (use linkD(7) [OF link] in \<open>auto simp: Start_def\<close>)
  next
    case True
    have o: "owner ?h ?t = Some i" "tlog ?h ?t = rlog ?rf"
      using True election_invD(3) [OF inv(1) iN] log_invD(2) [OF inv(2) iN] by (auto simp: node_ok_def leader_ok_def owner_ok_def)
    from 1 True obtain e where e: "rlog rf = rlog ?rf @ [e]" "le_Term e = ?t" "currentTerm rf = ?t" "ld" "matchIdx rf = matchIdx ?rf"
        "commitIdx rf = commitIdx ?rf" "cApplyMsg rf = cApplyMsg ?rf"
      by (auto simp: Start_def go_bind_Inr_iff Let_def)
    have c': "nodes c' = (nodes c)[i := rf]" "net c' = net c" "hist c' = ?h\<lparr>tlog := (tlog ?h)(?t := rlog ?rf @ [e])\<rparr>"
      using 1(2) e by (simp_all add: Let_def)
    let ?s = "s\<lparr>slog := (slog s)(i := slog s i @ [e]), stlog := (stlog s)(?t := slog s i @ [e])\<rparr>"
    have sn: "sterm s i = ?t" "slog s i = rlog ?rf" "sowner s ?t = Some i" "stlog s ?t = rlog ?rf"
      using n o linkD(2) [OF link] linkD(3) [OF link, of ?t] by (simp_all add: node_link_def)
    have le: "spec_le s ?s" using sn by (auto simp: spec_le_def spec_ext_def)
    have "spec_step N s ?s" using sn e(2) by (intro spec_append) simp_all
    moreover have "node_link N (hist c') ?s i rf"
      using n node_link_commit [OF n le e(1,3,6,7)] o(1) e sn acked_le [OF _ le] by (simp add: node_link_def c'(3))
    then have "link N c' ?s"
      by (intro link_step [OF link inv i c'(1) le])
         (use o e sn c' linkD(2,3,7) [OF link] in \<open>auto simp: hext_def\<close>)
    ultimately show ?thesis by (rule sim_step)
  qed
qed

subsection \<open>Replication\<close>

lemma installEntries_result:
  assumes "installEntries a 0 rf = Inr (rf', r)"
  shows "Success r \<and> cApplyMsg rf' = cApplyMsg rf"
  using assms by (auto simp: installEntries_def go_bind_Inr_iff Let_def persist_def split: if_splits)

lemma AppendEntries_result:
  assumes "AppendEntries a rf = Inr (rf', r)" and "base_ok (rlog rf)" and "PrevLogIdx a = int p"
  shows "matchIdx rf' = matchIdx rf \<and> cApplyMsg rf' = cApplyMsg rf"
    "\<not> Success r \<Longrightarrow> rlog rf' = rlog rf \<and> commitIdx rf' = commitIdx rf"
    "Success r \<Longrightarrow> currentTerm rf \<le> ae_Term a \<and> currentTerm rf' = ae_Term a \<and> p < length (rlog rf) \<and>
      le_Term (rlog rf ! p) = PrevLogTerm a \<and> rlog rf' = take (Suc p) (rlog rf) @ Entries a \<and>
      (commitIdx rf' = commitIdx rf \<or> commitIdx rf < LeaderCommit a \<and> commitIdx rf' = min (LeaderCommit a) (le_Index (last (rlog rf'))))"
proof -
  have "matchIdx rf' = matchIdx rf \<and> cApplyMsg rf' = cApplyMsg rf \<and>
    (\<not> Success r \<longrightarrow> rlog rf' = rlog rf \<and> commitIdx rf' = commitIdx rf) \<and>
    (Success r \<longrightarrow> currentTerm rf \<le> ae_Term a \<and> currentTerm rf' = ae_Term a \<and> p < length (rlog rf) \<and>
      le_Term (rlog rf ! p) = PrevLogTerm a \<and> rlog rf' = take (Suc p) (rlog rf) @ Entries a \<and>
      (commitIdx rf' = commitIdx rf \<or> commitIdx rf < LeaderCommit a \<and> commitIdx rf' = min (LeaderCommit a) (le_Index (last (rlog rf')))))"
  proof (cases "ae_Term a < currentTerm rf")
    case True
    with assms(1) show ?thesis by (auto simp: AppendEntries_def go_bind_Inr_iff)
  next
    case False
    from AppendEntries_outcome [OF assms(1-3) False] obtain rf2 where
      rf2: "sendHeartbeat (if currentTerm rf < ae_Term a then newTerm (ae_Term a) rf else rf) = Inr rf2"
      and out: "\<not> Success r \<and> (rf' = rf2 \<or> rf' = persist rf2) \<or>
        (\<exists>x. index (rlog rf2) (PrevLogIdx a) = Inr x \<and> le_Term x = PrevLogTerm a \<and> installEntries a 0 rf2 = Inr (rf', r))" .
    have f2: "rlog rf2 = rlog rf" "currentTerm rf2 = ae_Term a" "matchIdx rf2 = matchIdx rf" "cApplyMsg rf2 = cApplyMsg rf"
        "commitIdx rf2 = commitIdx rf"
      using rf2 False by (auto simp: sendHeartbeat_def split: if_splits)
    from out show ?thesis
    proof
      assume "\<exists>x. index (rlog rf2) (PrevLogIdx a) = Inr x \<and> le_Term x = PrevLogTerm a \<and> installEntries a 0 rf2 = Inr (rf', r)"
      then obtain x where x: "index (rlog rf2) (int p) = Inr x" "le_Term x = PrevLogTerm a" and ins: "installEntries a 0 rf2 = Inr (rf', r)"
        using assms(3) by auto
      from x f2(1) have "p < length (rlog rf)" "le_Term (rlog rf ! p) = PrevLogTerm a" by (auto simp: index_Inr_iff)
      with installEntries_log [OF ins] installEntries_commit [OF ins] installEntries_result [OF ins] f2 False assms(3) show ?thesis by auto
    qed (use f2 in auto)
  qed
  then show "matchIdx rf' = matchIdx rf \<and> cApplyMsg rf' = cApplyMsg rf"
    "\<not> Success r \<Longrightarrow> rlog rf' = rlog rf \<and> commitIdx rf' = commitIdx rf"
    "Success r \<Longrightarrow> currentTerm rf \<le> ae_Term a \<and> currentTerm rf' = ae_Term a \<and> p < length (rlog rf) \<and>
      le_Term (rlog rf ! p) = PrevLogTerm a \<and> rlog rf' = take (Suc p) (rlog rf) @ Entries a \<and>
      (commitIdx rf' = commitIdx rf \<or> commitIdx rf < LeaderCommit a \<and> commitIdx rf' = min (LeaderCommit a) (le_Index (last (rlog rf'))))"
    by blast+
qed

text \<open>A follower that takes over a piece of the log of term \<open>u\<close> keeps what it knows to be committed.\<close>

lemma sealed_accept:
  assumes inv: "spec_inv N s" and old: "sealed N s (\<lambda>t. t < u0 \<or> t = u0 \<and> acked s j t (Suc k)) k l" and u: "u0 \<le> u" "sowner s u = Some i" "i \<noteq> j"
    and n: "length (selog s u) \<le> n" "\<forall>m. (j, u, m) \<in> sacks s \<longrightarrow> m \<le> n" and le: "spec_le s s'"
  shows "sealed N s' (\<lambda>t. t < u \<or> t = u \<and> acked s' j t (Suc k)) k (take n (stlog s u))"
proof -
  from old obtain t m where t: "committed N s t m" "k < m" "t < u0 \<or> t = u0 \<and> acked s j t (Suc k)"
    by (auto simp: sealed_def)
  have "take (Suc k) (take n (stlog s u)) = take (Suc k) (stlog s t)"
  proof (cases "t = u")
    case True
    with t(3) u have "acked s j u (Suc k)" by auto
    with u(2,3) n(2) have "Suc k \<le> n" by (auto simp: acked_def intro: order_trans)
    with True show ?thesis by (simp add: min_absorb1)
  next
    case False
    then have "t < u" using t(3) u(1) by auto
    then have pre: "take m (selog s u) = take m (stlog s t)" using leader_completeness [OF inv t(1)] u(2) by simp
    have "length (take m (selog s u)) = length (take m (stlog s t))" using pre by (rule arg_cong)
    then have m: "m \<le> length (selog s u)" using committed_length [OF t(1)] by simp
    obtain es where es: "stlog s u = selog s u @ es" using spec_invD(3) [OF inv u(2)] by (auto simp: leader_log_def)
    have "take (Suc k) (take n (stlog s u)) = take (Suc k) (take m (selog s u))" using m n(1) t(2) es by (simp add: min_absorb1)
    also have "\<dots> = take (Suc k) (stlog s t)" unfolding pre using t(2) by (simp add: min_absorb1)
    finally show ?thesis .
  qed
  moreover have "t < u \<or> t = u \<and> acked s j t (Suc k)" using t(3) u(1) by auto
  ultimately have "sealed N s (\<lambda>t. t < u \<or> t = u \<and> acked s j t (Suc k)) k (take n (stlog s u))"
    using t(1,2) unfolding sealed_def by blast
  then show ?thesis by (rule sealed_le [OF _ le]) (use acked_le [OF _ le] in auto)
qed

lemma link_accept:
  assumes link: "link N c s" and si: "spec_inv N s" and inv: "election_inv c" "log_inv c" and net: "net c = ps @ AppReq i j a # qs"
    and ord: "\<forall>p \<in> set ps. \<not> isCall i j p" and ae: "AppendEntries a (nodes c ! j) = Inr (rf', r)" "Success r" "base_ok (rlog rf')"
    and c': "nodes c' = (nodes c)[j := rf']" "hist c' = hist c" "net c' = ps @ qs @ [AppRep i j a r]"
  shows "sim N s c'"
proof -
  let ?rf = "nodes c ! j" and ?h = "hist c" and ?u = "ae_Term a" and ?n = "reached a"
  have N: "length (nodes c) = N" using linkD(1) [OF link] .
  have p: "AppReq i j a \<in> set (net c)" using net by simp
  have j: "j < N" using election_invD(2) [OF inv(1) p] N by simp
  have jN: "j < length (nodes c)" using j N by simp
  have ca: "i \<noteq> j" "carries ?h i a" using log_invD(4) [OF inv(2) p] by simp_all
  then obtain k where k: "PrevLogIdx a = int k" "k < length (tlog ?h ?u)" "PrevLogTerm a = le_Term (tlog ?h ?u ! k)"
      "Entries a = take (length (Entries a)) (drop (Suc k) (tlog ?h ?u))" and o: "owner ?h ?u = Some i" by (auto simp: carries_def)
  have ag: "agrees ?h (rlog ?rf)" "agrees ?h (tlog ?h ?u)" using log_invD(1) [OF inv(2) jN] log_invD(3) [OF inv(2) o] .
  then have base: "base_ok (rlog ?rf)" by (simp add: agrees_def)
  note res = AppendEntries_result(1) [OF ae(1) base k(1)] AppendEntries_result(3) [OF ae(1) base k(1) ae(2)]
  have st: "sowner s ?u = Some i" "stlog s ?u = tlog ?h ?u" using linkD(2,3) [OF link] o by simp_all
  have lg: "rlog rf' = take ?n (stlog s ?u)"
    using merged_take [OF ag _ k(2) _ k(4)] res(2) k(1,3) st(2) by (simp add: reached_def)
  have "length (Entries a) \<le> length (tlog ?h ?u) - Suc k" by (subst k(4)) simp
  then have nl: "?n \<le> length (stlog s ?u)" using k(1,2) st(2) by (simp add: reached_def)
  have pl: "length (selog s ?u) \<le> ?n" "\<forall>m. (j, ?u, m) \<in> sacks s \<longrightarrow> m \<le> ?n"
      "0 < LeaderCommit a \<Longrightarrow> sealed N s (\<lambda>t. t \<le> ?u) (nat (LeaderCommit a)) (tlog ?h ?u)"
    using linkD(6) [OF link p] by simp_all
  let ?s = "s\<lparr>sterm := (sterm s)(j := ?u), slog := (slog s)(j := take ?n (stlog s ?u)), sacks := insert (j, ?u, ?n) (sacks s)\<rparr>"
  have le: "spec_le s ?s" by (auto simp: spec_le_def spec_ext_same)
  note n = linkD(5) [OF link j]
  have "sealed N ?s (\<lambda>t. t < ?u \<or> t = ?u \<and> acked ?s j t (Suc (nat (commitIdx rf')))) (nat (commitIdx rf')) (rlog rf')"
    if pos: "0 < commitIdx rf'"
  proof (cases "commitIdx rf' = commitIdx ?rf")
    case True
    then show ?thesis unfolding lg
      using sealed_accept [OF si _ _ st(1) ca(1) pl(1,2) le, of "currentTerm ?rf" "nat (commitIdx ?rf)" "rlog ?rf"] n pos res(2)
      by (simp add: node_link_def)
  next
    case False
    let ?k = "nat (commitIdx rf')"
    have "le_Index (last (rlog rf')) = int ?n - 1" using base_ok_last [OF ae(3)] lg nl by (simp add: min_absorb2)
    then have lc: "commitIdx rf' = min (LeaderCommit a) (int ?n - 1)" "0 < LeaderCommit a" using res(2) False pos by auto
    from pl(3) [OF lc(2)] obtain t m where t: "committed N s t m" "nat (LeaderCommit a) < m" "t \<le> ?u"
        "take (Suc (nat (LeaderCommit a))) (stlog s ?u) = take (Suc (nat (LeaderCommit a))) (stlog s t)"
      unfolding st(2) [symmetric] by (auto simp: sealed_def)
    have kn: "?k \<le> nat (LeaderCommit a)" "Suc ?k \<le> ?n" using lc pos by auto
    then have "take (Suc ?k) (rlog rf') = take (Suc ?k) (take (Suc (nat (LeaderCommit a))) (stlog s ?u))"
      unfolding lg by (simp add: min_absorb1)
    also have "\<dots> = take (Suc ?k) (stlog s t)" unfolding t(4) using kn by (simp add: min_absorb1)
    finally have "take (Suc ?k) (rlog rf') = take (Suc ?k) (stlog ?s t)" by simp
    moreover have "acked ?s j ?u (Suc ?k)" using kn by (auto simp: acked_def)
    ultimately show ?thesis unfolding sealed_def using committed_le [OF t(1) le] t(2,3) kn(1)
      by (intro exI [of _ t] exI [of _ m]) auto
  qed
  then have mine: "node_link N (hist c') ?s j rf'"
    using n res o ca(1) lg applied_ok_mono [OF _ le] by (simp add: node_link_def c'(2))
  have step: "spec_step N s ?s"
    using n res(2) st(1) ca(1) pl(1,2) nl by (intro spec_accept) (simp_all add: node_link_def)
  have later: "?n \<le> reached b" if "AppReq k' j b \<in> set (net c')" "ae_Term b = ?u" for k' b
  proof -
    have b: "AppReq k' j b \<in> set ps \<or> AppReq k' j b \<in> set qs" using that(1) c'(3) by auto
    then have "AppReq k' j b \<in> set (net c)" using net by auto
    then have "k' = i" using log_invD(4) [OF inv(2)] that(2) o by (fastforce simp: carries_def)
    with b ord have "AppReq i j b \<in> set qs" by fastforce
    then show ?thesis using linkD(7) [OF link] net that(2) by (fastforce simp: sorted_wrt_append)
  qed
  have "link N c' ?s"
    by (rule link_step [OF link inv j c'(1) le _ _ _ _ _ _ _ mine])
       (use res(2) c' net later o linkD(2,3,7) [OF link] in \<open>auto simp: sorted_wrt_append\<close>)
  with step show ?thesis by (rule sim_step)
qed

subsection \<open>Committing and applying\<close>

lemma acked_less: "acked s j t n \<Longrightarrow> m \<le> n \<Longrightarrow> acked s j t m"
  by (auto simp: acked_def intro: order_trans)

text \<open>An index that the leader's commit rule accepts is committed in the specification.\<close>

lemma committable_committed:
  assumes "committable rf (int (length (rlog rf)) - 1) k" and "0 \<le> commitIdx rf" and "me rf = i" and "npeers rf = N" and "i < N"
    and own: "sowner s (currentTerm rf) = Some i" "stlog s (currentTerm rf) = rlog rf"
    and acks: "\<And>j. j < N \<Longrightarrow> j \<noteq> i \<Longrightarrow> 0 < matchIdx rf ! j \<Longrightarrow> acked s j (currentTerm rf) (Suc (nat (matchIdx rf ! j)))"
  shows "committed N s (currentTerm rf) (Suc (nat k))" "acked s i (currentTerm rf) (Suc (nat k))"
proof -
  let ?t = "currentTerm rf" and ?js = "filter (\<lambda>j. matchIdx rf ! j \<ge> k \<and> j \<noteq> i) [0..<N]"
  have k: "0 < k" "k < int (length (rlog rf))" "le_Term (rlog rf ! nat k) = ?t" "int N div 2 < 1 + int (length ?js)"
    using assms(1-4) by (auto simp: committable_def matchCount_def)
  show me: "acked s i ?t (Suc (nat k))" using own k(1,2) by (simp add: acked_def Suc_le_eq nat_less_iff)
  have "acked s j ?t (Suc (nat k))" if "j \<in> set ?js" for j
    using acked_less [OF acks [of j]] that k(1) by auto
  moreover have "card (set (i # ?js)) = Suc (length ?js)" by (subst distinct_card) auto
  then have "majority N (set (i # ?js))" using k(4) assms(5) by (auto simp: majority_def)
  ultimately have "\<exists>Q. majority N Q \<and> (\<forall>j \<in> Q. acked s j ?t (Suc (nat k)))"
    using me by (intro exI [of _ "set (i # ?js)"]) auto
  then show "committed N s ?t (Suc (nat k))" using own k by (simp add: committed_def)
qed

lemma link_reply:
  assumes link: "link N c s" and inv: "election_inv c" "log_inv c" "index_inv c" and net: "net c = ps @ AppRep i j a r # qs"
    and sa: "sendAppendEntries True j a r (nodes c ! i) = Inr rf'"
    and c': "nodes c' = (nodes c)[i := rf']" "hist c' = hist c" "net c' = ps @ qs"
  shows "sim N s c'"
proof -
  let ?rf = "nodes c ! i" and ?h = "hist c" and ?t = "currentTerm (nodes c ! i)"
  have N: "length (nodes c) = N" using linkD(1) [OF link] .
  have p: "AppRep i j a r \<in> set (net c)" using net by simp
  have i: "i < N" "j < N" using election_invD(2) [OF inv(1) p] N by simp_all
  have iN: "i < length (nodes c)" using i N by simp
  have li: "log_election_inv c" using inv by (simp add: log_election_inv_def)
  note cl = cluster_logs [OF li iN] and ix = index_invD(1) [OF inv(3) iN]
  have srt: "sorted_wrt inorder (net c')" using linkD(7) [OF link] net c'(3) by (simp add: sorted_wrt_append)
  have quiet: "sim N s c'" if "rlog rf' = rlog ?rf" "?t \<le> currentTerm rf'" "matchIdx rf' = matchIdx ?rf" "commitIdx rf' = commitIdx ?rf"
      "cApplyMsg rf' = cApplyMsg ?rf"
    by (rule link_quiet [OF link inv(1,2) i(1) c'(1) that c'(2)]) (use srt c'(3) net in auto)
  show ?thesis
  proof (cases "?t = ae_Term a \<and> state ?rf = LEADER \<and> \<not> ?t < aer_Term r")
    case False
    then have "rf' = ?rf \<or> rf' = persist (newTerm (aer_Term r) ?rf) \<and> ?t < aer_Term r"
      using sa by (auto simp: sendAppendEntries_def base_ok_baseIdx [OF cl(1)] split: if_splits)
    then show ?thesis by (intro quiet) auto
  next
    case True
    let ?n = "noteReply j a r ?rf"
    have o: "owner ?h ?t = Some i" "rlog ?rf = tlog ?h ?t" using cl(5) True by simp_all
    have adv: "advanceCommit 0 (int (length (rlog ?rf)) - 1) ?n = Inr rf'"
      using sendAppendEntries_advance [OF cl(1) ix, of j a r] sa i cl(3) N True by simp
    note n = linkD(5) [OF link i(1)]
    have st: "sowner s ?t = Some i" "stlog s ?t = rlog ?rf" using linkD(2,3) [OF link] o by simp_all
    have ca: "carries ?h i a" using index_invD(2) [OF inv(3) p] by simp
    have "base_ok (tlog ?h ?t)" using cl(1) o(2) by simp
    then have last: "Entries a \<noteq> [] \<Longrightarrow> Suc (nat (le_Index (last (Entries a)))) = reached a"
      using carries_last_index [OF ca] True by (simp add: reached_def nat_add_distrib)
    have ack: "acked s k ?t (Suc (nat (matchIdx ?n ! k)))" if k: "k < N" "k \<noteq> i" "0 < matchIdx ?n ! k" for k
    proof (cases "Success r \<and> Entries a \<noteq> [] \<and> k = j")
      case True
      then have "matchIdx ?n ! k = le_Index (last (Entries a))"
        using ix i(2) cl(3) N by (simp add: noteReply_def indices_ok_def)
      then show ?thesis using last linkD(6) [OF link p] True \<open>_ \<and> state ?rf = LEADER \<and> _\<close> by (auto simp: acked_def)
    next
      case False
      then have "matchIdx ?n ! k = matchIdx ?rf ! k" by (auto simp: noteReply_def)
      then show ?thesis using n k o(1) by (simp add: node_link_def)
    qed
    have c0: "0 \<le> commitIdx ?rf" and len: "length (matchIdx ?n) = npeers ?n" using ix by (simp_all add: indices_ok_def)
    have am: "cApplyMsg ?n = cApplyMsg ?rf" by (simp add: noteReply_def)
    have frame: "rlog rf' = rlog ?rf" "currentTerm rf' = ?t" "matchIdx rf' = matchIdx ?n" "cApplyMsg rf' = cApplyMsg ?rf"
      and com: "commitIdx rf' = commitIdx ?rf \<or> committable ?n (int (length (rlog ?n)) - 1) (commitIdx rf')"
      using advanceCommit_spec [OF len, of "int (length (rlog ?rf)) - 1"] c0 adv am by auto
    have "sealed N s (\<lambda>t. t < ?t \<or> t = ?t \<and> acked s i t (Suc (nat (commitIdx rf')))) (nat (commitIdx rf')) (rlog ?rf)"
      if "0 < commitIdx rf'"
    proof (cases "commitIdx rf' = commitIdx ?rf")
      case True
      then show ?thesis using that n by (simp add: node_link_def)
    next
      case False
      with com have "committable ?n (int (length (rlog ?n)) - 1) (commitIdx rf')" by simp
      from committable_committed [OF this, of i N s] c0 cl(3,4) N i st ack
      have "committed N s ?t (Suc (nat (commitIdx rf')))" "acked s i ?t (Suc (nat (commitIdx rf')))" by auto
      then show ?thesis unfolding sealed_def
        by (intro exI [of _ ?t] exI [of _ "Suc (nat (commitIdx rf'))"]) (simp add: st(2))
    qed
    then have "node_link N (hist c') s i rf'" using n frame ack o(1) by (simp add: node_link_def c'(2))
    then have "link N c' s"
      by (intro link_step [OF link inv(1,2) i(1) c'(1)]) (use frame c' srt net linkD(2,3) [OF link] in auto)
    then show ?thesis by (rule sim_stay)
  qed
qed

lemma applyFrom_msgs:
  "applyFrom n i 0 l = Inr ms \<Longrightarrow> m \<in> set ms \<Longrightarrow> \<exists>k. CommandIndex m = int k \<and> i \<le> int k \<and> int k < i + int n \<and> am_Command m = le_Command (l ! k)"
proof (induction n arbitrary: i ms)
  case (Suc n)
  from Suc.prems(1) obtain e ms' where e: "index l i = Inr e" "applyFrom n (i + 1) 0 l = Inr ms'"
      "ms = \<lparr>CommandValid = True, am_Command = le_Command e, CommandIndex = i\<rparr> # ms'"
    by (auto simp: go_bind_Inr_iff)
  show ?case
  proof (cases "m \<in> set ms'")
    case True
    from Suc.IH [OF e(2) True] show ?thesis by auto
  next
    case False
    with e Suc.prems(2) show ?thesis by (intro exI [of _ "nat i"]) (auto simp: index_Inr_iff)
  qed
qed simp

lemma link_apply:
  assumes link: "link N c s" and inv: "election_inv c" "log_inv c" "index_inv c" and i: "i < N"
    and ap: "applyCommitted ((nodes c ! i)\<lparr>appliers := x\<rparr>) = Inr rf'" and c': "nodes c' = (nodes c)[i := rf']" "hist c' = hist c" "net c' = net c"
  shows "sim N s c'"
proof -
  let ?rf = "nodes c ! i" and ?h = "hist c"
  have iN: "i < length (nodes c)" using i linkD(1) [OF link] by simp
  have base: "base_ok (rlog ?rf)" using log_invD(1) [OF inv(2) iN] by (simp add: agrees_def)
  then have bi: "baseIdx (?rf\<lparr>appliers := x\<rparr>) = Inr 0" using base_ok_baseIdx [of "?rf\<lparr>appliers := x\<rparr>"] by simp
  have ix: "indices_ok ?rf" using index_invD(1) [OF inv(3) iN] .
  note n = linkD(5) [OF link i]
  obtain ms where ms: "cApplyMsg rf' = cApplyMsg ?rf @ ms" "\<And>m. m \<in> set ms \<Longrightarrow> 0 < commitIdx ?rf \<and>
      (\<exists>k. CommandIndex m = int k \<and> int k \<le> commitIdx ?rf \<and> am_Command m = le_Command (rlog ?rf ! k))"
  proof (cases "appliedLast ?rf + 1 \<le> commitIdx ?rf")
    case True
    then obtain ms where m: "applyFrom (nat (commitIdx ?rf - appliedLast ?rf)) (appliedLast ?rf + 1) 0 (rlog ?rf) = Inr ms"
        "cApplyMsg rf' = cApplyMsg ?rf @ ms"
      using ap by (auto simp: applyCommitted_def bi go_bind_Inr_iff)
    show ?thesis
      by (rule that [of ms]) (use m(2) applyFrom_msgs [OF m(1)] True ix in \<open>force simp: indices_ok_def\<close>)+
  next
    case False
    with ap show ?thesis by (intro that [of "[]"]) (auto simp: applyCommitted_def)
  qed
  have "applied_ok N s m" if "m \<in> set ms" for m
  proof -
    from ms(2) [OF that] obtain k where k: "CommandIndex m = int k" "int k \<le> commitIdx ?rf" "am_Command m = le_Command (rlog ?rf ! k)"
      and pos: "0 < commitIdx ?rf" by blast
    from n pos obtain t q where t: "committed N s t q" "nat (commitIdx ?rf) < q"
        "take (Suc (nat (commitIdx ?rf))) (rlog ?rf) = take (Suc (nat (commitIdx ?rf))) (stlog s t)"
      unfolding node_link_def sealed_def by blast
    have kc: "k < Suc (nat (commitIdx ?rf))" using k(2) by simp
    then have "rlog ?rf ! k = take (Suc (nat (commitIdx ?rf))) (rlog ?rf) ! k" by simp
    also have "\<dots> = stlog s t ! k" unfolding t(3) using kc by simp
    finally show ?thesis using k t kc unfolding applied_ok_def by (intro exI [of _ k] exI [of _ t] exI [of _ q]) auto
  qed
  moreover have f: "rlog rf' = rlog ?rf" "currentTerm rf' = currentTerm ?rf" "matchIdx rf' = matchIdx ?rf" "commitIdx rf' = commitIdx ?rf"
    using ap by (auto simp: applyCommitted_def go_bind_Inr_iff split: if_splits)
  ultimately have "node_link N (hist c') s i rf'"
    using n ms(1) by (auto simp: node_link_def c'(2))
  then have "link N c' s"
    by (intro link_step [OF link inv(1,2) i c'(1)]) (use f c' linkD(2,3,7) [OF link] in auto)
  then show ?thesis by (rule sim_stay)
qed

subsection \<open>Asking for votes and sending heartbeats\<close>

lemma solicitVotes_args:
  assumes "solicitVotes rf = Inr ms" and "base_ok (rlog rf)" and "(j, a) \<in> set ms"
  shows "LastLogIdx a = int (length (rlog rf)) - 1 \<and> LastLogTerm a = le_Term (last (rlog rf))"
  using assms base_ok_last [OF assms(2)] by (auto simp: solicitVotes_def voteArgs_def go_bind_Inr_iff)

lemma link_solicit:
  assumes link: "link N c s" and inv: "election_inv c" "log_inv c" and i: "i < N" and step: "doSolicit i c = Some c'" and ok: "failed c' = failed c"
    "failed c = None"
  shows "sim N s c'"
proof -
  have iN: "i < length (nodes c)" using i linkD(1) [OF link] by simp
  have base: "base_ok (rlog (nodes c ! i))" using log_invD(1) [OF inv(2) iN] by (simp add: agrees_def)
  from step ok obtain t ts ms where 1: "solicitVotes ((nodes c ! i)\<lparr>solicits := ts\<rparr>) = Inr ms"
      "c' = (setNode i ((nodes c ! i)\<lparr>solicits := ts\<rparr>) c)\<lparr>net := net c @ map (\<lambda>(j, a). VoteReq i j a) ms\<rparr>"
    by (auto simp: doSolicit_def Let_def split: list.splits elim!: finish_cases)
  have new: "packet_link N (nodes c') (hist c) s (VoteReq i j a)" if "(j, a) \<in> set ms" for j a
    using solicitVotes_args [OF 1(1) _ that] base iN by (simp add: 1(2))
  have "sorted_wrt inorder (net c @ map (\<lambda>(j, a). VoteReq i j a) ms)"
  proof -
    have "inorder p (VoteReq i j a)" for p and j :: nat and a by (cases p) simp_all
    moreover have "sorted_wrt inorder (map (\<lambda>(j, a). VoteReq i j a) ms)" by (induction ms) auto
    ultimately show ?thesis using linkD(7) [OF link] by (auto simp: sorted_wrt_append)
  qed
  then show ?thesis
    by (intro link_quiet [OF link inv i, of c' "(nodes c ! i)\<lparr>solicits := ts\<rparr>"]) (use new in \<open>auto simp: 1(2)\<close>)
qed

text \<open>A call reaches the end of the leader's log.\<close>

lemma heartbeatFor_reached:
  assumes "heartbeatFor rf 0 j = Inr (Some a)" and "base_ok (rlog rf)"
  shows "reached a = length (rlog rf)" "LeaderCommit a = commitIdx rf"
proof -
  from assms base_ok_last [OF assms(2)] obtain n where n: "0 < n" "PrevLogIdx a = n - 1" "n - 1 < int (length (rlog rf))"
      "if n \<le> int (length (rlog rf)) - 1 then slice_from (rlog rf) n = Inr (Entries a) else Entries a = []" "LeaderCommit a = commitIdx rf"
    by (auto simp: heartbeatFor_def go_bind_Inr_iff index_Inr_iff split: if_splits)
  show "LeaderCommit a = commitIdx rf" by (fact n(5))
  show "reached a = length (rlog rf)"
  proof (cases "n \<le> int (length (rlog rf)) - 1")
    case True
    with n slice_from_ok [of "nat n" "rlog rf"] have "Entries a = drop (nat n) (rlog rf)" by simp
    with n(1-3) show ?thesis by (simp add: reached_def nat_diff_distrib)
  next
    case False
    with n show ?thesis by (simp add: reached_def nat_diff_distrib)
  qed
qed

lemma carries_reached: "carries h i a \<Longrightarrow> reached a \<le> length (tlog h (ae_Term a))"
proof -
  assume "carries h i a"
  then obtain p where p: "PrevLogIdx a = int p" "p < length (tlog h (ae_Term a))"
    "Entries a = take (length (Entries a)) (drop (Suc p) (tlog h (ae_Term a)))" by (auto simp: carries_def)
  have "length (Entries a) \<le> length (tlog h (ae_Term a)) - Suc p" by (subst p(3)) simp
  with p show ?thesis by (simp add: reached_def)
qed

lemma link_broadcast:
  assumes link: "link N c s" and si: "spec_inv N s" and inv: "election_inv c" "log_inv c" and i: "i < N"
    and step: "doBroadcast i c = Some c'" and ok: "failed c' = failed c" "failed c = None"
  shows "sim N s c'"
proof -
  let ?rf = "nodes c ! i" and ?h = "hist c" and ?t = "currentTerm (nodes c ! i)"
  let ?rf' = "?rf\<lparr>broadcasts := broadcasts ?rf - 1\<rparr>"
  have iN: "i < length (nodes c)" using i linkD(1) [OF link] by simp
  have li: "log_election_inv c" using inv by (simp add: log_election_inv_def)
  note cl = cluster_logs [OF li iN] and n = linkD(5) [OF link i]
  from step ok obtain ms where 1: "broadcastHeartbeat ?rf' = Inr ms"
      "c' = (setNode i ?rf' c)\<lparr>net := net c @ map (\<lambda>(j, a). AppReq i j a) ms\<rparr>"
    by (auto simp: doBroadcast_def Let_def split: if_splits elim!: finish_cases)
  have made: "heartbeatFor ?rf' 0 j = Inr (Some a)" if "(j, a) \<in> set ms" for j a
    using that 1(1) base_ok_baseIdx [of ?rf'] cl(1) by (auto simp: broadcastHeartbeat_def go_bind_Inr_iff intro: heartbeats_made)
  have msg: "reached a = length (rlog ?rf)" "LeaderCommit a = commitIdx ?rf" "state ?rf = LEADER" "ae_Term a = ?t"
    if "(j, a) \<in> set ms" for j a
    using heartbeatFor_reached [OF made [OF that]] heartbeatFor_carries [OF made [OF that]] cl(1) by simp_all
  have new: "packet_link N (nodes c') ?h s (AppReq i j a)" if "(j, a) \<in> set ms" for j a
  proof -
    note m = msg [OF that]
    have o: "owner ?h ?t = Some i" "tlog ?h ?t = rlog ?rf" using cl(5) m(3) by simp_all
    then have st: "sowner s ?t = Some i" "stlog s ?t = rlog ?rf" using linkD(2,3) [OF link] by simp_all
    have "length (selog s ?t) \<le> length (rlog ?rf)" using spec_invD(3) [OF si st(1)] st(2) by (auto simp: leader_log_def)
    moreover have "q \<le> length (rlog ?rf)" if "(j, ?t, q) \<in> sacks s" for q
      using that spec_invD(6) [OF si, of j ?t q] st(2) by (auto simp: acked_def)
    moreover have "sealed N s (\<lambda>t. t \<le> ?t) (nat (commitIdx ?rf)) (rlog ?rf)" if "0 < commitIdx ?rf"
      by (rule sealed_le [OF _ spec_le_refl, of N _ "\<lambda>t. t < ?t \<or> t = ?t \<and> acked s i t (Suc (nat (commitIdx ?rf)))"])
         (use n that in \<open>auto simp: node_link_def\<close>)
    ultimately show ?thesis using m o(2) by simp
  qed
  have "inorder p (AppReq i j a)" if "p \<in> set (net c)" "(j, a) \<in> set ms" for p j a
  proof (cases p)
    case (AppReq k l b)
    have "reached b \<le> length (rlog ?rf)" if "ae_Term b = ?t"
      using carries_reached [of ?h k b] log_invD(4) [OF inv(2) \<open>p \<in> set (net c)\<close>] AppReq that cl(5) msg(3) [OF \<open>(j, a) \<in> set ms\<close>] by simp
    then show ?thesis using AppReq msg [OF that(2)] by auto
  qed simp_all
  moreover have "sorted_wrt inorder (map (\<lambda>(j, a). AppReq i j a) ms)"
  proof -
    have "sorted_wrt inorder (map (\<lambda>(j, a). AppReq i j a) xs)" if "\<forall>(j, a) \<in> set xs. reached a = length (rlog ?rf)" for xs
      using that by (induction xs) auto
    then show ?thesis using msg(1) by auto
  qed
  ultimately have "sorted_wrt inorder (net c')" using linkD(7) [OF link] by (auto simp: 1(2) sorted_wrt_append)
  then show ?thesis
    by (intro link_quiet [OF link inv i, of c' ?rf']) (use new in \<open>auto simp: 1(2)\<close>)
qed

section \<open>Every action of an orderly run is simulated\<close>

lemma orderly_not_failed:
  assumes "orderly_act a c = Some c'" and "link N c s" and "index_log_inv c"
  shows "failed c = None" "failed c' = None"
proof -
  have t: "timely_act a c = Some c'" using assms(1) by (rule orderly_timely)
  then show "failed c = None" by (auto simp: timely_act_def cluster_act_def split: if_splits)
  have inv: "log_election_inv c" "index_inv c" using assms(3) by (simp_all add: index_log_inv_def)
  show "failed c' = None"
  proof (rule ccontr)
    assume "failed c' \<noteq> None"
    from timely_index_step(2) [OF t inv this] obtain i where
      i: "i < length (nodes c)" "int (length (rlog (nodes c ! i))) \<le> commitIdx (nodes c ! i)" by blast
    then have "i < N" "0 < commitIdx (nodes c ! i)"
      using linkD(1) [OF assms(2)] cluster_logs(2) [OF inv(1) i(1)] by (auto simp: neq_Nil_conv)
    then have "nat (commitIdx (nodes c ! i)) < length (rlog (nodes c ! i))"
      using linkD(5) [OF assms(2), of i] sealed_length unfolding node_link_def by blast
    with i(2) show False by linarith
  qed
qed

lemma link_packet:
  assumes link: "link N c s" and si: "spec_inv N s" and inv: "index_log_inv c" "index_log_inv c'" and net: "net c = ps @ p # qs"
    and step: "doPacket p (c\<lparr>net := ps @ qs\<rparr>) = Some c'" and ok: "failed c' = None" "failed c = None" and hx: "hext (hist c) (hist c')"
    and ord: "\<And>i j a. p = AppReq i j a \<Longrightarrow> \<forall>q \<in> set ps. \<not> isCall i j q"
    and fresh: "\<And>i j a r. p = VoteRep i j a r \<Longrightarrow> winsWith a r (nodes c ! i) \<Longrightarrow>
      owner (hist c) (currentTerm (nodes c ! i)) = Some i \<or> list_all (\<lambda>m. m = 0) (matchIdx (nodes c ! i))"
  shows "sim N s c'"
proof -
  have le: "log_election_inv c" "log_election_inv c'" and ix: "index_inv c" using inv by (simp_all add: index_log_inv_def)
  have el: "election_inv c" "log_inv c" using le(1) by (simp_all add: log_election_inv_def)
  have N: "length (nodes c) = N" using linkD(1) [OF link] .
  have pin: "p \<in> set (net c)" using net by simp
  have pk: "packet_ok N (hist c) p" using election_invD(2) [OF el(1) pin] N by simp
  have srt: "sorted_wrt inorder (ps @ qs)" using linkD(7) [OF link] net by (simp add: sorted_wrt_append)
  show ?thesis
  proof (cases p)
    case (VoteReq i j a)
    from step ok obtain rf r where 1: "RequestVote a (nodes c ! j) = Inr (rf, r)"
        "c' = (setNode j rf (c\<lparr>net := ps @ qs\<rparr>))\<lparr>net := ps @ qs @ [VoteRep i j a r], hist := recordVote j a r (hist c)\<rparr>"
      unfolding VoteReq doPacket_def packet.case by (elim finish_cases) auto
    show ?thesis
    proof (cases "VoteGranted r")
      case True
      then show ?thesis
        using 1 pk VoteReq net by (intro link_grant [OF link el _ 1(1)]) (auto simp: recordVote_def)
    next
      case False
      then show ?thesis
        by (intro link_quiet [OF link el, of j c' rf])
           (use 1 pk VoteReq net srt RequestVote_term [OF 1(1)] RequestVote_log [OF 1(1)] in
            \<open>auto simp: recordVote_def sorted_wrt_append RequestVote_def go_bind_Inr_iff Let_def sendHeartbeat_def split: if_splits\<close>)
    qed
  next
    case (VoteRep i j a r)
    from step ok obtain rf where 1: "sendRequestVote True a r (nodes c ! i) = Inr rf"
        "c' = (if counts a r (nodes c ! i) then (setNode i rf (c\<lparr>net := ps @ qs\<rparr>))\<lparr>hist := recordCount i j rf (hist c)\<rparr>
               else setNode i rf (c\<lparr>net := ps @ qs\<rparr>))"
      unfolding VoteRep doPacket_def packet.case by (elim finish_cases) (auto simp: Let_def)
    show ?thesis
    proof (cases "counts a r (nodes c ! i)")
      case True
      then show ?thesis
        using 1 VoteRep net hx fresh [OF VoteRep]
        by (intro link_count [OF link el ix _ 1(1) True]) (auto simp: winsWith_def)
    next
      case False
      then show ?thesis
        by (intro link_quiet [OF link el, of i c' rf])
           (use 1 pk VoteRep net srt sendRequestVote_term [OF 1(1)] sendRequestVote_frame [OF 1(1)] in auto)
    qed
  next
    case (AppReq i j a)
    with pk N have j: "j < N" "j < length (nodes c)" by simp_all
    have base: "base_ok (rlog (nodes c ! j))" using cluster_logs(1) [OF le(1) j(2)] .
    obtain k where k: "PrevLogIdx a = int k" using log_invD(4) [OF el(2) pin] AppReq by (auto simp: carries_def)
    from step ok obtain rf r where 1: "AppendEntries a (nodes c ! j) = Inr (rf, r)"
        "c' = (setNode j rf (c\<lparr>net := ps @ qs\<rparr>))\<lparr>net := ps @ qs @ [AppRep i j a r]\<rparr>"
      unfolding AppReq doPacket_def packet.case by (elim finish_cases) auto
    note res = AppendEntries_result [OF 1(1) base k]
    show ?thesis
    proof (cases "Success r")
      case True
      have "base_ok (rlog rf)" using cluster_logs(1) [OF le(2), of j] j 1(2) by simp
      then show ?thesis
        using 1(2) AppReq net ord [OF AppReq] by (intro link_accept [OF link si el _ _ 1(1) True]) auto
    next
      case False
      then show ?thesis
        by (intro link_quiet [OF link el j(1), of c' rf])
           (use 1 AppReq net srt res(1,2) AppendEntries_quiet [OF 1(1), THEN quiet_term] in \<open>auto simp: sorted_wrt_append\<close>)
    qed
  next
    case (AppRep i j a r)
    from step ok obtain rf where 1: "sendAppendEntries True j a r (nodes c ! i) = Inr rf" "c' = setNode i rf (c\<lparr>net := ps @ qs\<rparr>)"
      unfolding AppRep doPacket_def packet.case by (elim finish_cases) auto
    then show ?thesis using AppRep net by (intro link_reply [OF link el ix _ 1(1)]) auto
  qed
qed

lemma tick_frame:
  "tickTop rf = Some rf' \<Longrightarrow> matchIdx rf' = matchIdx rf \<and> commitIdx rf' = commitIdx rf \<and> cApplyMsg rf' = cApplyMsg rf"
  "tickSelect ch rf = Some rf' \<Longrightarrow> matchIdx rf' = matchIdx rf \<and> commitIdx rf' = commitIdx rf \<and> cApplyMsg rf' = cApplyMsg rf"
  by (auto simp: tickTop_def tickSelect_def Let_def split: if_splits role.splits ticker_pc.splits tick_choice.splits)

lemma link_local:
  assumes link: "link N c s" and inv: "index_log_inv c" "terms_nonneg c" and i: "i < N" and ok: "failed c' = None" "failed c = None"
  shows "doTick i c = Some c' \<Longrightarrow> sim N s c'" "doSelect i ch c = Some c' \<Longrightarrow> sim N s c'" "doApply i c = Some c' \<Longrightarrow> sim N s c'"
proof -
  have el: "election_inv c" "log_inv c" "index_inv c" using inv(1) by (simp_all add: index_log_inv_def log_election_inv_def)
  have iN: "i < length (nodes c)" using i linkD(1) [OF link] by simp
  note quiet = link_quiet [OF link el(1,2) i]
  show "sim N s c'" if t: "doTick i c = Some c'"
  proof (cases "state (nodes c ! i) = CANDIDATE")
    case True
    then show ?thesis using link_campaign [OF link el(1,2) i _ True t] inv(2) iN by (simp add: terms_nonneg_def)
  next
    case False
    with t obtain rf where 1: "tickTop (nodes c ! i) = Some rf" "c' = setNode i rf c"
      by (auto simp: doTick_def Let_def split: option.splits)
    show ?thesis
      by (rule quiet [of c' rf])
         (use 1 tick_frame(1) [OF 1(1)] tickTop_log [OF 1(1)] tickTop_term [OF 1(1)] linkD(7) [OF link] in auto)
  qed
  show "sim N s c'" if "doSelect i ch c = Some c'"
  proof -
    from that obtain rf where 1: "tickSelect ch (nodes c ! i) = Some rf" "c' = setNode i rf c" by (auto simp: doSelect_def)
    show ?thesis
      by (rule quiet [of c' rf])
         (use 1 tick_frame(2) [OF 1(1)] tickSelect_log [OF 1(1)] tickSelect_quiet [OF 1(1), THEN quiet_term] linkD(7) [OF link] in auto)
  qed
  show "sim N s c'" if "doApply i c = Some c'"
  proof -
    let ?rf = "nodes c ! i"
    from that ok obtain rf where 1: "applyCommitted (?rf\<lparr>appliers := appliers ?rf - 1\<rparr>) = Inr rf" "c' = setNode i rf c"
      by (auto simp: doApply_def Let_def split: if_splits elim!: finish_cases)
    then show ?thesis by (intro link_apply [OF link el i 1(1)]) auto
  qed
qed

theorem link_act:
  assumes "orderly_act a c = Some c'" and "link N c s" and "spec_inv N s" and "index_log_inv c" and "terms_nonneg c"
  shows "sim N s c'"
proof -
  have t: "timely_act a c = Some c'" using assms(1) by (rule orderly_timely)
  note ok = orderly_not_failed [OF assms(1,2,4)]
  have st: "cluster_step a c = Some c'" and nr: "\<And>i. a \<noteq> Restart i"
    using t by (auto simp: timely_act_def cluster_act_def timely_def split: if_splits)
  have od: "orderly a c" using assms(1) by (simp add: orderly_act_def split: if_splits)
  have inv': "index_log_inv c'" using rindices.act_inv [OF t assms(4)] .
  have le: "log_election_inv c" and el: "election_inv c" "log_inv c"
    using assms(4) by (simp_all add: index_log_inv_def log_election_inv_def)
  have N: "length (nodes c) = N" using linkD(1) [OF assms(2)] .
  note loc = link_local [OF assms(2,4,5) _ ok(2,1)]
  have f: "failed c' = failed c" using ok by simp
  show ?thesis
  proof (cases a)
    case (Deliver k)
    then have k: "k < length (net c)" "doPacket (net c ! k) (c\<lparr>net := take k (net c) @ drop (Suc k) (net c)\<rparr>) = Some c'"
      using st by (auto simp: cluster_step_def removePacket_def split: if_splits)
    show ?thesis
      by (rule link_packet [OF assms(2-4) inv' id_take_nth_drop [OF k(1)] k(2) ok(2,1) timely_hext [OF t le]])
         (use od Deliver k(1) in \<open>auto simp: orderly_def list_all_iff\<close>)
  next
    case (Drop k)
    then have k: "k < length (net c)" and c': "c' = c\<lparr>net := take k (net c) @ drop (Suc k) (net c)\<rparr>"
      using st by (auto simp: cluster_step_def removePacket_def split: if_splits)
    have "sorted_wrt inorder (take k (net c) @ net c ! k # drop (Suc k) (net c))"
      unfolding id_take_nth_drop [OF k, symmetric] by (rule linkD(7) [OF assms(2)])
    then have "sorted_wrt inorder (take k (net c) @ drop (Suc k) (net c))" by (simp add: sorted_wrt_append)
    moreover have "set (take k (net c) @ drop (Suc k) (net c)) \<subseteq> set (net c)" by (auto dest: in_set_takeD in_set_dropD)
    ultimately have "link N c' s" using assms(2) by (auto simp: link_def c')
    then show ?thesis by (rule sim_stay)
  next
    case (Solicit i)
    then show ?thesis using st link_solicit [OF assms(2) el _ _ f ok(1)] N by (auto simp: cluster_step_def split: if_splits)
  next
    case (Broadcast i)
    then show ?thesis using st link_broadcast [OF assms(2,3) el _ _ f ok(1)] N by (auto simp: cluster_step_def split: if_splits)
  next
    case (Submit i cmd)
    then show ?thesis using st link_submit [OF assms(2) el _ _ f ok(1)] N by (auto simp: cluster_step_def split: if_splits)
  qed (use st nr loc N in \<open>auto simp: cluster_step_def split: if_splits\<close>)
qed

end
