(* ===== verification/RaftSafety.thy ===== *)
theory RaftSafety
  imports RaftRefine "HOL-Library.Sublist"
begin

text \<open>
  What the simulation of \<open>RaftRefine\<close> gives for the cluster of \<^verbatim>\<open>lab3/raft/raft.go\<close>: in orderly runs a leader has every
  entry committed before it, all peers deliver the same commands in the same order without gaps, and nothing panics.
\<close>

section \<open>Reachable clusters implement the specification\<close>

definition spec_start :: "nat \<Rightarrow> 'c spec" where
  "spec_start k = \<lparr>sterm = (\<lambda>_. 0), slog = (\<lambda>_. [\<lparr>le_Term = 0, le_Command = None, le_Index = 0\<rparr>]), sowner = (\<lambda>_. None),
     stlog = (\<lambda>_. []), selog = (\<lambda>_. []), sacks = {},
     svotes = (\<lambda>i. (i, 0, i, [\<lparr>le_Term = 0, le_Command = None, le_Index = 0\<rparr>])) ` {..<k}\<rparr>"

lemma Make_fresh:
  "currentTerm (Make n i MakePersister) = 0" "rlog (Make n i MakePersister) = [\<lparr>le_Term = 0, le_Command = None, le_Index = 0\<rparr>]"
  "commitIdx (Make n i MakePersister) = 0" "appliedLast (Make n i MakePersister) = 0" "cApplyMsg (Make n i MakePersister) = []"
  "matchIdx (Make n i MakePersister) = replicate n 0"
  by (simp_all add: Make_def Let_def persist_def readPersist_def ReadRaftState_def MakePersister_def)

section \<open>What a peer delivers\<close>

text \<open>A peer has delivered the commands 1, 2, ... up to \<open>appliedLast\<close>, once each and in this order.\<close>

definition delivered :: "'c Raft \<Rightarrow> bool" where
  "delivered rf \<longleftrightarrow> 0 \<le> appliedLast rf \<and> appliedLast rf \<le> commitIdx rf \<and>
     map CommandIndex (cApplyMsg rf) = map int [1..<Suc (nat (appliedLast rf))] \<and> (\<forall>m \<in> set (cApplyMsg rf). CommandValid m)"

text \<open>The handlers other than the applier deliver nothing, and the commit index does not go down.\<close>

definition undelivered :: "'c Raft \<Rightarrow> 'c Raft \<Rightarrow> bool" where
  "undelivered rf rf' \<longleftrightarrow> appliedLast rf' = appliedLast rf \<and> cApplyMsg rf' = cApplyMsg rf \<and> commitIdx rf \<le> commitIdx rf'"

lemma delivered_frame: "delivered rf \<Longrightarrow> undelivered rf rf' \<Longrightarrow> delivered rf'"
  by (simp add: delivered_def undelivered_def)

lemma RequestVote_undelivered: "RequestVote a rf = Inr (rf', r) \<Longrightarrow> undelivered rf rf'"
  by (auto simp: RequestVote_def go_bind_Inr_iff Let_def sendHeartbeat_def undelivered_def split: if_splits)

lemma sendRequestVote_undelivered: "sendRequestVote ok a r rf = Inr rf' \<Longrightarrow> undelivered rf rf'"
  by (auto simp: sendRequestVote_def Let_def go_bind_Inr_iff setNextIdx_def sendWin_def undelivered_def split: if_splits)

lemma advanceCommit_undelivered: "advanceCommit b i rf = Inr rf' \<Longrightarrow> undelivered rf rf'"
proof (induction "nat (i - commitIdx rf)" arbitrary: i rule: less_induct)
  case less
  show ?case
  proof (cases "commitIdx rf < i")
    case True
    then have "rf' = rf\<lparr>commitIdx := i, appliers := Suc (appliers rf)\<rparr> \<or> rf' = rf \<or> advanceCommit b (i - 1) rf = Inr rf'"
      using less.prems unfolding advanceCommit.simps [of b i rf] by (simp split: if_splits sum.splits)
    then show ?thesis using less.hyps [of "i - 1"] True by (auto simp: undelivered_def)
  next
    case False
    with less.prems show ?thesis by (subst (asm) advanceCommit.simps) (simp add: undelivered_def)
  qed
qed

lemma sendAppendEntries_undelivered: "sendAppendEntries ok k a r rf = Inr rf' \<Longrightarrow> undelivered rf rf'"
  by (auto simp: sendAppendEntries_def go_bind_Inr_iff Let_def undelivered_def split: if_splits dest!: advanceCommit_undelivered)

lemma Start_undelivered: "Start x rf = Inr (rf', u) \<Longrightarrow> undelivered rf rf'"
  by (auto simp: Start_def go_bind_Inr_iff Let_def undelivered_def split: if_splits)

lemma tick_undelivered: "tickTop rf = Some rf' \<Longrightarrow> undelivered rf rf'" "tickSelect ch rf = Some rf' \<Longrightarrow> undelivered rf rf'"
  by (auto simp: tickTop_def tickSelect_def Let_def undelivered_def split: if_splits role.splits ticker_pc.splits tick_choice.splits)

lemma AppendEntries_undelivered:
  assumes "AppendEntries a rf = Inr (rf', r)" and "base_ok (rlog rf)" and "PrevLogIdx a = int p"
    and "Success r \<Longrightarrow> commitIdx rf \<le> le_Index (last (rlog rf'))"
  shows "undelivered rf rf'"
proof (cases "ae_Term a < currentTerm rf")
  case True
  with assms(1) show ?thesis by (auto simp: AppendEntries_def go_bind_Inr_iff undelivered_def)
next
  case False
  note res = AppendEntries_result [OF assms(1-3)]
  from AppendEntries_outcome [OF assms(1-3) False] obtain rf2 where
    "sendHeartbeat (if currentTerm rf < ae_Term a then newTerm (ae_Term a) rf else rf) = Inr rf2"
    "rf' = rf2 \<or> rf' = persist rf2 \<or> installEntries a 0 rf2 = Inr (rf', r)" by metis
  then have "appliedLast rf' = appliedLast rf" by (auto simp: sendHeartbeat_def split: if_splits dest: installEntries_commit)
  with res assms(4) show ?thesis by (cases "Success r") (auto simp: undelivered_def)
qed

text \<open>The indices an applier sends.\<close>

lemma applyFrom_valid: "applyFrom n i b l = Inr ms \<Longrightarrow> \<forall>m \<in> set ms. CommandValid m"
  by (induction n arbitrary: i ms) (auto simp: go_bind_Inr_iff)

lemma applyFrom_indices: "applyFrom n i b l = Inr ms \<Longrightarrow> map CommandIndex ms = map (\<lambda>k. i + int k) [0..<n]"
proof (induction n arbitrary: i ms)
  case (Suc n)
  then obtain ms' m where m: "ms = m # ms'" "CommandIndex m = i" "applyFrom n (i + 1) b l = Inr ms'"
    by (auto simp: go_bind_Inr_iff)
  have up: "[0..<Suc n] = 0 # map Suc [0..<n]" by (subst upt_conv_Cons) (simp_all add: map_Suc_upt)
  show ?case unfolding up using m Suc.IH [OF m(3)] by (simp add: o_def add.assoc)
qed simp

lemma applyCommitted_delivered:
  assumes "applyCommitted rf = Inr rf'" and "delivered rf"
  shows "delivered rf'"
proof (cases "appliedLast rf + 1 \<le> commitIdx rf")
  case True
  then obtain base ms where m: "applyFrom (nat (commitIdx rf - appliedLast rf)) (appliedLast rf + 1) base (rlog rf) = Inr ms"
      "rf' = rf\<lparr>cApplyMsg := cApplyMsg rf @ ms, appliedLast := commitIdx rf\<rparr>"
    using assms(1) by (auto simp: applyCommitted_def go_bind_Inr_iff)
  define a d where "a = nat (appliedLast rf)" and "d = nat (commitIdx rf - appliedLast rf)"
  have ad: "appliedLast rf = int a" "commitIdx rf = int (a + d)" using True assms(2) by (simp_all add: a_def d_def delivered_def)
  have "map CommandIndex ms = map (\<lambda>k. int (Suc a) + int k) [0..<d]"
    using applyFrom_indices [OF m(1) [folded d_def, unfolded ad(1)]] by (simp add: add.commute)
  also have "\<dots> = map int [Suc a..<Suc (a + d)]"
    by (rule nth_equalityI) (auto simp del: upt_Suc)
  finally have "map CommandIndex (cApplyMsg rf @ ms) = map int ([1..<Suc a] @ [Suc a..<Suc (a + d)])"
    using assms(2) by (simp add: delivered_def ad(1))
  also have "[1..<Suc a] @ [Suc a..<Suc (a + d)] = [1..<Suc (a + d)]"
    using upt_add_eq_append [of 1 "Suc a" d] by simp
  finally have ix: "map CommandIndex (cApplyMsg rf @ ms) = map int [1..<Suc (a + d)]" .
  have "nat (commitIdx rf) = a + d" using ad(2) by simp
  then show ?thesis using m(2) ix ad assms(2) applyFrom_valid [OF m(1)] by (auto simp: delivered_def simp del: upt_Suc map_append)
next
  case False
  with assms(2) have "commitIdx rf = appliedLast rf" by (simp add: delivered_def)
  with False assms show ?thesis by (auto simp: applyCommitted_def delivered_def simp del: upt_Suc)
qed

section \<open>The invariant of orderly runs\<close>

definition orderly_inv :: "nat \<Rightarrow> 'c cluster \<Rightarrow> bool" where
  "orderly_inv n c \<longleftrightarrow> index_log_inv c \<and> terms_nonneg c \<and> failed c = None \<and> (\<forall>i < length (nodes c). delivered (nodes c ! i)) \<and>
     (\<exists>s. reach spec_init (spec_step n) s \<and> link n c s)"

lemma accept_keeps_commit:
  assumes link: "link n c s" and si: "spec_inv n s" and li: "log_election_inv c" "log_election_inv c'" and p: "AppReq i j a \<in> set (net c)"
    and ae: "AppendEntries a (nodes c ! j) = Inr (rf', r)" "Success r" and ns: "nodes c' = (nodes c)[j := rf']"
    and ix: "0 \<le> commitIdx (nodes c ! j)"
  shows "commitIdx (nodes c ! j) \<le> le_Index (last (rlog rf'))"
proof -
  let ?rf = "nodes c ! j" and ?h = "hist c" and ?u = "ae_Term a"
  have el: "election_inv c" "log_inv c" using li(1) by (simp_all add: log_election_inv_def)
  have j: "j < n" "j < length (nodes c)" using election_invD(2) [OF el(1) p] linkD(1) [OF link] by simp_all
  have base: "base_ok (rlog ?rf)" "base_ok (rlog rf')" using cluster_logs(1) [OF li(1) j(2)] cluster_logs(1) [OF li(2), of j] ns j(2) by simp_all
  have ca: "i \<noteq> j" "carries ?h i a" using log_invD(4) [OF el(2) p] by simp_all
  then obtain k where k: "PrevLogIdx a = int k" "k < length (tlog ?h ?u)" "PrevLogTerm a = le_Term (tlog ?h ?u ! k)"
      "Entries a = take (length (Entries a)) (drop (Suc k) (tlog ?h ?u))" and o: "owner ?h ?u = Some i" by (auto simp: carries_def)
  have st: "sowner s ?u = Some i" "stlog s ?u = tlog ?h ?u" using linkD(2,3) [OF link] o by simp_all
  note res = AppendEntries_result(3) [OF ae(1) base(1) k(1) ae(2)]
  have ag: "agrees ?h (rlog ?rf)" "agrees ?h (tlog ?h ?u)" using log_invD(1) [OF el(2) j(2)] log_invD(3) [OF el(2) o] .
  have lg: "rlog rf' = take (reached a) (stlog s ?u)"
    using merged_take [OF ag _ k(2) _ k(4)] res k(1,3) st(2) by (simp add: reached_def)
  have pl: "length (selog s ?u) \<le> reached a" "\<forall>m. (j, ?u, m) \<in> sacks s \<longrightarrow> m \<le> reached a" using linkD(6) [OF link p] by simp_all
  have "nat (commitIdx ?rf) < length (rlog rf')"
  proof (cases "0 < commitIdx ?rf")
    case True
    with linkD(5) [OF link j(1)] sealed_accept [OF si _ _ st(1) ca(1) pl spec_le_refl, of "currentTerm ?rf" "nat (commitIdx ?rf)" "rlog ?rf"] res
    show ?thesis unfolding lg by (intro sealed_length) (auto simp: node_link_def)
  next
    case False
    then show ?thesis using base(2) by (auto simp: base_ok_def)
  qed
  then show ?thesis using base_ok_last [OF base(2)] ix by simp
qed

lemma delivered_packet:
  assumes link: "link n c s" and si: "spec_inv n s" and li: "log_election_inv c" "log_election_inv c'" "index_inv c" and net: "net c = ps @ p # qs"
    and step: "doPacket p (c\<lparr>net := ps @ qs\<rparr>) = Some c'" and ok: "failed c' = None" "failed c = None"
    and d: "\<forall>i < length (nodes c). delivered (nodes c ! i)"
  shows "\<forall>i < length (nodes c'). delivered (nodes c' ! i)"
proof -
  have upd: "\<forall>i < length (nodes c'). delivered (nodes c' ! i)" if "nodes c' = (nodes c)[k := rf']" "undelivered (nodes c ! k) rf'" for k rf'
  proof (intro allI impI)
    fix i assume i: "i < length (nodes c')"
    then show "delivered (nodes c' ! i)" using d that delivered_frame by (cases "i = k") auto
  qed
  have pin: "p \<in> set (net c)" using net by simp
  show ?thesis
  proof (cases p)
    case (VoteReq i j a)
    from step ok obtain rf r where 1: "RequestVote a (nodes c ! j) = Inr (rf, r)" "nodes c' = (nodes c)[j := rf]"
      unfolding VoteReq doPacket_def packet.case by (elim finish_cases) auto
    show ?thesis by (rule upd [OF 1(2) RequestVote_undelivered [OF 1(1)]])
  next
    case (VoteRep i j a r)
    from step ok obtain rf where 1: "sendRequestVote True a r (nodes c ! i) = Inr rf" "nodes c' = (nodes c)[i := rf]"
      unfolding VoteRep doPacket_def packet.case by (elim finish_cases) (auto simp: Let_def)
    show ?thesis by (rule upd [OF 1(2) sendRequestVote_undelivered [OF 1(1)]])
  next
    case (AppReq i j a)
    from step ok obtain rf r where 1: "AppendEntries a (nodes c ! j) = Inr (rf, r)" "nodes c' = (nodes c)[j := rf]"
      unfolding AppReq doPacket_def packet.case by (elim finish_cases) auto
    have el: "election_inv c" "log_inv c" using li(1) by (simp_all add: log_election_inv_def)
    have j: "j < length (nodes c)" using election_invD(2) [OF el(1) pin] AppReq by simp
    obtain k where k: "PrevLogIdx a = int k" using log_invD(4) [OF el(2) pin] AppReq by (auto simp: carries_def)
    have "0 \<le> commitIdx (nodes c ! j)" using index_invD(1) [OF li(3) j] by (simp add: indices_ok_def)
    then show ?thesis
      by (intro upd [OF 1(2)] AppendEntries_undelivered [OF 1(1) cluster_logs(1) [OF li(1) j] k]
          accept_keeps_commit [OF link si li(1,2) _ 1(1) _ 1(2)]) (use pin AppReq in auto)
  next
    case (AppRep i j a r)
    from step ok obtain rf where 1: "sendAppendEntries True j a r (nodes c ! i) = Inr rf" "nodes c' = (nodes c)[i := rf]"
      unfolding AppRep doPacket_def packet.case by (elim finish_cases) auto
    show ?thesis by (rule upd [OF 1(2) sendAppendEntries_undelivered [OF 1(1)]])
  qed
qed

lemma delivered_update:
  "\<forall>i < length xs. delivered (xs ! i) \<Longrightarrow> delivered rf \<Longrightarrow> \<forall>i < length xs. delivered (xs[k := rf] ! i)"
  by (metis nth_list_update_eq nth_list_update_neq)

lemma delivered_local:
  assumes "\<forall>i < length (nodes c). delivered (nodes c ! i)" and "i < length (nodes c)" and ok: "failed c' = None" "failed c = None"
  shows "doTick i c = Some c' \<Longrightarrow> \<forall>i < length (nodes c'). delivered (nodes c' ! i)"
    "doSelect i ch c = Some c' \<Longrightarrow> \<forall>i < length (nodes c'). delivered (nodes c' ! i)"
    "doSolicit i c = Some c' \<Longrightarrow> \<forall>i < length (nodes c'). delivered (nodes c' ! i)"
    "doBroadcast i c = Some c' \<Longrightarrow> \<forall>i < length (nodes c'). delivered (nodes c' ! i)"
    "doApply i c = Some c' \<Longrightarrow> \<forall>i < length (nodes c'). delivered (nodes c' ! i)"
    "doSubmit i cmd c = Some c' \<Longrightarrow> \<forall>i < length (nodes c'). delivered (nodes c' ! i)"
proof -
  let ?rf = "nodes c ! i"
  have d: "delivered ?rf" using assms(1,2) by simp
  have upd: "\<forall>i < length (nodes c'). delivered (nodes c' ! i)" if "nodes c' = (nodes c)[i := rf']" "delivered rf'" for rf'
    unfolding that(1) using delivered_update [OF assms(1) that(2)] by simp
  have same: "delivered (?rf\<lparr>solicits := ts\<rparr>)" "delivered (?rf\<lparr>broadcasts := b\<rparr>)" "delivered (?rf\<lparr>appliers := b\<rparr>)" for ts b
    using d by (simp_all add: delivered_def)
  show "doTick i c = Some c' \<Longrightarrow> \<forall>i < length (nodes c'). delivered (nodes c' ! i)"
    by (rule upd [of "the (tickTop ?rf)"])
       (auto simp: doTick_def Let_def split: option.splits if_splits intro: delivered_frame [OF d] tick_undelivered)
  show "doSelect i ch c = Some c' \<Longrightarrow> \<forall>i < length (nodes c'). delivered (nodes c' ! i)"
    by (rule upd [of "the (tickSelect ch ?rf)"]) (auto simp: doSelect_def intro: delivered_frame [OF d tick_undelivered(2)])
  show "doSolicit i c = Some c' \<Longrightarrow> \<forall>i < length (nodes c'). delivered (nodes c' ! i)"
    using same(1) ok by (auto simp: doSolicit_def Let_def split: list.splits elim!: finish_cases intro!: delivered_update [OF assms(1), rule_format])
  show "doBroadcast i c = Some c' \<Longrightarrow> \<forall>i < length (nodes c'). delivered (nodes c' ! i)"
    using same(2) ok by (auto simp: doBroadcast_def Let_def split: if_splits elim!: finish_cases intro!: delivered_update [OF assms(1), rule_format])
  show "doApply i c = Some c' \<Longrightarrow> \<forall>i < length (nodes c'). delivered (nodes c' ! i)"
    using applyCommitted_delivered [OF _ same(3)] ok
    by (auto simp: doApply_def Let_def split: if_splits elim!: finish_cases intro!: delivered_update [OF assms(1), rule_format])
  show "doSubmit i cmd c = Some c' \<Longrightarrow> \<forall>i < length (nodes c'). delivered (nodes c' ! i)"
    using delivered_frame [OF d Start_undelivered] ok
    by (auto simp: doSubmit_def Let_def split: if_splits prod.splits elim!: finish_cases intro!: delivered_update [OF assms(1), rule_format])
qed

section \<open>Every orderly run keeps the invariant\<close>

text \<open>A fresh peer counts as having voted for itself in term 0, where no election is held.\<close>

lemma spec_start_reach: "reach spec_init (spec_step n) (spec_start k :: 'c spec)"
proof (induction k)
  case 0
  show ?case by (rule reach_init) (simp add: spec_init_def spec_start_def)
next
  case (Suc k)
  have "spec_step n (spec_start k) (spec_start (Suc k) :: 'c spec)"
    using spec_step.spec_vote [of "spec_start k" k 0 n k]
    by (simp add: spec_start_def fun_upd_idem lessThan_Suc)
  with Suc.IH show ?case by (rule reach_step)
qed

lemma orderly_start: "orderly_inv n (cluster_init n :: 'c cluster)"
proof -
  have "link n (cluster_init n) (spec_start n :: 'c spec)"
    by (auto simp: link_def cluster_init_def spec_start_def node_link_def Make_fresh voted_def log_ge_def)
  moreover note spec_start_reach [of n n]
  moreover have "delivered (Make n i MakePersister :: 'c Raft)" for i by (simp add: delivered_def Make_fresh)
  moreover have "index_log_inv (cluster_init n :: 'c cluster)" "terms_nonneg (cluster_init n :: 'c cluster)"
    using rindices.start_inv nonneg.start_inv by blast+
  moreover have "nodes (cluster_init n :: 'c cluster) = map (\<lambda>i. Make n i MakePersister) [0..<n]" "failed (cluster_init n :: 'c cluster) = None"
    by (simp_all add: cluster_init_def)
  ultimately show ?thesis unfolding orderly_inv_def by auto
qed

lemma orderly_delivered:
  assumes "orderly_act a c = Some c'" and "link n c s" and "spec_inv n s" and "index_log_inv c" and "index_log_inv c'"
    and "\<forall>i < length (nodes c). delivered (nodes c ! i)"
  shows "\<forall>i < length (nodes c'). delivered (nodes c' ! i)"
proof -
  note ok = orderly_not_failed [OF assms(1,2,4)]
  have st: "cluster_step a c = Some c'" and nr: "\<And>i. a \<noteq> Restart i"
    using orderly_timely [OF assms(1)] by (auto simp: timely_act_def cluster_act_def timely_def split: if_splits)
  have inv: "log_election_inv c" "log_election_inv c'" "index_inv c" using assms(4,5) by (simp_all add: index_log_inv_def)
  note loc = delivered_local [OF assms(6) _ ok(2,1)]
  show ?thesis
  proof (cases a)
    case (Deliver k)
    then have k: "k < length (net c)" "doPacket (net c ! k) (c\<lparr>net := take k (net c) @ drop (Suc k) (net c)\<rparr>) = Some c'"
      using st by (auto simp: cluster_step_def removePacket_def split: if_splits)
    show ?thesis by (rule delivered_packet [OF assms(2,3) inv id_take_nth_drop [OF k(1)] k(2) ok(2,1) assms(6)])
  next
    case (Drop k)
    then show ?thesis using st assms(6) by (auto simp: cluster_step_def removePacket_def split: if_splits)
  qed (use st nr loc in \<open>auto simp: cluster_step_def split: if_splits\<close>)
qed

interpretation ordered: machine_invariant "\<lambda>c. c = cluster_init n" orderly_act "orderly_inv n" for n
proof unfold_locales
  show "c = cluster_init n \<Longrightarrow> orderly_inv n c" for c by (simp add: orderly_start)
  show "orderly_inv n c'" if a: "orderly_act a c = Some c'" and inv: "orderly_inv n c" for a and c c' :: "'c cluster"
  proof -
    from inv obtain s where s: "reach spec_init (spec_step n) s" "link n c s" by (auto simp: orderly_inv_def)
    have si: "spec_inv n s" using rspec.reach_inv [OF s(1)] .
    have c: "index_log_inv c" "terms_nonneg c" "\<forall>i < length (nodes c). delivered (nodes c ! i)" using inv by (simp_all add: orderly_inv_def)
    have c': "index_log_inv c'" "terms_nonneg c'"
      using rindices.act_inv nonneg.act_inv orderly_timely [OF a] c by blast+
    from link_act [OF a s(2) si c(1,2)] obtain s' where "(spec_step n)\<^sup>*\<^sup>* s s'" "link n c' s'" by (auto simp: sim_def)
    with reach_steps [OF _ s(1)] c' orderly_delivered [OF a s(2) si c(1) c'(1) c(3)] orderly_not_failed(2) [OF a s(2) c(1)]
    show ?thesis unfolding orderly_inv_def by blast
  qed
qed

lemma orderly_reached:
  assumes "reach (\<lambda>c. c = cluster_init n) (act_step orderly_act) c"
  obtains s where "reach spec_init (spec_step n) s" "spec_inv n s" "link n c s" "index_log_inv c"
proof -
  from ordered.reach_inv [OF assms] obtain s where "reach spec_init (spec_step n) s" "link n c s" "index_log_inv c"
    by (auto simp: orderly_inv_def)
  with rspec.reach_inv [of n s] show thesis by (intro that)
qed

text \<open>A peer in state LEADER is the specification's leader of its term, and its log is the log of that term.\<close>

lemma leader_link:
  assumes "link n c s" and "spec_inv n s" and "index_log_inv c" and "i < n" and "state (nodes c ! i) = LEADER"
  shows "sowner s (currentTerm (nodes c ! i)) = Some i" "stlog s (currentTerm (nodes c ! i)) = rlog (nodes c ! i)"
proof -
  have "election_inv c" using assms(3) by (simp add: index_log_inv_def log_election_inv_def)
  from election_invD(3) [OF this, of i] show o: "sowner s (currentTerm (nodes c ! i)) = Some i"
    using linkD(1,2) [OF assms(1)] assms(4,5) by (simp add: node_ok_def leader_ok_def)
  from spec_invD(3) [OF assms(2) o] linkD(5) [OF assms(1,4)]
  show "stlog s (currentTerm (nodes c ! i)) = rlog (nodes c ! i)" by (simp add: leader_log_def node_link_def)
qed

text \<open>Messages that say the same index say the same command, so of two gapless sequences one continues the other.\<close>

lemma applied_same:
  assumes "spec_inv n s" and "applied_ok n s m" and "applied_ok n s m'" and "CommandIndex m = CommandIndex m'" and "CommandValid m = CommandValid m'"
  shows "m = (m' :: 'c ApplyMsg)"
proof -
  obtain k t a where k: "CommandIndex m = int k" "committed n s t a" "k < a" "am_Command m = le_Command (stlog s t ! k)"
    using assms(2) by (auto simp: applied_ok_def)
  obtain k' t' a' where k': "CommandIndex m' = int k'" "committed n s t' a'" "k' < a'" "am_Command m' = le_Command (stlog s t' ! k')"
    using assms(3) by (auto simp: applied_ok_def)
  have "k' = k" using k(1) k'(1) assms(4) by simp
  then have "am_Command m = am_Command m'" using committed_agree [OF assms(1) k(2) k'(2) k(3)] k(4) k'(3,4) by simp
  with assms(4,5) show ?thesis by simp
qed

lemma delivered_index:
  assumes "delivered rf" and "k < length (cApplyMsg rf)"
  shows "CommandIndex (cApplyMsg rf ! k) = int (Suc k)"
proof -
  have eq: "map CommandIndex (cApplyMsg rf) = map int [1..<Suc (nat (appliedLast rf))]" using assms(1) by (simp add: delivered_def)
  from arg_cong [OF eq, of length] have "length (cApplyMsg rf) = nat (appliedLast rf)" by simp
  with arg_cong [OF eq, of "\<lambda>xs. xs ! k"] assms(2) show ?thesis by (simp del: upt_Suc)
qed

lemma delivered_prefix:
  assumes "spec_inv n s" and "delivered rf" and "delivered rf'" and "\<forall>m \<in> set (cApplyMsg rf). applied_ok n s m"
    and "\<forall>m \<in> set (cApplyMsg rf'). applied_ok n s m"
  shows "prefix (cApplyMsg rf) (cApplyMsg rf') \<or> prefix (cApplyMsg rf') (cApplyMsg rf)"
proof -
  let ?xs = "cApplyMsg rf" and ?ys = "cApplyMsg rf'"
  have same: "?xs ! k = ?ys ! k" if k: "k < length ?xs" "k < length ?ys" for k
  proof (rule applied_same [OF assms(1)])
    show "CommandIndex (?xs ! k) = CommandIndex (?ys ! k)" using delivered_index [OF assms(2) k(1)] delivered_index [OF assms(3) k(2)] by simp
  qed (use k assms in \<open>simp_all add: delivered_def\<close>)
  show ?thesis
  proof (cases "length ?xs \<le> length ?ys")
    case True
    then have "?xs = take (length ?xs) ?ys" using same by (intro nth_equalityI) auto
    then show ?thesis by (metis take_is_prefix)
  next
    case False
    then have "?ys = take (length ?ys) ?xs" using same by (intro nth_equalityI) auto
    then show ?thesis by (metis take_is_prefix)
  qed
qed

text \<open>The logs of the specification have positive terms after the first entry.\<close>

lemma spec_log_terms:
  assumes "spec_inv n s" and "spec_log s u l" and "base_ok l"
  shows "log_ok l"
proof -
  have "1 \<le> le_Term (l ! Suc k)" if k: "k < length (tl l)" for k
  proof -
    obtain i where "sowner s (le_Term (l ! Suc k)) = Some i" using assms(2) k unfolding spec_log_def matched_def by fastforce
    from spec_invD(3) [OF assms(1) this] show ?thesis by (simp add: leader_log_def)
  qed
  then have "terms_pos (tl l)" by (auto simp: terms_pos_def in_set_conv_nth nth_tl)
  with assms(3) show ?thesis by (auto simp: log_ok_def base_ok_def hd_conv_nth)
qed

lemma carried_ok:
  assumes "carries h i a" and "log_ok (tlog h (ae_Term a))"
  shows "append_ok a"
proof -
  let ?l = "tlog h (ae_Term a)"
  from assms(1) obtain p where p: "PrevLogIdx a = int p" "p < length ?l" "Entries a = take (length (Entries a)) (drop (Suc p) ?l)"
    by (auto simp: carries_def)
  have e: "Entries a ! k = ?l ! (Suc p + k) \<and> Suc p + k < length ?l" if "k < length (Entries a)" for k
  proof -
    have "length (Entries a) \<le> length ?l - Suc p" using arg_cong [OF p(3), of length] by simp
    moreover have "Entries a ! k = take (length (Entries a)) (drop (Suc p) ?l) ! k" using p(3) by simp
    ultimately show ?thesis using that by simp
  qed
  have "1 \<le> le_Term (?l ! k)" if "0 < k" "k < length ?l" for k
    using assms(2) that by (cases ?l; cases k) (auto simp: log_ok_def terms_pos_def)
  with e have "terms_pos (Entries a)" by (auto simp: terms_pos_def in_set_conv_nth)
  moreover have "indexed_from (PrevLogIdx a + 1) (Entries a)"
    using e assms(2) p(1) by (auto simp: indexed_from_def log_ok_def)
  ultimately show ?thesis using p(1) by (simp add: append_ok_def)
qed

lemma linked_peer:
  assumes s: "spec_inv n s" "link n c s" "index_log_inv c" and i: "i < n"
  shows "me (nodes c ! i) = i \<and> npeers (nodes c ! i) = n" "peer_ok (nodes c ! i)"
    "sorted (map le_Term (rlog (nodes c ! i))) \<and> (\<forall>e \<in> set (rlog (nodes c ! i)). le_Term e \<le> currentTerm (nodes c ! i))"
    "commitIdx (nodes c ! i) < int (length (rlog (nodes c ! i)))"
proof -
  let ?rf = "nodes c ! i"
  have N: "i < length (nodes c)" "length (nodes c) = n" using linkD(1) [OF s(2)] i by simp_all
  have inv: "log_election_inv c" "index_inv c" using s(3) by (simp_all add: index_log_inv_def)
  note logs = cluster_logs(1-4) [OF inv(1) N(1)]
  show me: "me ?rf = i \<and> npeers ?rf = n" using logs N by simp
  have nl: "sterm s i = currentTerm ?rf" "slog s i = rlog ?rf" using linkD(5) [OF s(2) i] by (simp_all add: node_link_def)
  have sl: "spec_log s (currentTerm ?rf) (rlog ?rf)" "0 \<le> currentTerm ?rf" using spec_invD(1,2) [OF s(1), of i] nl by simp_all
  then show "sorted (map le_Term (rlog ?rf)) \<and> (\<forall>e \<in> set (rlog ?rf). le_Term e \<le> currentTerm ?rf)" by (simp add: spec_log_def)
  have ix: "indices_ok ?rf" using index_invD(1) [OF inv(2) N(1)] .
  with spec_log_terms [OF s(1) sl(1) logs(1)] me sl(2) i show "peer_ok ?rf" by (simp add: peer_ok_def indices_ok_def)
  show "commitIdx ?rf < int (length (rlog ?rf))"
  proof (cases "0 < commitIdx ?rf")
    case True
    with linkD(5) [OF s(2) i] have "nat (commitIdx ?rf) < length (rlog ?rf)" by (auto simp: node_link_def dest: sealed_length)
    then show ?thesis using True by simp
  next
    case False
    moreover have "0 < int (length (rlog ?rf))" using logs(2) by simp
    ultimately show ?thesis by linarith
  qed
qed

lemma linked_call:
  assumes s: "spec_inv n s" "link n c s" "index_log_inv c" and p: "AppReq i j a \<in> set (net c)"
  shows "i < n \<and> j < n \<and> i \<noteq> j \<and> append_ok a"
proof -
  have el: "election_inv c" "log_inv c" using s(3) by (simp_all add: index_log_inv_def log_election_inv_def)
  have ca: "i \<noteq> j" "carries (hist c) i a" using log_invD(4) [OF el(2) p] by simp_all
  then have o: "owner (hist c) (ae_Term a) = Some i" by (simp add: carries_def)
  have "base_ok (tlog (hist c) (ae_Term a))" using log_invD(3) [OF el(2) o] by (simp add: agrees_def)
  moreover have "spec_log s (ae_Term a) (tlog (hist c) (ae_Term a))"
    using spec_invD(3) [OF s(1), of "ae_Term a" i] linkD(2,3) [OF s(2)] o by (simp add: leader_log_def)
  ultimately have "append_ok a" using carried_ok [OF ca(2)] spec_log_terms [OF s(1)] by blast
  with ca election_invD(2) [OF el(1) p] linkD(1) [OF s(2)] show ?thesis by simp
qed

subsection \<open>A run\<close>

text \<open>Peer 0 leads term 1, commits the commands 7 and 8 with peer 2, which learns of the first; then peer 2 leads term 2 with
  the vote of peer 1.\<close>

definition commit_run :: "nat cact list" where
  "commit_run = replicate_run @ [Deliver 1, Apply 0, Submit 0 8, Select 0 ChoosePersist, Tick 0, Broadcast 0,
     Deliver 2, Apply 2, Deliver 2, Apply 0]"

definition handover_run :: "nat cact list" where
  "handover_run = commit_run @ [Tick 2, Select 2 ChooseTimeout, Tick 2, Solicit 2, Deliver 3, Deliver 3]"

lemma handover_state:
  obtains c where "run orderly_act handover_run (cluster_init 3) = Some c" "reach (\<lambda>c. c = cluster_init 3) (act_step orderly_act) c"
    "map state (nodes c) = [LEADER, FOLLOWER, LEADER]" "map currentTerm (nodes c) = [1, 2, 2]" "map commitIdx (nodes c) = [2, 0, 1]"
    "map (map am_Command \<circ> cApplyMsg) (nodes c) = [[Some 7, Some 8], [], [Some 7]]" "map (length \<circ> rlog) (nodes c) = [3, 1, 3]"
proof -
  have "map_option (\<lambda>c. (map state (nodes c), map currentTerm (nodes c), map commitIdx (nodes c), map (map am_Command \<circ> cApplyMsg) (nodes c),
      map (length \<circ> rlog) (nodes c))) (run orderly_act handover_run (cluster_init 3)) =
    Some ([LEADER, FOLLOWER, LEADER], [1, 2, 2], [2, 0, 1], [[Some 7, Some 8], [], [Some 7]], [3, 1, 3])"
    unfolding handover_run_def commit_run_def replicate_run_def win_run_def by code_simp
  then obtain c where c: "run orderly_act handover_run (cluster_init 3) = Some c"
    "map state (nodes c) = [LEADER, FOLLOWER, LEADER] \<and> map currentTerm (nodes c) = [1, 2, 2] \<and> map commitIdx (nodes c) = [2, 0, 1] \<and>
     map (map am_Command \<circ> cApplyMsg) (nodes c) = [[Some 7, Some 8], [], [Some 7]] \<and> map (length \<circ> rlog) (nodes c) = [3, 1, 3]"
    by auto
  show thesis by (rule that [OF c(1) run_from [OF c(1)]]) (use c(2) in auto)
qed

lemma map3_nth: "map f xs = [a, b, d] \<Longrightarrow> f (xs ! 0) = a \<and> f (xs ! 1) = b \<and> f (xs ! 2) = d"
  by (auto simp: map_eq_Cons_conv)

section \<open>The properties\<close>





text \<open>What the peers send on their apply channels.\<close>

lemma same_deliveries:
  assumes "reach (\<lambda>c. c = cluster_init n) (act_step orderly_act) c" and "i < n" and "j < n"
  shows "failed c = None \<and> map CommandIndex (cApplyMsg (nodes c ! i)) = map int [1..<Suc (nat (appliedLast (nodes c ! i)))] \<and>
    list_all CommandValid (cApplyMsg (nodes c ! i)) \<and>
    (prefix (cApplyMsg (nodes c ! i)) (cApplyMsg (nodes c ! j)) \<or> prefix (cApplyMsg (nodes c ! j)) (cApplyMsg (nodes c ! i)))"
proof -
  from assms(1) obtain s where s: "spec_inv n s" "link n c s" by (rule orderly_reached)
  have inv: "failed c = None" "delivered (nodes c ! i)" "delivered (nodes c ! j)"
    using ordered.reach_inv [OF assms(1)] linkD(1) [OF s(2)] assms(2,3) by (simp_all add: orderly_inv_def)
  have ok: "\<forall>m \<in> set (cApplyMsg (nodes c ! i)). applied_ok n s m" "\<forall>m \<in> set (cApplyMsg (nodes c ! j)). applied_ok n s m"
    using linkD(5) [OF s(2)] assms(2,3) by (simp_all add: node_link_def)
  from inv delivered_prefix [OF s(1) inv(2,3) ok] show ?thesis by (auto simp: delivered_def list_all_iff simp del: upt_Suc)
qed





end
