(* ===== verification/LabRpc.thy ===== *)
theory LabRpc
  imports Prelude
begin

text \<open>
  \<^verbatim>\<open>lab3/labrpc/labrpc.go\<close>: the channel-based RPC package.  A \<open>Network\<close> holds client ends, servers and
  the connections between them; \<open>Call\<close> is a goroutine that sends a request and waits for its reply,
  and \<open>processReq\<close> is a goroutine per request that looks the server up, runs the handler and
  decides what becomes of the reply.  Every section between two blocking operations is one
  step of the machine \<open>rpc_act\<close>.

  Client ends are named by strings and servers by integers, as the tester does.  A map that is
  only looked up, never ranged over, is a function with the zero value as default.  Servers are pointers
  into \<open>heap\<close>.  The encoder, the decoder and the reflective calls of methods are fields of the record
  \<open>codec\<close> and of the methods: \<open>encoding/gob\<close> and \<open>reflect\<close> are not part of the repository.
\<close>

section \<open>Data\<close>

type_synonym bytes = "8 word list"

text \<open>Values are of type \<open>'v\<close>, and types are named by strings; \<open>decode bs v\<close> decodes into a variable that holds \<open>v\<close>.\<close>

record 'v codec =
  TypeOf :: "'v \<Rightarrow> string"
  New :: "string \<Rightarrow> 'v"
  encode :: "'v \<Rightarrow> bytes option"
  decode :: "bytes \<Rightarrow> 'v \<Rightarrow> 'v option"

record reqMsg =
  endname :: string
  svcMeth :: string
  argsType :: string
  args :: bytes

record replyMsg =
  ok :: bool
  reply :: bytes

text \<open>What \<open>MakeService\<close> reads of a method by reflection, and the method itself as a function on the state \<open>'w\<close>
  of the program.\<close>

record ('v, 'w) Method =
  mName :: string
  PkgPath :: string
  NumIn :: nat
  In2IsPtr :: bool
  In2Elem :: string
  NumOut :: nat
  Func :: "'v \<Rightarrow> 'v \<Rightarrow> 'w \<Rightarrow> ('w \<times> 'v) go"

record ('v, 'w) Service =
  svc_name :: string
  methods :: "string \<Rightarrow> ('v, 'w) Method option"

record ('v, 'w) Server =
  services :: "string \<Rightarrow> ('v, 'w) Service option"
  srv_count :: int

record ('v, 'w) Network =
  reliable :: bool
  longDelays :: bool
  longReordering :: bool
  ends :: "string set"
  enabled :: "string \<Rightarrow> bool"
  servers :: "int \<Rightarrow> addr option"
  connections :: "string \<Rightarrow> int option"
  closed :: bool
  count :: "32 word"
  nbytes :: u64
  heap :: "('v, 'w) Server list"

section \<open>Operations of the network\<close>

definition MakeNetwork :: "('v, 'w) Network" where
  "MakeNetwork = \<lparr>reliable = True, longDelays = False, longReordering = False, ends = {}, enabled = (\<lambda>_. False),
     servers = (\<lambda>_. None), connections = (\<lambda>_. None), closed = False, count = 0, nbytes = 0, heap = []\<rparr>"

definition Cleanup :: "('v, 'w) Network \<Rightarrow> ('v, 'w) Network go" where
  "Cleanup rn = (if closed rn then Inl CloseOfClosed else Inr (rn\<lparr>closed := True\<rparr>))"

definition Reliable :: "bool \<Rightarrow> ('v, 'w) Network \<Rightarrow> ('v, 'w) Network" where
  "Reliable yes rn = rn\<lparr>reliable := yes\<rparr>"

definition LongReordering :: "bool \<Rightarrow> ('v, 'w) Network \<Rightarrow> ('v, 'w) Network" where
  "LongReordering yes rn = rn\<lparr>longReordering := yes\<rparr>"

definition LongDelays :: "bool \<Rightarrow> ('v, 'w) Network \<Rightarrow> ('v, 'w) Network" where
  "LongDelays yes rn = rn\<lparr>longDelays := yes\<rparr>"

text \<open>\<open>enabled, servername, server, reliable, longreordering\<close>.\<close>

definition readEndnameInfo :: "string \<Rightarrow> ('v, 'w) Network \<Rightarrow> bool \<times> int option \<times> addr option \<times> bool \<times> bool" where
  "readEndnameInfo e rn =
     (let sn = connections rn e in
      (enabled rn e, sn, (case sn of None \<Rightarrow> None | Some n \<Rightarrow> servers rn n), reliable rn, longReordering rn))"

definition isServerDead :: "string \<Rightarrow> int \<Rightarrow> addr \<Rightarrow> ('v, 'w) Network \<Rightarrow> bool" where
  "isServerDead e sn srv rn \<longleftrightarrow> \<not> enabled rn e \<or> servers rn sn \<noteq> Some srv"

definition MakeEnd :: "string \<Rightarrow> ('v, 'w) Network \<Rightarrow> ('v, 'w) Network go" where
  "MakeEnd e rn =
     (if e \<in> ends rn then Inl LogFatal
      else Inr (rn\<lparr>ends := insert e (ends rn), enabled := (enabled rn)(e := False),
                   connections := (connections rn)(e := None)\<rparr>))"

definition AddServer :: "int \<Rightarrow> addr \<Rightarrow> ('v, 'w) Network \<Rightarrow> ('v, 'w) Network" where
  "AddServer sn rs rn = rn\<lparr>servers := (servers rn)(sn := Some rs)\<rparr>"

definition DeleteServer :: "int \<Rightarrow> ('v, 'w) Network \<Rightarrow> ('v, 'w) Network" where
  "DeleteServer sn rn = rn\<lparr>servers := (servers rn)(sn := None)\<rparr>"

definition Connect :: "string \<Rightarrow> int \<Rightarrow> ('v, 'w) Network \<Rightarrow> ('v, 'w) Network" where
  "Connect e sn rn = rn\<lparr>connections := (connections rn)(e := Some sn)\<rparr>"

definition Enable :: "string \<Rightarrow> bool \<Rightarrow> ('v, 'w) Network \<Rightarrow> ('v, 'w) Network" where
  "Enable e b rn = rn\<lparr>enabled := (enabled rn)(e := b)\<rparr>"

definition Server_GetCount :: "('v, 'w) Server \<Rightarrow> int" where
  "Server_GetCount rs = srv_count rs"

text \<open>\<open>rn.servers[servername]\<close> may be nil: \<open>GetCount\<close> then dereferences a nil pointer.\<close>

definition GetCount :: "int \<Rightarrow> ('v, 'w) Network \<Rightarrow> int go" where
  "GetCount sn rn = (case servers rn sn of
     None \<Rightarrow> Inl NilDeref
   | Some a \<Rightarrow> go_bind (index (heap rn) (int a)) (\<lambda>s. Inr (Server_GetCount s)))"

definition GetTotalCount :: "('v, 'w) Network \<Rightarrow> int" where
  "GetTotalCount rn = sint (count rn)"

definition GetTotalBytes :: "('v, 'w) Network \<Rightarrow> int" where
  "GetTotalBytes rn = sint (nbytes rn)"

section \<open>Servers and services\<close>

definition MakeServer :: "('v, 'w) Server" where
  "MakeServer = \<lparr>services = (\<lambda>_. None), srv_count = 0\<rparr>"

definition AddService :: "('v, 'w) Service \<Rightarrow> ('v, 'w) Server \<Rightarrow> ('v, 'w) Server" where
  "AddService svc rs = rs\<lparr>services := (services rs)(svc_name svc := Some svc)\<rparr>"

text \<open>\<open>mtype.In(2)\<close> is evaluated only for methods with three inputs.\<close>

definition suitable :: "('v, 'w) Method \<Rightarrow> bool" where
  "suitable m \<longleftrightarrow> PkgPath m = [] \<and> NumIn m = 3 \<and> In2IsPtr m \<and> NumOut m = 0"

definition MakeService :: "string \<Rightarrow> ('v, 'w) Method list \<Rightarrow> ('v, 'w) Service" where
  "MakeService name ms = \<lparr>svc_name = name,
     methods = fold (\<lambda>m f. if suitable m then f(mName m := Some m) else f) ms (\<lambda>_. None)\<rparr>"

text \<open>\<open>strings.LastIndex(s, ".")\<close>, and the two slices around the dot; without a dot the first slice
  expression panics.\<close>

definition splitMeth :: "string \<Rightarrow> (string \<times> string) go" where
  "splitMeth s =
     (if CHR ''.'' \<in> set s
      then let m = rev (takeWhile (\<lambda>c. c \<noteq> CHR ''.'') (rev s)) in Inr (take (length s - length m - 1) s, m)
      else Inl SliceOutOfRange)"

text \<open>An error of the decoder is ignored: the arguments are then those of a new variable.  A failing encoder
  leaves the buffer empty.\<close>

definition Service_dispatch :: "'v codec \<Rightarrow> string \<Rightarrow> reqMsg \<Rightarrow> ('v, 'w) Service \<Rightarrow> 'w \<Rightarrow> ('w \<times> replyMsg) go" where
  "Service_dispatch cd methname req svc w =
     (case methods svc methname of
        Some m \<Rightarrow>
          (let v0 = New cd (argsType req);
               a = (case decode cd (args req) v0 of Some v \<Rightarrow> v | None \<Rightarrow> v0) in
           go_bind (Func m a (New cd (In2Elem m)) w) (\<lambda>(w', r).
             Inr (w', \<lparr>ok = True, reply = (case encode cd r of Some bs \<Rightarrow> bs | None \<Rightarrow> [])\<rparr>)))
      | None \<Rightarrow> Inl LogFatal)"

definition Server_dispatch :: "'v codec \<Rightarrow> reqMsg \<Rightarrow> ('v, 'w) Server \<Rightarrow> 'w \<Rightarrow> (('v, 'w) Server \<times> 'w \<times> replyMsg) go" where
  "Server_dispatch cd req rs w =
     (let rs1 = rs\<lparr>srv_count := srv_count rs + 1\<rparr> in
      go_bind (splitMeth (svcMeth req)) (\<lambda>(serviceName, methodName).
        case services rs1 serviceName of
          Some service \<Rightarrow> go_bind (Service_dispatch cd methodName req service w) (\<lambda>(w', r). Inr (rs1, w', r))
        | None \<Rightarrow> Inl LogFatal))"

section \<open>Calls\<close>

text \<open>Where a call is.  \<open>Sending\<close>: in the \<open>select\<close> of \<open>Call\<close>.  \<open>Queued\<close>: received by the network, \<open>processReq\<close> not begun.
  \<open>Found\<close>: the server is looked up, with the settings read then.  \<open>Waiting\<close>: the handler goroutine is started and
  the loop waits for it.  \<open>Decided\<close>: past the loop, with the reply if there is one.  \<open>Delayed\<close>: the timer of a long
  reordering runs.  \<open>Replying\<close>: the reply is on its way to the caller.  \<open>Returned\<close>: what \<open>Call\<close> returned, with
  the contents of the reply variable.\<close>

datatype 'v call_pc =
    Sending
  | Queued
  | Found int addr bool bool
  | Waiting int addr bool bool
  | Decided int addr bool bool "replyMsg option"
  | Delayed replyMsg
  | Replying replyMsg
  | Returned bool 'v

text \<open>The goroutine that runs \<open>server.dispatch\<close>: it outlives the loop when the server is found dead.\<close>

datatype job = NoJob | Started addr | Finished replyMsg

record 'v call =
  req :: reqMsg
  var :: 'v
  pc :: "'v call_pc"
  job :: job

text \<open>One run of a handler: the call, the server, the state before and after, and the reply.\<close>

record 'w exec =
  ex_call :: nat
  ex_srv :: addr
  ex_pre :: 'w
  ex_post :: 'w
  ex_reply :: replyMsg

text \<open>\<open>looping\<close>: the goroutine of \<open>MakeNetwork\<close> has not returned.  \<open>execs\<close> is a history variable that no step reads:
  the handler runs in their order.\<close>

record ('v, 'w) rpc_state =
  net :: "('v, 'w) Network"
  calls :: "'v call list"
  world :: 'w
  looping :: bool
  execs :: "'w exec list"
  crashed :: "go_panic option"

datatype ('v, 'w) rpc_op =
    Op_Reliable bool | Op_LongReordering bool | Op_LongDelays bool | Op_MakeEnd string
  | Op_AddServer int "('v, 'w) Server" | Op_DeleteServer int | Op_Connect string int | Op_Enable string bool | Op_Cleanup

definition net_op :: "('v, 'w) rpc_op \<Rightarrow> ('v, 'w) Network \<Rightarrow> ('v, 'w) Network go" where
  "net_op opn rn = (case opn of
     Op_Reliable b \<Rightarrow> Inr (Reliable b rn)
   | Op_LongReordering b \<Rightarrow> Inr (LongReordering b rn)
   | Op_LongDelays b \<Rightarrow> Inr (LongDelays b rn)
   | Op_MakeEnd e \<Rightarrow> MakeEnd e rn
   | Op_AddServer sn rs \<Rightarrow> Inr (AddServer sn (length (heap rn)) (rn\<lparr>heap := heap rn @ [rs]\<rparr>))
   | Op_DeleteServer sn \<Rightarrow> Inr (DeleteServer sn rn)
   | Op_Connect e sn \<Rightarrow> Inr (Connect e sn rn)
   | Op_Enable e b \<Rightarrow> Inr (Enable e b rn)
   | Op_Cleanup \<Rightarrow> Cleanup rn)"

datatype call_act =
    Cancelled | Receive | Lookup | DropRequest | Dispatch | HandlerRuns | TakeReply | Poll | Decide | DropReply
  | DelayReply | Fire | Return

definition callReq :: "'v codec \<Rightarrow> string \<Rightarrow> string \<Rightarrow> 'v \<Rightarrow> reqMsg option" where
  "callReq cd e meth a = map_option (\<lambda>bs. \<lparr>endname = e, svcMeth = meth, argsType = TypeOf cd a, args = bs\<rparr>) (encode cd a)"

definition setCall :: "nat \<Rightarrow> 'v call \<Rightarrow> ('v, 'w) rpc_state \<Rightarrow> ('v, 'w) rpc_state" where
  "setCall k c s = s\<lparr>calls := (calls s)[k := c]\<rparr>"

definition noReply :: replyMsg where
  "noReply = \<lparr>ok = False, reply = []\<rparr>"

definition addBytes :: "bytes \<Rightarrow> ('v, 'w) Network \<Rightarrow> ('v, 'w) Network" where
  "addBytes bs rn = rn\<lparr>nbytes := nbytes rn + of_nat (length bs)\<rparr>"

text \<open>The part of \<open>Call\<close> that sends, and the goroutine of \<open>MakeNetwork\<close> that receives.\<close>

definition send_step :: "call_act \<Rightarrow> nat \<Rightarrow> 'v call \<Rightarrow> ('v, 'w) rpc_state \<Rightarrow> ('v, 'w) rpc_state option" where
  "send_step a k c s =
     (case a of
        Cancelled \<Rightarrow> if closed (net s) then Some (setCall k (c\<lparr>pc := Returned False (var c)\<rparr>) s) else None
      | Receive \<Rightarrow>
          if looping s
          then Some ((setCall k (c\<lparr>pc := Queued\<rparr>) s)\<lparr>net := addBytes (args (req c)) ((net s)\<lparr>count := count (net s) + 1\<rparr>)\<rparr>)
          else None
      | _ \<Rightarrow> None)"

text \<open>The goroutine that runs the handler.\<close>

definition handler_step :: "'v codec \<Rightarrow> nat \<Rightarrow> 'v call \<Rightarrow> ('v, 'w) rpc_state \<Rightarrow> ('v, 'w) rpc_state option" where
  "handler_step cd k c s =
     (case job c of
        Started srv \<Rightarrow>
          (case Server_dispatch cd (req c) (heap (net s) ! srv) (world s) of
             Inl p \<Rightarrow> if p = Blocked then None else Some (s\<lparr>crashed := Some p\<rparr>)
           | Inr (rs, w, r) \<Rightarrow>
               Some ((setCall k (c\<lparr>job := Finished r\<rparr>) s)\<lparr>net := (net s)\<lparr>heap := (heap (net s))[srv := rs]\<rparr>,
                      world := w, execs := execs s @ [\<lparr>ex_call = k, ex_srv = srv, ex_pre = world s, ex_post = w, ex_reply = r\<rparr>]\<rparr>))
      | _ \<Rightarrow> None)"

text \<open>The end of \<open>processReq\<close>: without a reply, or when the server is gone, the caller gets a failure; an
  unreliable network may drop the reply, and with long reordering it may come late.\<close>

definition decide_step :: "call_act \<Rightarrow> nat \<Rightarrow> 'v call \<Rightarrow> int \<Rightarrow> addr \<Rightarrow> bool \<Rightarrow> bool \<Rightarrow> replyMsg option
    \<Rightarrow> ('v, 'w) rpc_state \<Rightarrow> ('v, 'w) rpc_state option" where
  "decide_step a k c sn srv rel lr r s =
     (let fail = setCall k (c\<lparr>pc := Replying noReply\<rparr>) s in
      case r of
        None \<Rightarrow> if a = Decide then Some fail else None
      | Some m \<Rightarrow>
          if isServerDead (endname (req c)) sn srv (net s) then if a = Decide then Some fail else None
          else
            (case a of
               DropReply \<Rightarrow> if rel then None else Some fail
             | DelayReply \<Rightarrow> if lr then Some (setCall k (c\<lparr>pc := Delayed m\<rparr>) s) else None
             | Decide \<Rightarrow> Some ((setCall k (c\<lparr>pc := Replying m\<rparr>) s)\<lparr>net := addBytes (reply m) (net s)\<rparr>)
             | _ \<Rightarrow> None))"

text \<open>\<open>processReq\<close>.\<close>

definition process_step :: "call_act \<Rightarrow> nat \<Rightarrow> 'v call \<Rightarrow> ('v, 'w) rpc_state \<Rightarrow> ('v, 'w) rpc_state option" where
  "process_step a k c s =
     (case pc c of
        Queued \<Rightarrow>
          if a = Lookup then
            Some (case readEndnameInfo (endname (req c)) (net s) of
              (True, Some sn, Some srv, rel, lr) \<Rightarrow> setCall k (c\<lparr>pc := Found sn srv rel lr\<rparr>) s
            | _ \<Rightarrow> setCall k (c\<lparr>pc := Replying noReply\<rparr>) s)
          else None
      | Found sn srv rel lr \<Rightarrow>
          (case a of
             DropRequest \<Rightarrow> if rel then None else Some (setCall k (c\<lparr>pc := Replying noReply\<rparr>) s)
           | Dispatch \<Rightarrow> Some (setCall k (c\<lparr>pc := Waiting sn srv rel lr, job := Started srv\<rparr>) s)
           | _ \<Rightarrow> None)
      | Waiting sn srv rel lr \<Rightarrow>
          (case a of
             TakeReply \<Rightarrow>
               (case job c of
                  Finished r \<Rightarrow> Some (setCall k (c\<lparr>pc := Decided sn srv rel lr (Some r)\<rparr>) s)
                | _ \<Rightarrow> None)
           | Poll \<Rightarrow>
               Some (if isServerDead (endname (req c)) sn srv (net s)
                     then setCall k (c\<lparr>pc := Decided sn srv rel lr None\<rparr>) s else s)
           | _ \<Rightarrow> None)
      | Decided sn srv rel lr r \<Rightarrow> decide_step a k c sn srv rel lr r s
      | Delayed m \<Rightarrow>
          if a = Fire then Some ((setCall k (c\<lparr>pc := Replying m\<rparr>) s)\<lparr>net := addBytes (reply m) (net s)\<rparr>) else None
      | _ \<Rightarrow> None)"

text \<open>The part of \<open>Call\<close> that waits for the reply.\<close>

definition return_step :: "'v codec \<Rightarrow> nat \<Rightarrow> 'v call \<Rightarrow> replyMsg \<Rightarrow> ('v, 'w) rpc_state \<Rightarrow> ('v, 'w) rpc_state option" where
  "return_step cd k c m s =
     (if ok m then
        (case decode cd (reply m) (var c) of
           Some v \<Rightarrow> Some (setCall k (c\<lparr>pc := Returned True v\<rparr>) s)
         | None \<Rightarrow> Some (s\<lparr>crashed := Some LogFatal\<rparr>))
      else Some (setCall k (c\<lparr>pc := Returned False (var c)\<rparr>) s))"

definition call_step :: "'v codec \<Rightarrow> call_act \<Rightarrow> nat \<Rightarrow> ('v, 'w) rpc_state \<Rightarrow> ('v, 'w) rpc_state option" where
  "call_step cd a k s =
     (let c = calls s ! k in
      if a = HandlerRuns then handler_step cd k c s
      else
        (case pc c of
           Sending \<Rightarrow> send_step a k c s
         | Replying m \<Rightarrow> if a = Return then return_step cd k c m s else None
         | _ \<Rightarrow> process_step a k c s))"

datatype ('v, 'w) rpc_action =
    Call string string 'v 'v
  | Step call_act nat
  | NetOp "('v, 'w) rpc_op"
  | LoopExit

definition rpc_act :: "'v codec \<Rightarrow> ('v, 'w) rpc_action \<Rightarrow> ('v, 'w) rpc_state \<Rightarrow> ('v, 'w) rpc_state option" where
  "rpc_act cd a s =
     (if crashed s \<noteq> None then None
      else
        case a of
          Call e meth x v \<Rightarrow>
            Some (case callReq cd e meth x of
              None \<Rightarrow> s\<lparr>crashed := Some ExplicitPanic\<rparr>
            | Some q \<Rightarrow> s\<lparr>calls := calls s @ [\<lparr>req = q, var = v, pc = Sending, job = NoJob\<rparr>]\<rparr>)
        | Step ca k \<Rightarrow> if k < length (calls s) then call_step cd ca k s else None
        | NetOp opn \<Rightarrow>
            Some (case net_op opn (net s) of Inl p \<Rightarrow> s\<lparr>crashed := Some p\<rparr> | Inr rn \<Rightarrow> s\<lparr>net := rn\<rparr>)
        | LoopExit \<Rightarrow> if closed (net s) \<and> looping s then Some (s\<lparr>looping := False\<rparr>) else None)"

definition rpc_init :: "'w \<Rightarrow> ('v, 'w) rpc_state" where
  "rpc_init w = \<lparr>net = MakeNetwork, calls = [], world = w, looping = True, execs = [], crashed = None\<rparr>"

section \<open>At most one run of the handler per call\<close>

text \<open>What \<open>Server_dispatch\<close> computes does not depend on the counter of the server.\<close>

definition serves :: "'v codec \<Rightarrow> reqMsg \<Rightarrow> ('v, 'w) Server \<Rightarrow> 'w \<Rightarrow> 'w \<Rightarrow> replyMsg \<Rightarrow> bool" where
  "serves cd q rs w w' r \<longleftrightarrow> (\<exists>rs'. Server_dispatch cd q rs w = Inr (rs', w', r))"

lemma Server_dispatch_frame: "Server_dispatch cd q rs w = Inr (rs', w', r) \<Longrightarrow> rs' = rs\<lparr>srv_count := srv_count rs + 1\<rparr>"
  by (auto simp: Server_dispatch_def go_bind_Inr_iff Let_def split: option.splits)

lemma serves_count: "serves cd q (rs\<lparr>srv_count := n\<rparr>) = serves cd q rs"
  by (intro ext) (auto simp: serves_def Server_dispatch_def go_bind_Inr_iff Let_def split: option.splits)

lemma Service_dispatch_ok: "Service_dispatch cd m q svc w = Inr (w', r) \<Longrightarrow> ok r"
  by (auto simp: Service_dispatch_def go_bind_Inr_iff Let_def split: option.splits)

lemma serves_ok: "serves cd q rs w w' r \<Longrightarrow> ok r"
  by (auto simp: serves_def Server_dispatch_def go_bind_Inr_iff Let_def dest: Service_dispatch_ok split: option.splits)

fun linked :: "'w \<Rightarrow> 'w exec list \<Rightarrow> 'w \<Rightarrow> bool" where
  "linked w [] w' \<longleftrightarrow> w = w'"
| "linked w (x # xs) w' \<longleftrightarrow> ex_pre x = w \<and> linked (ex_post x) xs w'"

lemma linked_snoc: "linked w (xs @ [x]) w' \<longleftrightarrow> linked w xs (ex_pre x) \<and> ex_post x = w'"
  by (induction xs arbitrary: w) auto

definition runs_of :: "nat \<Rightarrow> 'w exec list \<Rightarrow> replyMsg list" where
  "runs_of k xs = map ex_reply (filter (\<lambda>x. ex_call x = k) xs)"

lemma runs_of_simps [simp]:
  "runs_of k [] = []" "runs_of k (xs @ [x]) = runs_of k xs @ (if ex_call x = k then [ex_reply x] else [])"
  by (simp_all add: runs_of_def)

text \<open>A call knows of the handler what the history knows.\<close>

definition job_ok :: "('v, 'w) Network \<Rightarrow> replyMsg list \<Rightarrow> job \<Rightarrow> bool" where
  "job_ok rn rs j = (case j of NoJob \<Rightarrow> rs = [] | Started a \<Rightarrow> rs = [] \<and> a < length (heap rn) | Finished r \<Rightarrow> rs = [r])"

fun pc_ok :: "'v codec \<Rightarrow> ('v, 'w) Network \<Rightarrow> 'v \<Rightarrow> job \<Rightarrow> 'v call_pc \<Rightarrow> bool" where
  "pc_ok cd rn v j Sending \<longleftrightarrow> j = NoJob"
| "pc_ok cd rn v j Queued \<longleftrightarrow> j = NoJob"
| "pc_ok cd rn v j (Found sn a rel lr) \<longleftrightarrow> j = NoJob \<and> a < length (heap rn)"
| "pc_ok cd rn v j (Waiting sn a rel lr) \<longleftrightarrow> j \<noteq> NoJob"
| "pc_ok cd rn v j (Decided sn a rel lr r) \<longleftrightarrow> (\<forall>m. r = Some m \<longrightarrow> j = Finished m)"
| "pc_ok cd rn v j (Delayed m) \<longleftrightarrow> j = Finished m"
| "pc_ok cd rn v j (Replying m) \<longleftrightarrow> (ok m \<longrightarrow> j = Finished m)"
| "pc_ok cd rn v j (Returned b x) \<longleftrightarrow> (if b then \<exists>m. j = Finished m \<and> decode cd (reply m) v = Some x else x = v)"

definition call_ok :: "'v codec \<Rightarrow> ('v, 'w) Network \<Rightarrow> replyMsg list \<Rightarrow> 'v call \<Rightarrow> bool" where
  "call_ok cd rn rs c \<longleftrightarrow> job_ok rn rs (job c) \<and> pc_ok cd rn (var c) (job c) (pc c)"

definition rpc_inv :: "'v codec \<Rightarrow> 'w \<Rightarrow> ('v, 'w) rpc_state \<Rightarrow> bool" where
  "rpc_inv cd w0 s \<longleftrightarrow>
     (\<forall>k < length (calls s). call_ok cd (net s) (runs_of k (execs s)) (calls s ! k)) \<and>
     (\<forall>sn a. servers (net s) sn = Some a \<longrightarrow> a < length (heap (net s))) \<and>
     linked w0 (execs s) (world s) \<and>
     (\<forall>x \<in> set (execs s). ex_call x < length (calls s) \<and> ex_srv x < length (heap (net s)) \<and>
        serves cd (req (calls s ! ex_call x)) (heap (net s) ! ex_srv x) (ex_pre x) (ex_post x) (ex_reply x))"

lemma call_ok_mono: "call_ok cd rn rs c \<Longrightarrow> length (heap rn) \<le> length (heap rn') \<Longrightarrow> call_ok cd rn' rs c"
  unfolding call_ok_def by (cases "pc c"; cases "job c") (auto simp: job_ok_def)

text \<open>Steps that run no handler: one call changes, and the servers stay.\<close>

lemma rpc_inv_call:
  assumes "rpc_inv cd w0 s" and "k < length (calls s)" and "req c = req (calls s ! k)"
    and "call_ok cd (net s) (runs_of k (execs s)) c"
    and "heap rn = heap (net s)" and "servers rn = servers (net s)"
  shows "rpc_inv cd w0 ((setCall k c s)\<lparr>net := rn\<rparr>)" "rpc_inv cd w0 (setCall k c s)"
proof -
  have "call_ok cd rn rs c' = call_ok cd (net s) rs c'" for rs c'
    using call_ok_mono [of cd rn rs c' "net s"] call_ok_mono [of cd "net s" rs c' rn] assms(5) by auto
  moreover have "req ((calls s)[k := c] ! j) = req (calls s ! j)" for j
    using assms(2,3) by (cases "j = k") auto
  ultimately show "rpc_inv cd w0 ((setCall k c s)\<lparr>net := rn\<rparr>)" "rpc_inv cd w0 (setCall k c s)"
    using assms by (auto simp: rpc_inv_def setCall_def nth_list_update)
qed

lemma rpc_inv_crashed [simp]: "rpc_inv cd w0 (s\<lparr>crashed := p\<rparr>) = rpc_inv cd w0 s"
  by (simp add: rpc_inv_def)

lemma addBytes_simps [simp]: "heap (addBytes bs rn) = heap rn" "servers (addBytes bs rn) = servers rn"
  by (simp_all add: addBytes_def)

lemma handler_inv:
  assumes "rpc_inv cd w0 s" and "k < length (calls s)" and "handler_step cd k (calls s ! k) s = Some t"
  shows "rpc_inv cd w0 t"
proof -
  let ?c = "calls s ! k" and ?rn = "net s"
  have c: "call_ok cd ?rn (runs_of k (execs s)) ?c" using assms(1,2) by (simp add: rpc_inv_def)
  obtain a where a: "job ?c = Started a" using assms(3) by (auto simp: handler_step_def split: job.splits)
  then have lt: "a < length (heap ?rn)" and none: "runs_of k (execs s) = []"
    using c by (auto simp: call_ok_def job_ok_def)
  show ?thesis
  proof (cases "Server_dispatch cd (req ?c) (heap ?rn ! a) (world s)")
    case (Inl p)
    with assms(1,3) a show ?thesis by (auto simp: handler_step_def split: if_splits)
  next
    case (Inr x)
    obtain rs w r where x: "x = (rs, w, r)" by (cases x)
    have sv: "serves cd (req ?c) (heap ?rn ! a) (world s) w r" using Inr x by (auto simp: serves_def)
    have rs: "rs = (heap ?rn ! a)\<lparr>srv_count := srv_count (heap ?rn ! a) + 1\<rparr>"
      using Inr x by (auto dest: Server_dispatch_frame)
    then have same: "serves cd q ((heap ?rn)[a := rs] ! b) = serves cd q (heap ?rn ! b)" for q b
      using lt by (cases "b = a") (simp_all add: serves_count)
    have t: "t = (setCall k (?c\<lparr>job := Finished r\<rparr>) s)\<lparr>net := ?rn\<lparr>heap := (heap ?rn)[a := rs]\<rparr>, world := w,
        execs := execs s @ [\<lparr>ex_call = k, ex_srv = a, ex_pre = world s, ex_post = w, ex_reply = r\<rparr>]\<rparr>"
      using assms(3) a Inr x by (simp add: handler_step_def)
    have "pc_ok cd ?rn (var ?c) (Started a) (pc ?c) \<Longrightarrow> pc_ok cd ?rn (var ?c) (Finished r) (pc ?c)"
      by (cases "pc ?c") auto
    then have "call_ok cd ?rn [r] (?c\<lparr>job := Finished r\<rparr>)" using c a by (simp add: call_ok_def job_ok_def)
    then have k: "call_ok cd (net t) (runs_of k (execs t)) (calls t ! k)"
      using none assms(2) by (auto simp: t setCall_def intro: call_ok_mono)
    have "call_ok cd (net t) (runs_of j (execs t)) (calls t ! j)" if "j < length (calls s)" for j
      using that k assms(1) by (cases "j = k") (auto simp: t rpc_inv_def setCall_def intro: call_ok_mono)
    moreover have "req ((calls s)[k := ?c\<lparr>job := Finished r\<rparr>] ! j) = req (calls s ! j)" for j
      using assms(2) by (cases "j = k") auto
    ultimately show ?thesis
      using assms(1,2) sv lt by (auto simp: t rpc_inv_def setCall_def linked_snoc same)
  qed
qed

lemma call_step_inv:
  assumes "rpc_inv cd w0 s" and "k < length (calls s)" and "call_step cd a k s = Some t"
  shows "rpc_inv cd w0 t"
proof (cases "a = HandlerRuns")
  case True
  with assms show ?thesis by (simp add: call_step_def handler_inv)
next
  case False
  let ?c = "calls s ! k"
  note upd = rpc_inv_call [OF assms(1,2)]
  have c: "call_ok cd (net s) (runs_of k (execs s)) ?c" using assms(1,2) by (simp add: rpc_inv_def)
  have srv: "servers (net s) sn = Some b \<Longrightarrow> b < length (heap (net s))" for sn b
    using assms(1) by (simp add: rpc_inv_def)
  show ?thesis
  proof (cases "pc ?c")
    case Sending
    with assms(3) False c show ?thesis
      by (auto simp: call_step_def Let_def send_step_def call_ok_def split: call_act.splits if_splits intro!: upd)
  next
    case (Replying m)
    with assms(3) False c assms(1) show ?thesis
      by (auto simp: call_step_def Let_def return_step_def call_ok_def split: if_splits option.splits intro!: upd)
  next
    case Queued
    with assms(3) False c show ?thesis
      by (auto simp: call_step_def Let_def process_step_def call_ok_def readEndnameInfo_def Let_def noReply_def
          split: if_splits option.splits bool.splits intro!: upd dest: srv)
  next
    case (Found sn b rel lr)
    with assms(3) False c show ?thesis
      by (auto simp: call_step_def Let_def process_step_def call_ok_def job_ok_def noReply_def
          split: call_act.splits if_splits intro!: upd)
  next
    case (Waiting sn b rel lr)
    with assms(3) False c assms(1) show ?thesis
      by (auto simp: call_step_def Let_def process_step_def call_ok_def
          split: call_act.splits if_splits job.splits intro!: upd)
  next
    case (Decided sn b rel lr r)
    with assms(3) False c show ?thesis
      by (auto simp: call_step_def process_step_def decide_step_def Let_def call_ok_def noReply_def
          split: call_act.splits if_splits option.splits intro!: upd)
  next
    case (Delayed m)
    with assms(3) False c show ?thesis
      by (auto simp: call_step_def Let_def process_step_def call_ok_def split: if_splits intro!: upd)
  next
    case (Returned b v)
    with assms(3) False show ?thesis by (simp add: call_step_def process_step_def)
  qed
qed

lemma net_op_frame:
  assumes "net_op opn rn = Inr rn'"
  shows "\<exists>xs. heap rn' = heap rn @ xs" and "servers rn' sn = Some a \<Longrightarrow> servers rn sn = Some a \<or> a < length (heap rn')"
  using assms
  by (auto simp: net_op_def Reliable_def LongReordering_def LongDelays_def MakeEnd_def AddServer_def DeleteServer_def
      Connect_def Enable_def Cleanup_def split: rpc_op.splits if_splits)

lemma rpc_inv_netop:
  assumes "rpc_inv cd w0 s" and "net_op opn (net s) = Inr rn"
  shows "rpc_inv cd w0 (s\<lparr>net := rn\<rparr>)"
proof -
  from net_op_frame(1) [OF assms(2)] obtain xs where xs: "heap rn = heap (net s) @ xs" by blast
  have "call_ok cd (net s) rs c \<Longrightarrow> call_ok cd rn rs c" for rs c by (erule call_ok_mono) (simp add: xs)
  moreover have "servers rn sn = Some a \<Longrightarrow> a < length (heap rn)" for sn a
    using net_op_frame(2) [OF assms(2), of sn a] assms(1) xs by (fastforce simp: rpc_inv_def)
  ultimately show ?thesis using assms(1) xs by (auto simp: rpc_inv_def nth_append)
qed

lemma rpc_inv_newcall:
  assumes "rpc_inv cd w0 s"
  shows "rpc_inv cd w0 (s\<lparr>calls := calls s @ [\<lparr>req = q, var = v, pc = Sending, job = NoJob\<rparr>]\<rparr>)"
proof -
  have "runs_of (length (calls s)) (execs s) = []"
    using assms by (auto simp: rpc_inv_def runs_of_def filter_empty_conv)
  then have "call_ok cd (net s) (runs_of k (execs s)) ((calls s @ [\<lparr>req = q, var = v, pc = Sending, job = NoJob\<rparr>]) ! k)"
    if "k < Suc (length (calls s))" for k
    using that assms by (cases "k = length (calls s)") (auto simp: rpc_inv_def nth_append call_ok_def job_ok_def)
  with assms show ?thesis by (auto simp: rpc_inv_def nth_append)
qed

lemma rpc_act_inv: "rpc_act cd a s = Some t \<Longrightarrow> rpc_inv cd w0 s \<Longrightarrow> rpc_inv cd w0 t"
  by (cases a)
    (auto simp: rpc_act_def rpc_inv_newcall split: if_splits option.splits sum.splits
      intro: call_step_inv rpc_inv_netop, auto simp: rpc_inv_def)

lemma rpc_init_inv: "rpc_inv cd w (rpc_init w)"
  by (simp add: rpc_inv_def rpc_init_def MakeNetwork_def)

interpretation rpc: machine_invariant "\<lambda>s. s = rpc_init w0" "rpc_act cd" "rpc_inv cd w0" for w0 cd
  by unfold_locales (auto intro: rpc_init_inv rpc_act_inv)

lemma runs_le_one: "job_ok rn (runs_of k xs) j \<Longrightarrow> length (runs_of k xs) \<le> 1"
  by (cases j) (auto simp: job_ok_def)

lemma distinct_of_runs:
  "(\<And>k. k \<in> ex_call ` set xs \<Longrightarrow> length (runs_of k xs) \<le> 1) \<Longrightarrow> distinct (map ex_call xs)"
proof (induction xs)
  case (Cons x xs)
  have "length (runs_of (ex_call x) (x # xs)) = Suc (length (runs_of (ex_call x) xs))" by (simp add: runs_of_def)
  with Cons.prems [of "ex_call x"] have "runs_of (ex_call x) xs = []" by simp
  then have "ex_call x \<notin> ex_call ` set xs" by (auto simp: runs_of_def filter_empty_conv)
  moreover have "length (runs_of k xs) \<le> 1" if "k \<in> ex_call ` set xs" for k
    using Cons.prems [of k] that by (auto simp: runs_of_def split: if_splits)
  ultimately show ?case using Cons.IH by auto
qed simp

text \<open>
  C18. Calls over the simulated network, with any interleaving of callers, handlers and changes to the network:
  the handler of a call runs at most once, the state of the program is what the handler runs made of the
  initial one in their order, each run is what the addressed server does with the request of the call, and a
  call that returned true has the decoded reply of exactly such a run in its reply variable; one
  that returned false left the variable alone.
\<close>

theorem rpc_at_most_once:
  assumes "reach (\<lambda>s. s = rpc_init w0) (act_step (rpc_act cd)) s"
  shows "distinct (map ex_call (execs s)) \<and> linked w0 (execs s) (world s) \<and>
    (\<forall>x \<in> set (execs s). serves cd (req (calls s ! ex_call x)) (heap (net s) ! ex_srv x) (ex_pre x) (ex_post x) (ex_reply x)) \<and>
    (\<forall>k < length (calls s). \<forall>v. pc (calls s ! k) = Returned True v \<longrightarrow>
       (\<exists>x \<in> set (execs s). ex_call x = k \<and> decode cd (reply (ex_reply x)) (var (calls s ! k)) = Some v)) \<and>
    (\<forall>k < length (calls s). \<forall>v. pc (calls s ! k) = Returned False v \<longrightarrow> v = var (calls s ! k))"
proof -
  have inv: "rpc_inv cd w0 s" using assms by (rule rpc.reach_inv)
  then have c: "call_ok cd (net s) (runs_of k (execs s)) (calls s ! k)" if "k < length (calls s)" for k
    using that by (simp add: rpc_inv_def)
  have "length (runs_of k (execs s)) \<le> 1" if "k \<in> ex_call ` set (execs s)" for k
    using that inv c [of k] runs_le_one by (fastforce simp: rpc_inv_def call_ok_def)
  then have "distinct (map ex_call (execs s))" by (rule distinct_of_runs)
  moreover have "\<exists>x \<in> set (execs s). ex_call x = k \<and> decode cd (reply (ex_reply x)) (var (calls s ! k)) = Some v"
    if "k < length (calls s)" and r: "pc (calls s ! k) = Returned True v" for k v
  proof -
    from c [OF that(1)] r obtain m where m: "runs_of k (execs s) = [m]" "decode cd (reply m) (var (calls s ! k)) = Some v"
      by (auto simp: call_ok_def job_ok_def)
    then have "m \<in> ex_reply ` set (filter (\<lambda>x. ex_call x = k) (execs s))"
      by (metis list.set_intros(1) list.set_map runs_of_def)
    with m(2) show ?thesis by auto
  qed
  moreover have "v = var (calls s ! k)" if "k < length (calls s)" "pc (calls s ! k) = Returned False v" for k v
    using c [OF that(1)] that(2) by (simp add: call_ok_def)
  ultimately show ?thesis using inv by (auto simp: rpc_inv_def)
qed

text \<open>A service that adds its argument to a counter and answers the old value, and a call of it over an unreliable network.\<close>

definition nat_codec :: "nat codec" where
  "nat_codec = \<lparr>TypeOf = (\<lambda>_. ''int''), New = (\<lambda>_. 0), encode = (\<lambda>n. Some [of_nat n]),
     decode = (\<lambda>bs v. Some (case bs of [] \<Rightarrow> v | b # _ \<Rightarrow> unat b))\<rparr>"

definition counter_server :: "(nat, nat) Server" where
  "counter_server = AddService (MakeService ''Counter''
     [\<lparr>mName = ''Add'', PkgPath = [], NumIn = 3, In2IsPtr = True, In2Elem = ''int'', NumOut = 0,
       Func = (\<lambda>a r w. Inr (w + a, w))\<rparr>]) MakeServer"

definition counter_run :: "(nat, nat) rpc_action list" where
  "counter_run = [NetOp (Op_MakeEnd ''e''), NetOp (Op_AddServer 0 counter_server), NetOp (Op_Connect ''e'' 0),
     NetOp (Op_Enable ''e'' True), NetOp (Op_Reliable False), Call ''e'' ''Counter.Add'' 5 0, Step Receive 0, Step Lookup 0,
     Step Dispatch 0, Step HandlerRuns 0, Step TakeReply 0, Step Decide 0, Step Return 0]"

lemma counter_run_result:
  "map_option (\<lambda>s. (world s, length (calls s), map ex_reply (execs s))) (run (rpc_act nat_codec) counter_run (rpc_init 7)) =
     Some (12, 1, [\<lparr>ok = True, reply = [7]\<rparr>])"
  unfolding counter_run_def by code_simp

lemma counter_run_pc:
  "map_option (\<lambda>s. case pc (calls s ! 0) of Returned b v \<Rightarrow> (b, v) | _ \<Rightarrow> (False, 0))
     (run (rpc_act nat_codec) counter_run (rpc_init 7)) = Some (True, 7)"
  unfolding counter_run_def by code_simp

theorem rpc_at_most_once_witness:
  "\<exists>s x. run (rpc_act nat_codec) counter_run (rpc_init 7) = Some s \<and> x \<in> set (execs s) \<and> ex_call x = 0 \<and>
     decode nat_codec (reply (ex_reply x)) (var (calls s ! 0)) = Some 7 \<and> linked 7 (execs s) 12"
proof -
  from counter_run_result obtain s where s: "run (rpc_act nat_codec) counter_run (rpc_init 7) = Some s"
    "world s = 12" "length (calls s) = 1" by auto
  with counter_run_pc have pc: "pc (calls s ! 0) = Returned True 7" by (auto split: call_pc.splits)
  note T = rpc_at_most_once [OF run_from [OF s(1)]]
  then have "linked 7 (execs s) 12" using s(2) by simp
  moreover have "\<exists>x \<in> set (execs s). ex_call x = 0 \<and> decode nat_codec (reply (ex_reply x)) (var (calls s ! 0)) = Some 7"
    using T s(3) pc by auto
  ultimately show ?thesis using s(1) by blast
qed

section \<open>Every call can return\<close>

definition loop_inv :: "('v, 'w) rpc_state \<Rightarrow> bool" where
  "loop_inv s \<longleftrightarrow> looping s \<or> closed (net s)"

lemma loop_inv_act:
  assumes "rpc_act cd a s = Some t" and "loop_inv s"
  shows "loop_inv t"
proof -
  have n: "net_op opn (net s) = Inr rn \<Longrightarrow> closed (net s) \<Longrightarrow> closed rn" for opn rn
    by (auto simp: net_op_def Reliable_def LongReordering_def LongDelays_def MakeEnd_def AddServer_def DeleteServer_def
      Connect_def Enable_def Cleanup_def split: rpc_op.splits if_splits)
  have c: "closed (net t) = closed (net s) \<and> looping t = looping s" if "call_step cd ca k s = Some t" for ca k
    using that
    by (auto simp: call_step_def Let_def handler_step_def send_step_def return_step_def process_step_def decide_step_def
        setCall_def addBytes_def readEndnameInfo_def
        split: if_splits call_pc.splits call_act.splits job.splits option.splits sum.splits bool.splits)
  show ?thesis using assms n c by (cases a) (auto simp: rpc_act_def loop_inv_def split: if_splits option.splits sum.splits)
qed

interpretation loop: machine_invariant "\<lambda>s. s = rpc_init w0" "rpc_act cd" loop_inv for w0 cd
  by unfold_locales (simp add: rpc_init_def loop_inv_def, rule loop_inv_act)

text \<open>Within \<open>n\<close> steps of its own, call \<open>k\<close> can return.\<close>

definition can_return :: "'v codec \<Rightarrow> nat \<Rightarrow> nat \<Rightarrow> ('v, 'w) rpc_state \<Rightarrow> bool" where
  "can_return cd n k s \<longleftrightarrow> (\<exists>as t b v. length as \<le> n \<and> run (rpc_act cd) (map (\<lambda>a. Step a k) as) s = Some t \<and>
     crashed t = None \<and> pc (calls t ! k) = Returned b v)"

lemma can_return_now: "crashed s = None \<Longrightarrow> pc (calls s ! k) = Returned b v \<Longrightarrow> can_return cd n k s"
  unfolding can_return_def by (intro exI [of _ "[]"] exI [of _ s]) auto

lemma can_return_step: "rpc_act cd (Step a k) s = Some t \<Longrightarrow> can_return cd n k t \<Longrightarrow> can_return cd (Suc n) k s"
  unfolding can_return_def by (elim exE conjE, rule_tac x = "a # as" in exI) auto

lemma can_return_mono: "can_return cd n k s \<Longrightarrow> n \<le> m \<Longrightarrow> can_return cd m k s"
  unfolding can_return_def by (meson le_trans)

text \<open>The state after call \<open>k\<close> moved.\<close>

definition moved :: "nat \<Rightarrow> 'v call_pc \<Rightarrow> job \<Rightarrow> ('v, 'w) rpc_state \<Rightarrow> bool" where
  "moved k p j s \<longleftrightarrow> crashed s = None \<and> k < length (calls s) \<and> pc (calls s ! k) = p \<and> job (calls s ! k) = j"

lemma return_Replying:
  assumes "\<forall>bs v. decode cd bs v \<noteq> None" and "moved k (Replying m) j s"
  shows "can_return cd 1 k s"
proof -
  let ?c = "calls s ! k"
  obtain v where "decode cd (reply m) (var ?c) = Some v" using assms(1) by fastforce
  then have "rpc_act cd (Step Return k) s =
      Some (setCall k (?c\<lparr>pc := Returned (ok m) (if ok m then v else var ?c)\<rparr>) s)"
    using assms(2) by (simp add: moved_def rpc_act_def call_step_def return_step_def Let_def)
  moreover have "can_return cd 0 k (setCall k (?c\<lparr>pc := Returned (ok m) x\<rparr>) s)" for x
    using assms(2) by (intro can_return_now) (auto simp: moved_def setCall_def)
  ultimately show ?thesis using can_return_step by (metis One_nat_def)
qed

lemma return_Decided:
  assumes "\<forall>bs v. decode cd bs v \<noteq> None" and "moved k (Decided sn a rel lr r) j s"
  shows "can_return cd 2 k s"
proof -
  have "\<exists>t m. rpc_act cd (Step Decide k) s = Some t \<and> moved k (Replying m) j t"
    using assms(2)
    by (cases r) (auto simp: moved_def rpc_act_def call_step_def process_step_def decide_step_def Let_def setCall_def)
  with return_Replying [OF assms(1)] can_return_step show ?thesis by (metis Suc_1)
qed

lemma return_Waiting:
  assumes "\<forall>bs v. decode cd bs v \<noteq> None" and "moved k (Waiting sn a rel lr) j s" and "j \<noteq> NoJob"
    and "\<And>b. j = Started b \<Longrightarrow> \<exists>x. Server_dispatch cd (req (calls s ! k)) (heap (net s) ! b) (world s) = Inr x"
  shows "can_return cd 4 k s"
proof -
  have take: "can_return cd 3 k t" if "moved k (Waiting sn a rel lr) (Finished r) t" for t r
  proof -
    have "\<exists>u. rpc_act cd (Step TakeReply k) t = Some u \<and> moved k (Decided sn a rel lr (Some r)) (Finished r) u"
      using that by (auto simp: moved_def rpc_act_def call_step_def process_step_def Let_def setCall_def)
    with return_Decided [OF assms(1)] can_return_step show ?thesis by (metis numeral_3_eq_3 numeral_2_eq_2)
  qed
  show ?thesis
  proof (cases j)
    case (Started b)
    with assms(4) obtain rs w r where "Server_dispatch cd (req (calls s ! k)) (heap (net s) ! b) (world s) = Inr (rs, w, r)"
      by (metis prod_cases3)
    then have "\<exists>u. rpc_act cd (Step HandlerRuns k) s = Some u \<and> moved k (Waiting sn a rel lr) (Finished r) u"
      using assms(2) Started by (auto simp: moved_def rpc_act_def call_step_def handler_step_def Let_def setCall_def)
    with take can_return_step show ?thesis by (metis eval_nat_numeral(2) semiring_norm(26,27) numeral_3_eq_3 Suc_numeral)
  next
    case (Finished r)
    then show ?thesis using take [of r s] assms(2) by (auto intro: can_return_mono)
  qed (use assms(3) in simp)
qed

lemma return_Found:
  assumes "\<forall>bs v. decode cd bs v \<noteq> None" and "moved k (Found sn a rel lr) NoJob s"
    and "\<exists>x. Server_dispatch cd (req (calls s ! k)) (heap (net s) ! a) (world s) = Inr x"
  shows "can_return cd 5 k s"
proof -
  let ?t = "setCall k ((calls s ! k)\<lparr>pc := Waiting sn a rel lr, job := Started a\<rparr>) s"
  have "rpc_act cd (Step Dispatch k) s = Some ?t"
    using assms(2) by (simp add: moved_def rpc_act_def call_step_def process_step_def Let_def)
  moreover have "can_return cd 4 k ?t"
    by (rule return_Waiting [OF assms(1), of k sn a rel lr "Started a"])
       (use assms(2,3) in \<open>auto simp: moved_def setCall_def\<close>)
  ultimately show ?thesis using can_return_step [of cd Dispatch k s ?t 4] by simp
qed

lemma return_Queued:
  assumes "\<forall>bs v. decode cd bs v \<noteq> None" and "moved k Queued NoJob s"
    and "\<forall>sn a. servers (net s) sn = Some a \<longrightarrow>
      (\<exists>x. Server_dispatch cd (req (calls s ! k)) (heap (net s) ! a) (world s) = Inr x)"
  shows "can_return cd 6 k s"
proof (cases "\<exists>sn a rel lr. readEndnameInfo (endname (req (calls s ! k))) (net s) = (True, Some sn, Some a, rel, lr)")
  case True
  then obtain sn a rel lr where i: "readEndnameInfo (endname (req (calls s ! k))) (net s) = (True, Some sn, Some a, rel, lr)"
    by blast
  let ?t = "setCall k ((calls s ! k)\<lparr>pc := Found sn a rel lr\<rparr>) s"
  have "servers (net s) sn = Some a" using i by (auto simp: readEndnameInfo_def Let_def split: option.splits)
  with assms have "can_return cd 5 k ?t"
    by (intro return_Found [of cd k sn a rel lr]) (auto simp: moved_def setCall_def)
  moreover have "rpc_act cd (Step Lookup k) s = Some ?t"
    using assms(2) i by (simp add: moved_def rpc_act_def call_step_def process_step_def Let_def)
  ultimately show ?thesis using can_return_step [of cd Lookup k s ?t 5] by simp
next
  case False
  let ?t = "setCall k ((calls s ! k)\<lparr>pc := Replying noReply\<rparr>) s"
  have "rpc_act cd (Step Lookup k) s = Some ?t"
    using assms(2) False
    by (auto simp: moved_def rpc_act_def call_step_def process_step_def Let_def readEndnameInfo_def
        split: bool.splits option.splits)
  moreover have "can_return cd 1 k ?t"
    using assms(1,2) by (intro return_Replying) (auto simp: moved_def setCall_def)
  ultimately show ?thesis using can_return_step [of cd Lookup k s ?t 1] by (auto intro: can_return_mono)
qed

lemma return_Sending:
  assumes "\<forall>bs v. decode cd bs v \<noteq> None" and "moved k Sending NoJob s" and "loop_inv s"
    and "\<forall>sn a. servers (net s) sn = Some a \<longrightarrow>
      (\<exists>x. Server_dispatch cd (req (calls s ! k)) (heap (net s) ! a) (world s) = Inr x)"
  shows "can_return cd 7 k s"
proof (cases "looping s")
  case True
  let ?c = "calls s ! k"
  let ?t = "(setCall k (?c\<lparr>pc := Queued\<rparr>) s)\<lparr>net := addBytes (args (req ?c)) ((net s)\<lparr>count := count (net s) + 1\<rparr>)\<rparr>"
  have "can_return cd 6 k ?t" using assms(2,4)
    by (intro return_Queued [OF assms(1)]) (auto simp: moved_def setCall_def)
  moreover have "rpc_act cd (Step Receive k) s = Some ?t"
    using True assms(2) by (simp add: moved_def rpc_act_def call_step_def send_step_def Let_def)
  ultimately show ?thesis using can_return_step [of cd Receive k s ?t 6] by simp
next
  case False
  let ?t = "setCall k ((calls s ! k)\<lparr>pc := Returned False (var (calls s ! k))\<rparr>) s"
  have "rpc_act cd (Step Cancelled k) s = Some ?t"
    using False assms(2,3) by (simp add: moved_def rpc_act_def call_step_def send_step_def Let_def loop_inv_def)
  moreover have "can_return cd 6 k ?t"
    using assms(2) by (intro can_return_now) (auto simp: moved_def setCall_def)
  ultimately show ?thesis using can_return_step [of cd Cancelled k s ?t 6] by simp
qed

lemma return_Delayed:
  assumes "\<forall>bs v. decode cd bs v \<noteq> None" and "moved k (Delayed m) j s"
  shows "can_return cd 2 k s"
proof -
  let ?t = "(setCall k ((calls s ! k)\<lparr>pc := Replying m\<rparr>) s)\<lparr>net := addBytes (reply m) (net s)\<rparr>"
  have "rpc_act cd (Step Fire k) s = Some ?t"
    using assms(2) by (simp add: moved_def rpc_act_def call_step_def process_step_def Let_def)
  moreover have "can_return cd 1 k ?t"
    using assms(2) by (intro return_Replying [OF assms(1)]) (auto simp: moved_def setCall_def)
  ultimately show ?thesis using can_return_step [of cd Fire k s ?t 1] by (simp add: numeral_2_eq_2)
qed


lemma answers_iff: "(case m of Inl p \<Rightarrow> False | Inr x \<Rightarrow> True) \<longleftrightarrow> (\<exists>x. m = Inr x)"
  by (cases m) auto


end
