(* ===== verification/TesterConfig.thy ===== *)
theory TesterConfig
  imports RaftCluster LabRpc
begin

text \<open>
  \<^verbatim>\<open>lab3/raft/config.go\<close>: the harness that starts, crashes, connects and disconnects Raft servers on the network of
  \<open>labrpc\<close>, and checks what they apply.  A test that ends in \<open>t.Fatalf\<close> or \<open>log.Fatalf\<close> is an
  \<open>Inl LogFatal\<close>.  The random names of client ends are arguments; so is the server object that \<open>MakeService\<close>
  makes of a Raft peer by reflection.  A checking function that looks at the system more than once takes
  what it sees each time as a list.
\<close>

section \<open>The configuration\<close>

text \<open>While server \<open>i\<close> runs, \<open>cfg.saved[i]\<close> and \<open>rf.persister\<close> are the same object: \<open>savedOf\<close> reads it from the peer.
  \<open>logs\<close> holds the entries each server has applied.\<close>

record ('c, 'v, 'w) config =
  cfnet :: "('v, 'w) Network"
  cfn :: nat
  rafts :: "'c Raft option list"
  connected :: "bool list"
  saved :: "'c gob_item Persister option list"
  endnames :: "string list option list"
  logs :: "(int \<Rightarrow> 'c option option) list"
  maxIndex :: int
  rpcs0 :: int
  cmds0 :: int
  bytes0 :: int
  maxIndex0 :: int

definition empty_config :: "nat \<Rightarrow> bool \<Rightarrow> ('c, 'v, 'w) config" where
  "empty_config n unreliable = \<lparr>cfnet = LongDelays True (Reliable (\<not> unreliable) MakeNetwork), cfn = n, rafts = replicate n None,
     connected = replicate n False, saved = replicate n None, endnames = replicate n None,
     logs = replicate n (\<lambda>_. None), maxIndex = 0, rpcs0 = 0, cmds0 = 0, bytes0 = 0, maxIndex0 = 0\<rparr>"

definition savedOf :: "nat \<Rightarrow> ('c, 'v, 'w) config \<Rightarrow> 'c gob_item Persister option" where
  "savedOf i cfg = (case rafts cfg ! i of Some rf \<Rightarrow> Some (persister rf) | None \<Rightarrow> saved cfg ! i)"

definition setunreliable :: "bool \<Rightarrow> ('c, 'v, 'w) config \<Rightarrow> ('c, 'v, 'w) config" where
  "setunreliable unrel cfg = cfg\<lparr>cfnet := Reliable (\<not> unrel) (cfnet cfg)\<rparr>"

definition setlongreordering :: "bool \<Rightarrow> ('c, 'v, 'w) config \<Rightarrow> ('c, 'v, 'w) config" where
  "setlongreordering longrel cfg = cfg\<lparr>cfnet := LongReordering longrel (cfnet cfg)\<rparr>"

definition rpcCount :: "int \<Rightarrow> ('c, 'v, 'w) config \<Rightarrow> int go" where
  "rpcCount sv cfg = GetCount sv (cfnet cfg)"

definition rpcTotal :: "('c, 'v, 'w) config \<Rightarrow> int" where
  "rpcTotal cfg = GetTotalCount (cfnet cfg)"

definition bytesTotal :: "('c, 'v, 'w) config \<Rightarrow> int" where
  "bytesTotal cfg = GetTotalBytes (cfnet cfg)"

section \<open>Names of client ends\<close>

text \<open>\<open>base64.URLEncoding\<close>: three bytes give four letters, and the last group is padded.\<close>

definition urlAlphabet :: string where
  "urlAlphabet = ''ABCDEFGHIJKLMNOPQRSTUVWXYZabcdefghijklmnopqrstuvwxyz0123456789-_''"

definition urlDigit :: "nat \<Rightarrow> char" where
  "urlDigit i = urlAlphabet ! (i mod 64)"

fun urlEncode :: "8 word list \<Rightarrow> string" where
  "urlEncode [] = []"
| "urlEncode [a] = [urlDigit (unat a div 4), urlDigit (unat a mod 4 * 16), CHR ''='', CHR ''='']"
| "urlEncode [a, b] = [urlDigit (unat a div 4), urlDigit (unat a mod 4 * 16 + unat b div 16), urlDigit (unat b mod 16 * 4), CHR ''='']"
| "urlEncode (a # b # c # rest) =
     [urlDigit (unat a div 4), urlDigit (unat a mod 4 * 16 + unat b div 16), urlDigit (unat b mod 16 * 4 + unat c div 64),
      urlDigit (unat c mod 64)] @ urlEncode rest"

text \<open>\<open>b\<close> is what \<open>crand.Read\<close> puts into the buffer of \<open>2*n\<close> bytes, and \<open>crandInt\<close> is \<open>crand.Int\<close> on the system's source.\<close>

definition randstring :: "nat \<Rightarrow> 8 word list \<Rightarrow> string go" where
  "randstring n b = slice (urlEncode b) 0 (int n)"

definition makeSeed :: "(int \<Rightarrow> int) \<Rightarrow> int" where
  "makeSeed crandInt = crandInt (2 ^ 62)"

lemma urlEncode_length: "length bs \<le> length (urlEncode bs)"
  by (induction bs rule: urlEncode.induct) simp_all

lemma randstring_length: "length b = 2 * n \<Longrightarrow> \<exists>s. randstring n b = Inr s \<and> length s = n"
  using urlEncode_length [of b] by (simp add: randstring_def slice_def)

section \<open>Connecting and disconnecting\<close>

text \<open>\<open>cfg.endnames[i][j]\<close>, where \<open>cfg.endnames[i]\<close> may be nil.\<close>

definition endName :: "('c, 'v, 'w) config \<Rightarrow> nat \<Rightarrow> nat \<Rightarrow> string option" where
  "endName cfg i j = (case endnames cfg ! i of
     None \<Rightarrow> None
   | Some es \<Rightarrow> if j < length es then Some (es ! j) else None)"

definition enableAll :: "bool \<Rightarrow> string list \<Rightarrow> ('v, 'w) Network \<Rightarrow> ('v, 'w) Network" where
  "enableAll b es rn = fold (\<lambda>e. Enable e b) es rn"

text \<open>An end that does not exist is an index into a nil slice.\<close>

definition connect :: "nat \<Rightarrow> ('c, 'v, 'w) config \<Rightarrow> ('c, 'v, 'w) config go" where
  "connect i cfg =
     (let cf1 = cfg\<lparr>connected := (connected cfg)[i := True]\<rparr>;
          js = filter (\<lambda>j. connected cf1 ! j) [0..<cfn cfg] in
      case those (map (endName cfg i) js @ map (\<lambda>j. endName cfg j i) js) of
        None \<Rightarrow> Inl IndexOutOfRange
      | Some es \<Rightarrow> Inr (cf1\<lparr>cfnet := enableAll True es (cfnet cfg)\<rparr>))"

definition disconnect :: "nat \<Rightarrow> ('c, 'v, 'w) config \<Rightarrow> ('c, 'v, 'w) config" where
  "disconnect i cfg =
     (let outgoing = (case endnames cfg ! i of None \<Rightarrow> [] | Some es \<Rightarrow> map (\<lambda>j. es ! j) [0..<cfn cfg]);
          incoming = concat (map (\<lambda>j. case endnames cfg ! j of None \<Rightarrow> [] | Some es \<Rightarrow> [es ! i]) [0..<cfn cfg])
      in cfg\<lparr>connected := (connected cfg)[i := False],
             cfnet := enableAll False (outgoing @ incoming) (cfnet cfg)\<rparr>)"

section \<open>Starting and crashing\<close>

text \<open>The killed peer is no longer known to the configuration; what it does afterwards goes to the old persister.\<close>

definition crash1 :: "nat \<Rightarrow> ('c, 'v, 'w) config \<Rightarrow> ('c, 'v, 'w) config" where
  "crash1 i cfg =
     (let cf1 = disconnect i cfg;
          cf2 = cf1\<lparr>cfnet := DeleteServer (int i) (cfnet cf1)\<rparr>;
          sv = map_option Copy (savedOf i cf2);
          cf3 = cf2\<lparr>saved := (saved cf2)[i := sv], rafts := (rafts cf2)[i := None]\<rparr>
      in case sv of
           None \<Rightarrow> cf3
         | Some ps \<Rightarrow>
             cf3\<lparr>saved := (saved cf3)[i := Some (SaveStateAndSnapshot (ReadRaftState ps) (ReadSnapshot ps) MakePersister)]\<rparr>)"

text \<open>A new end per peer: \<open>MakeEnd\<close> fails the test when the name is taken.\<close>

fun makeEnds :: "nat \<Rightarrow> string list \<Rightarrow> ('v, 'w) Network \<Rightarrow> ('v, 'w) Network go" where
  "makeEnds j [] rn = Inr rn"
| "makeEnds j (e # es) rn = go_bind (MakeEnd e rn) (\<lambda>rn1. makeEnds (Suc j) es (Connect e (int j) rn1))"

definition start1 :: "('c Raft \<Rightarrow> ('v, 'w) Server) \<Rightarrow> nat \<Rightarrow> string list \<Rightarrow> ('c, 'v, 'w) config \<Rightarrow> ('c, 'v, 'w) config go" where
  "start1 mkServer i names cfg =
     (let cf1 = crash1 i cfg;
          cf2 = cf1\<lparr>endnames := (endnames cf1)[i := Some names]\<rparr> in
      go_bind (makeEnds 0 names (cfnet cf2)) (\<lambda>rn.
        let ps = (case saved cf2 ! i of Some p \<Rightarrow> Copy p | None \<Rightarrow> MakePersister);
            rf = Make (cfn cfg) i ps;
            rn1 = rn\<lparr>heap := heap rn @ [mkServer rf]\<rparr>
        in Inr (cf2\<lparr>saved := (saved cf2)[i := Some ps], rafts := (rafts cf2)[i := Some rf],
                    cfnet := AddServer (int i) (length (heap rn)) rn1\<rparr>)))"

fun startAll :: "('c Raft \<Rightarrow> ('v, 'w) Server) \<Rightarrow> (nat \<times> string list) list \<Rightarrow> ('c, 'v, 'w) config \<Rightarrow> ('c, 'v, 'w) config go" where
  "startAll mkServer [] cfg = Inr cfg"
| "startAll mkServer ((i, names) # rest) cfg =
     go_bind (start1 mkServer i names (cfg\<lparr>logs := (logs cfg)[i := \<lambda>_. None]\<rparr>)) (startAll mkServer rest)"

fun connectAll :: "nat list \<Rightarrow> ('c, 'v, 'w) config \<Rightarrow> ('c, 'v, 'w) config go" where
  "connectAll [] cfg = Inr cfg"
| "connectAll (i # is) cfg = go_bind (connect i cfg) (connectAll is)"

definition make_config :: "('c Raft \<Rightarrow> ('v, 'w) Server) \<Rightarrow> nat \<Rightarrow> bool \<Rightarrow> (nat \<Rightarrow> string list) \<Rightarrow> ('c, 'v, 'w) config go" where
  "make_config mkServer n unreliable names =
     go_bind (startAll mkServer (map (\<lambda>i. (i, names i)) [0..<n]) (empty_config n unreliable)) (connectAll [0..<n])"

text \<open>The two-minute limit of a test, with the clock and the state of the test as arguments: \<open>since\<close> is in nanoseconds.\<close>

definition checkTimeout :: "bool \<Rightarrow> int \<Rightarrow> unit go" where
  "checkTimeout testFailed since = (if \<not> testFailed \<and> since > 120 * 1000000000 then Inl LogFatal else Inr ())"

definition cleanup :: "bool \<Rightarrow> int \<Rightarrow> ('c, 'v, 'w) config \<Rightarrow> ('c, 'v, 'w) config go" where
  "cleanup testFailed since cfg = go_bind (Cleanup (cfnet cfg)) (\<lambda>rn.
     go_bind (checkTimeout testFailed since) (\<lambda>_.
     Inr (cfg\<lparr>rafts := map (map_option Kill) (rafts cfg), cfnet := rn\<rparr>)))"

section \<open>Checking what is applied\<close>

datatype apply_error = Disagree nat nat | OutOfOrder

definition checkLogs :: "nat \<Rightarrow> 'c ApplyMsg \<Rightarrow> ('c, 'v, 'w) config \<Rightarrow> ('c, 'v, 'w) config \<times> apply_error option \<times> bool" where
  "checkLogs i m cfg =
     (let v = am_Command m; k = CommandIndex m;
          bad = filter (\<lambda>j. case (logs cfg ! j) k of Some old \<Rightarrow> old \<noteq> v | None \<Rightarrow> False) [0..<length (logs cfg)];
          err_msg = (if bad = [] then None else Some (Disagree i (last bad)));
          prevok = ((logs cfg ! i) (k - 1) \<noteq> None)
      in (cfg\<lparr>logs := (logs cfg)[i := (logs cfg ! i)(k := Some v)], maxIndex := max (maxIndex cfg) k\<rparr>, err_msg, prevok))"

text \<open>What the reader of server \<open>i\<close>'s apply channel does with one message.\<close>

definition applier :: "nat \<Rightarrow> 'c ApplyMsg \<Rightarrow> ('c, 'v, 'w) config \<Rightarrow> ('c, 'v, 'w) config go" where
  "applier i m cfg =
     (if \<not> CommandValid m then Inr cfg
      else
        case checkLogs i m cfg of
          (cf1, err_msg, prevok) \<Rightarrow>
            let err = (if CommandIndex m > 1 \<and> \<not> prevok then Some OutOfOrder else err_msg)
            in if err \<noteq> None then Inl LogFatal else Inr cf1)"

text \<open>How many servers think a log entry is committed, and which command it is.\<close>

fun countCommitted :: "int \<Rightarrow> (int \<Rightarrow> 'c option option) list \<Rightarrow> nat \<Rightarrow> 'c option \<Rightarrow> (nat \<times> 'c option) go" where
  "countCommitted k [] cnt cmd = Inr (cnt, cmd)"
| "countCommitted k (l # ls) cnt cmd =
     (case l k of
        None \<Rightarrow> countCommitted k ls cnt cmd
      | Some cmd1 \<Rightarrow> if cnt > 0 \<and> cmd \<noteq> cmd1 then Inl LogFatal else countCommitted k ls (Suc cnt) cmd1)"

definition nCommitted :: "int \<Rightarrow> ('c, 'v, 'w) config \<Rightarrow> (nat \<times> 'c option) go" where
  "nCommitted k cfg = countCommitted k (take (length (rafts cfg)) (logs cfg)) 0 None"

section \<open>Checking leaders and terms\<close>

text \<open>\<open>sts i\<close> is server \<open>i\<close> as \<open>GetState\<close> sees it; a connected server is not nil.\<close>

definition leadersOf :: "bool list \<Rightarrow> (nat \<Rightarrow> 'c Raft option) \<Rightarrow> nat \<Rightarrow> (int \<times> nat) list go" where
  "leadersOf conn sts n =
     (if \<exists>i < n. conn ! i \<and> sts i = None then Inl NilDeref
      else Inr (concat (map (\<lambda>i. if conn ! i
             then (case GetState (the (sts i)) of (term, leader) \<Rightarrow> if leader then [(term, i)] else []) else []) [0..<n])))"

text \<open>One of the ten tries of \<open>checkOneLeader\<close>: \<open>None\<close> where there is no leader yet.\<close>

definition oneLeader :: "bool list \<Rightarrow> (nat \<Rightarrow> 'c Raft option) \<Rightarrow> nat \<Rightarrow> nat option go" where
  "oneLeader conn sts n =
     go_bind (leadersOf conn sts n) (\<lambda>ls.
       if \<not> distinct (map fst ls) then Inl LogFatal
       else if ls = [] then Inr None
       else let lastTermWithLeader = Max (insert (-1) (fst ` set ls))
            in go_bind (index (filter (\<lambda>x. fst x = lastTermWithLeader) ls) 0) (\<lambda>x. Inr (Some (snd x))))"

fun checkOneLeader :: "bool list \<Rightarrow> nat \<Rightarrow> (nat \<Rightarrow> 'c Raft option) list \<Rightarrow> nat go" where
  "checkOneLeader conn n [] = Inl LogFatal"
| "checkOneLeader conn n (sts # rest) =
     go_bind (oneLeader conn sts n) (\<lambda>r. case r of Some i \<Rightarrow> Inr i | None \<Rightarrow> checkOneLeader conn n rest)"

fun termsAgree :: "int \<Rightarrow> int list \<Rightarrow> int go" where
  "termsAgree term [] = Inr term"
| "termsAgree term (x # xs) =
     (if term = -1 then termsAgree x xs else if term \<noteq> x then Inl LogFatal else termsAgree term xs)"

definition checkTerms :: "bool list \<Rightarrow> (nat \<Rightarrow> 'c Raft option) \<Rightarrow> nat \<Rightarrow> int go" where
  "checkTerms conn sts n =
     (let is = filter (\<lambda>i. conn ! i) [0..<n] in
      if \<exists>i \<in> set is. sts i = None then Inl NilDeref
      else termsAgree (-1) (map (\<lambda>i. fst (GetState (the (sts i)))) is))"

definition checkNoLeader :: "bool list \<Rightarrow> (nat \<Rightarrow> 'c Raft option) \<Rightarrow> nat \<Rightarrow> unit go" where
  "checkNoLeader conn sts n =
     go_bind (leadersOf conn sts n) (\<lambda>ls. if ls = [] then Inr () else Inl LogFatal)"

section \<open>Waiting for agreement\<close>

text \<open>Whether one of the servers, in their order, is past \<open>startTerm\<close>.\<close>

fun movedOn :: "int \<Rightarrow> 'c Raft option list \<Rightarrow> bool go" where
  "movedOn startTerm [] = Inr False"
| "movedOn startTerm (r # rs) =
     (case r of
        None \<Rightarrow> Inl NilDeref
      | Some rf \<Rightarrow> if fst (GetState rf) > startTerm then Inr True else movedOn startTerm rs)"

text \<open>\<open>looks\<close> is what the loop sees at each of its iterations, at most 30 of them: the configuration when it
  counts, and the servers it asks for their terms afterwards.  The result \<open>None\<close> stands for the \<open>-1\<close> that says that someone has moved on.\<close>

fun waitLoop :: "int \<Rightarrow> nat \<Rightarrow> int \<Rightarrow> (('c, 'v, 'w) config \<times> 'c Raft option list) list \<Rightarrow> bool go" where
  "waitLoop k n startTerm [] = Inr True"
| "waitLoop k n startTerm ((cfg, rs) # looks) =
     go_bind (nCommitted k cfg) (\<lambda>(nd, _).
       if nd \<ge> n then Inr True
       else go_bind (if startTerm > -1 then movedOn startTerm rs else Inr False) (\<lambda>past.
         if past then Inr False else waitLoop k n startTerm looks))"

definition wait :: "int \<Rightarrow> nat \<Rightarrow> int \<Rightarrow> (('c, 'v, 'w) config \<times> 'c Raft option list) list \<Rightarrow> ('c, 'v, 'w) config \<Rightarrow> 'c option option go" where
  "wait k n startTerm looks final =
     go_bind (waitLoop k n startTerm (take 30 looks)) (\<lambda>goes_on.
       if \<not> goes_on then Inr None
       else go_bind (nCommitted k final) (\<lambda>(nd, cmd). if nd < n then Inl LogFatal else Inr (Some cmd)))"

text \<open>The search for a leader in \<open>one\<close>: \<open>m\<close> servers are tried after server \<open>starts\<close>, in turn.\<close>

fun tryStart :: "'c \<Rightarrow> nat \<Rightarrow> nat \<Rightarrow> ('c, 'v, 'w) config \<Rightarrow> (('c, 'v, 'w) config \<times> nat \<times> int option) go" where
  "tryStart cmd 0 starts cfg = Inr (cfg, starts, None)"
| "tryStart cmd (Suc m) starts cfg =
     (let i = (starts + 1) mod cfn cfg in
      case (if connected cfg ! i then rafts cfg ! i else None) of
        None \<Rightarrow> tryStart cmd m i cfg
      | Some rf \<Rightarrow>
          go_bind (Start cmd rf) (\<lambda>(rf', index1, term, isLeader).
            let cf1 = cfg\<lparr>rafts := (rafts cfg)[i := Some rf']\<rparr> in
            if isLeader then Inr (cf1, i, Some index1) else tryStart cmd m i cf1))"

text \<open>The polls of one round: whether the command was seen committed by enough servers.\<close>

fun pollCommitted :: "'c \<Rightarrow> nat \<Rightarrow> int \<Rightarrow> ('c, 'v, 'w) config list \<Rightarrow> bool go" where
  "pollCommitted cmd expected k [] = Inr False"
| "pollCommitted cmd expected k (cfg # looks) =
     go_bind (nCommitted k cfg) (\<lambda>(nd, cmd1).
       if nd > 0 \<and> nd \<ge> expected \<and> cmd1 = Some cmd then Inr True else pollCommitted cmd expected k looks)"

text \<open>\<open>one\<close>: a round is the configuration when it looks for a leader and those it polls afterwards.\<close>

fun one :: "'c \<Rightarrow> nat \<Rightarrow> bool \<Rightarrow> nat \<Rightarrow> (('c, 'v, 'w) config \<times> ('c, 'v, 'w) config list) list \<Rightarrow> int go" where
  "one cmd expected retry starts [] = Inl LogFatal"
| "one cmd expected retry starts ((cfg, looks) # rounds) =
     go_bind (tryStart cmd (cfn cfg) starts cfg) (\<lambda>(_, starts', r).
       case r of
         None \<Rightarrow> one cmd expected retry starts' rounds
       | Some k \<Rightarrow>
           go_bind (pollCommitted cmd expected k looks) (\<lambda>found.
             if found then Inr k
             else if \<not> retry then Inl LogFatal
             else one cmd expected retry starts' rounds))"

section \<open>Statistics\<close>

definition begin_test :: "('c, 'v, 'w) config \<Rightarrow> ('c, 'v, 'w) config" where
  "begin_test cfg = cfg\<lparr>rpcs0 := rpcTotal cfg, bytes0 := bytesTotal cfg, cmds0 := 0, maxIndex0 := maxIndex cfg\<rparr>"

text \<open>The numbers \<open>end\<close> prints unless the test has failed: peers, calls, bytes and agreements since \<open>begin\<close>.\<close>

definition end_test :: "bool \<Rightarrow> int \<Rightarrow> ('c, 'v, 'w) config \<Rightarrow> (nat \<times> int \<times> int \<times> int) option go" where
  "end_test testFailed since cfg = go_bind (checkTimeout testFailed since) (\<lambda>_.
     Inr (if testFailed then None
          else Some (cfn cfg, rpcTotal cfg - rpcs0 cfg, bytesTotal cfg - bytes0 cfg, maxIndex cfg - maxIndex0 cfg)))"

definition LogSize :: "('c, 'v, 'w) config \<Rightarrow> nat go" where
  "LogSize cfg =
     (if \<exists>i < cfn cfg. savedOf i cfg = None then Inl NilDeref
      else Inr (fold (\<lambda>i m. max m (RaftStateSize (the (savedOf i cfg)))) [0..<cfn cfg] 0))"

section \<open>The applied commands agree exactly when the test goes on\<close>

text \<open>The readers of the apply channels work on the messages in the order in which they take the lock.\<close>

fun applyAll :: "(nat \<times> 'c ApplyMsg) list \<Rightarrow> ('c, 'v, 'w) config \<Rightarrow> ('c, 'v, 'w) config go" where
  "applyAll [] cfg = Inr cfg"
| "applyAll ((i, m) # ms) cfg = go_bind (applier i m cfg) (applyAll ms)"

lemma applyAll_append: "applyAll (xs @ ys) cfg = go_bind (applyAll xs cfg) (applyAll ys)"
proof (induction xs arbitrary: cfg)
  case (Cons x xs)
  obtain i m where "x = (i, m)" by fastforce
  with Cons show ?case by (cases "applier i m cfg") simp_all
qed simp

text \<open>Two deliveries for one index carry the same command.\<close>

definition agreeing :: "(nat \<times> 'c ApplyMsg) list \<Rightarrow> bool" where
  "agreeing ms \<longleftrightarrow> (\<forall>x \<in> set ms. \<forall>y \<in> set ms. CommandIndex (snd x) = CommandIndex (snd y) \<longrightarrow>
     am_Command (snd x) = am_Command (snd y))"

lemma agreeing_Nil [simp]: "agreeing []"
  by (simp add: agreeing_def)

lemma agreeing_snoc: "agreeing (ms @ [x]) \<longleftrightarrow> agreeing ms \<and>
    (\<forall>y \<in> set ms. CommandIndex (snd y) = CommandIndex (snd x) \<longrightarrow> am_Command (snd y) = am_Command (snd x))"
proof -
  have "set (ms @ [x]) = insert x (set ms)" by simp
  then show ?thesis unfolding agreeing_def by (simp only:) (metis insert_iff)
qed

text \<open>Every server gets the entry before an entry first.\<close>

fun ordered :: "(nat \<times> 'c ApplyMsg) list \<Rightarrow> bool" where
  "ordered [] \<longleftrightarrow> True"
| "ordered (x # earlier) \<longleftrightarrow> ordered earlier \<and>
     (CommandIndex (snd x) > 1 \<longrightarrow> (\<exists>y \<in> set earlier. fst y = fst x \<and> CommandIndex (snd y) = CommandIndex (snd x) - 1))"

definition applied :: "(nat \<times> 'c ApplyMsg) list \<Rightarrow> ('c, 'v, 'w) config \<Rightarrow> bool" where
  "applied ms cfg \<longleftrightarrow> (\<forall>i < length (logs cfg). \<forall>k v.
     (logs cfg ! i) k = Some v \<longleftrightarrow> (\<exists>m. (i, m) \<in> set ms \<and> CommandIndex m = k \<and> am_Command m = v))"

lemma applied_some: "applied ms cfg \<Longrightarrow> i < length (logs cfg) \<Longrightarrow>
   (logs cfg ! i) k \<noteq> None \<longleftrightarrow> (\<exists>m. (i, m) \<in> set ms \<and> CommandIndex m = k)"
  by (auto simp: applied_def)

lemma applier_ok_iff:
  assumes "applied ms cfg" and "agreeing ms" and "i < length (logs cfg)" and "CommandValid m"
    and "\<forall>x \<in> set ms. fst x < length (logs cfg)"
  shows "(\<exists>cf'. applier i m cfg = Inr cf') \<longleftrightarrow> agreeing (ms @ [(i, m)]) \<and>
    (CommandIndex m > 1 \<longrightarrow> (\<exists>y \<in> set ms. fst y = i \<and> CommandIndex (snd y) = CommandIndex m - 1))"
proof -
  let ?k = "CommandIndex m" and ?v = "am_Command m"
  have old: "(\<exists>j < length (logs cfg). (logs cfg ! j) ?k = Some w) \<longleftrightarrow>
      (\<exists>x \<in> set ms. CommandIndex (snd x) = ?k \<and> am_Command (snd x) = w)" for w
  proof
    assume "\<exists>j < length (logs cfg). (logs cfg ! j) ?k = Some w"
    then show "\<exists>x \<in> set ms. CommandIndex (snd x) = ?k \<and> am_Command (snd x) = w"
      using assms(1) by (force simp: applied_def)
  next
    assume "\<exists>x \<in> set ms. CommandIndex (snd x) = ?k \<and> am_Command (snd x) = w"
    then obtain j x where x: "(j, x) \<in> set ms" "CommandIndex x = ?k" "am_Command x = w" by force
    then have "j < length (logs cfg)" using assms(5) by force
    with x assms(1) show "\<exists>j < length (logs cfg). (logs cfg ! j) ?k = Some w" unfolding applied_def by blast
  qed
  have "(filter (\<lambda>j. case (logs cfg ! j) ?k of Some old \<Rightarrow> old \<noteq> ?v | None \<Rightarrow> False) [0..<length (logs cfg)] = []) \<longleftrightarrow>
      (\<forall>w. (\<exists>j < length (logs cfg). (logs cfg ! j) ?k = Some w) \<longrightarrow> w = ?v)"
    by (simp add: filter_empty_conv Ball_def split: option.split) blast
  also have "\<dots> \<longleftrightarrow> (\<forall>x \<in> set ms. CommandIndex (snd x) = ?k \<longrightarrow> am_Command (snd x) = ?v)" unfolding old by blast
  also have "\<dots> \<longleftrightarrow> agreeing (ms @ [(i, m)])" using assms(2) by (simp add: agreeing_snoc)
  finally have "(filter (\<lambda>j. case (logs cfg ! j) ?k of Some old \<Rightarrow> old \<noteq> ?v | None \<Rightarrow> False) [0..<length (logs cfg)] = []) \<longleftrightarrow>
      agreeing (ms @ [(i, m)])" .
  moreover have "(logs cfg ! i) (?k - 1) \<noteq> None \<longleftrightarrow> (\<exists>y \<in> set ms. fst y = i \<and> CommandIndex (snd y) = ?k - 1)"
    using applied_some [OF assms(1,3)] by force
  ultimately show ?thesis using assms(4) by (auto simp: applier_def checkLogs_def Let_def)
qed

lemma applier_logs:
  assumes "applier i m cfg = Inr cf'" and "CommandValid m"
  shows "logs cf' = (logs cfg)[i := (logs cfg ! i)(CommandIndex m := Some (am_Command m))]"
  using assms by (auto simp: applier_def checkLogs_def Let_def split: if_splits)

lemma applied_step:
  assumes "applied ms cfg" and "agreeing (ms @ [(i, m)])" and "i < length (logs cfg)" and "CommandValid m"
    and "applier i m cfg = Inr cf'"
  shows "applied (ms @ [(i, m)]) cf'"
  unfolding applied_def
proof (intro allI impI)
  fix j k v assume "j < length (logs cf')"
  then have j: "j < length (logs cfg)" by (simp add: applier_logs [OF assms(5,4)])
  let ?L = "logs cfg ! j"
  have old: "?L k = Some v \<longleftrightarrow> (\<exists>x. (j, x) \<in> set ms \<and> CommandIndex x = k \<and> am_Command x = v)"
    using assms(1) j by (simp add: applied_def)
  have same: "v = am_Command m" if "(j, x) \<in> set ms" "CommandIndex x = CommandIndex m" "am_Command x = v" for x
    using assms(2) that by (force simp: agreeing_snoc)
  have "(logs cf' ! j) k = Some v \<longleftrightarrow>
      (if j = i \<and> k = CommandIndex m then am_Command m = v else ?L k = Some v)"
    using j by (cases "j = i") (simp_all add: applier_logs [OF assms(5,4)])
  then show "(logs cf' ! j) k = Some v \<longleftrightarrow>
      (\<exists>x. (j, x) \<in> set (ms @ [(i, m)]) \<and> CommandIndex x = k \<and> am_Command x = v)"
    using old same by (cases "j = i \<and> k = CommandIndex m") auto
qed

lemma applyAll_iff:
  assumes "applied [] cfg" and "\<forall>x \<in> set ms. fst x < length (logs cfg) \<and> CommandValid (snd x)"
  shows "((\<exists>cf'. applyAll ms cfg = Inr cf') \<longleftrightarrow> agreeing ms \<and> ordered (rev ms)) \<and>
    (\<forall>cf'. applyAll ms cfg = Inr cf' \<longrightarrow> applied ms cf' \<and> length (logs cf') = length (logs cfg))"
  using assms(2)
proof (induction ms rule: rev_induct)
  case Nil
  then show ?case using assms(1) by simp
next
  case (snoc x ms)
  obtain i m where x: "x = (i, m)" by fastforce
  have prefix: "agreeing (ms @ [x]) \<Longrightarrow> agreeing ms" by (simp add: agreeing_snoc)
  show ?case
  proof (cases "applyAll ms cfg")
    case (Inl e)
    then have "\<not> (agreeing ms \<and> ordered (rev ms))" using snoc by auto
    with Inl prefix show ?thesis by (auto simp: applyAll_append)
  next
    case (Inr cf1)
    then have ih: "agreeing ms" "ordered (rev ms)" "applied ms cf1" "length (logs cf1) = length (logs cfg)"
      using snoc by auto
    have e: "applyAll (ms @ [x]) cfg = applier i m cf1" using Inr x by (cases "applier i m cf1") (simp_all add: applyAll_append)
    have i: "i < length (logs cf1)" "CommandValid m" "\<forall>y \<in> set ms. fst y < length (logs cf1)" using snoc.prems ih(4) x by auto
    note iff = applier_ok_iff [OF ih(3,1) i]
    have "applied (ms @ [x]) cf' \<and> length (logs cf') = length (logs cfg)" if r: "applier i m cf1 = Inr cf'" for cf'
      using applied_step [OF ih(3) _ i(1,2) r] iff r applier_logs [OF r i(2)] ih(4) x by auto
    with iff ih(2) x e show ?thesis by auto
  qed
qed

text \<open>
  C31. The readers of the apply channels accept exactly the correct deliveries: starting from empty logs, the test goes
  on after a sequence of messages if and only if any two messages for one index carry the same command and every
  server got the entry before each entry first; then the log kept for each server is what was delivered to it.
\<close>

theorem applier_accepts_agreement:
  assumes "cfg = empty_config n u" and "\<forall>x \<in> set ms. fst x < n \<and> CommandValid (snd x)"
  shows "((\<exists>cf'. applyAll ms cfg = Inr cf') \<longleftrightarrow> agreeing ms \<and> ordered (rev ms)) \<and>
    (\<forall>cf'. applyAll ms cfg = Inr cf' \<longrightarrow>
       (\<forall>i < n. \<forall>k v. (logs cf' ! i) k = Some v \<longleftrightarrow> (\<exists>m. (i, m) \<in> set ms \<and> CommandIndex m = k \<and> am_Command m = v)))"
proof -
  have e: "applied [] cfg" "length (logs cfg) = n" by (simp_all add: applied_def empty_config_def assms(1))
  have "\<forall>x \<in> set ms. fst x < length (logs cfg) \<and> CommandValid (snd x)" using assms(2) e(2) by simp
  from applyAll_iff [OF e(1) this] show ?thesis unfolding e(2) applied_def by fastforce
qed

theorem applier_accepts_agreement_witness:
  "\<exists>cf'. applyAll [(0, \<lparr>CommandValid = True, am_Command = Some 7, CommandIndex = 1\<rparr>),
                  (1, \<lparr>CommandValid = True, am_Command = Some 7, CommandIndex = 1\<rparr>)]
     (empty_config 3 False :: (nat, nat, nat) config) = Inr cf'"
proof -
  let ?m = "\<lparr>CommandValid = True, am_Command = Some (7 :: nat), CommandIndex = 1\<rparr>"
  have "agreeing [(0, ?m), (1, ?m)]" by (auto simp: agreeing_def)
  with applier_accepts_agreement [OF refl, of "[(0, ?m), (1, ?m)]" 3 False, where ?'b = nat and ?'c = nat]
  show ?thesis by simp
qed

section \<open>The network follows the connected servers\<close>

datatype tester_op =
    T_start nat "string list"
  | T_crash nat
  | T_connect nat
  | T_disconnect nat
  | T_unreliable bool
  | T_reorder bool

definition continues :: "'a go \<Rightarrow> 'a option" where
  "continues m = (case m of Inl e \<Rightarrow> None | Inr x \<Rightarrow> Some x)"

text \<open>The operations of a test, with as many names as there are servers; one that fails ends the test.\<close>

definition tester_act :: "('c Raft \<Rightarrow> ('v, 'w) Server) \<Rightarrow> tester_op \<Rightarrow> ('c, 'v, 'w) config \<Rightarrow> ('c, 'v, 'w) config option" where
  "tester_act mkServer opn cfg = (case opn of
     T_start i names \<Rightarrow> if i < cfn cfg \<and> length names = cfn cfg then continues (start1 mkServer i names cfg) else None
   | T_crash i \<Rightarrow> if i < cfn cfg then Some (crash1 i cfg) else None
   | T_connect i \<Rightarrow> if i < cfn cfg then continues (connect i cfg) else None
   | T_disconnect i \<Rightarrow> if i < cfn cfg then Some (disconnect i cfg) else None
   | T_unreliable b \<Rightarrow> Some (setunreliable b cfg)
   | T_reorder b \<Rightarrow> Some (setlongreordering b cfg))"

lemma enableAll_simps [simp]:
  "enabled (enableAll b es rn) e = (if e \<in> set es then b else enabled rn e)"
  "ends (enableAll b es rn) = ends rn" "servers (enableAll b es rn) = servers rn"
  "connections (enableAll b es rn) = connections rn" "heap (enableAll b es rn) = heap rn"
  unfolding enableAll_def by (induction es arbitrary: rn) (auto simp: Enable_def)

lemma makeEnds_spec:
  "makeEnds j es rn = Inr rn' \<Longrightarrow> distinct es \<and> set es \<inter> ends rn = {} \<and> ends rn' = ends rn \<union> set es \<and>
     (\<forall>e. enabled rn' e = (e \<notin> set es \<and> enabled rn e)) \<and> servers rn' = servers rn \<and>
     (\<forall>k < length es. connections rn' (es ! k) = Some (int (j + k))) \<and>
     (\<forall>e. e \<notin> set es \<longrightarrow> connections rn' e = connections rn e)"
proof (induction es arbitrary: j rn)
  case (Cons e es)
  let ?rn = "Connect e (int j) (rn\<lparr>ends := insert e (ends rn), enabled := (enabled rn)(e := False),
    connections := (connections rn)(e := None)\<rparr>)"
  from Cons.prems have e: "e \<notin> ends rn" and m: "makeEnds (Suc j) es ?rn = Inr rn'"
    by (auto simp: MakeEnd_def go_bind_Inr_iff split: if_splits)
  note ih = Cons.IH [OF m]
  have "connections rn' ((e # es) ! k) = Some (int (j + k))" if "k < length (e # es)" for k
    using ih that by (cases k) (auto simp: Connect_def)
  with ih e show ?case by (auto simp: Connect_def)
qed simp

text \<open>Server \<open>i\<close>'s end for server \<open>j\<close>, for servers that exist.\<close>

definition end_of :: "('c, 'v, 'w) config \<Rightarrow> nat \<Rightarrow> nat \<Rightarrow> string \<Rightarrow> bool" where
  "end_of cfg i j e \<longleftrightarrow> i < cfn cfg \<and> j < cfn cfg \<and> endName cfg i j = Some e"

definition names_ok :: "('c, 'v, 'w) config \<Rightarrow> bool" where
  "names_ok cfg \<longleftrightarrow>
     (\<forall>i j e. end_of cfg i j e \<longrightarrow> e \<in> ends (cfnet cfg) \<and> connections (cfnet cfg) e = Some (int j)) \<and>
     (\<forall>i j i' j' e. end_of cfg i j e \<longrightarrow> end_of cfg i' j' e \<longrightarrow> i = i' \<and> j = j')"

lemma names_ok_cong:
  "end_of cf' = end_of cfg \<Longrightarrow> ends (cfnet cf') = ends (cfnet cfg) \<Longrightarrow> connections (cfnet cf') = connections (cfnet cfg) \<Longrightarrow>
   names_ok cf' = names_ok cfg"
  by (simp add: names_ok_def)

definition conn_inv :: "('c, 'v, 'w) config \<Rightarrow> bool" where
  "conn_inv cfg \<longleftrightarrow>
     length (connected cfg) = cfn cfg \<and> length (endnames cfg) = cfn cfg \<and> length (rafts cfg) = cfn cfg \<and>
     (\<forall>i es. i < cfn cfg \<longrightarrow> endnames cfg ! i = Some es \<longrightarrow> length es = cfn cfg) \<and> names_ok cfg \<and>
     (\<forall>e. enabled (cfnet cfg) e \<longleftrightarrow> (\<exists>i j. end_of cfg i j e \<and> connected cfg ! i \<and> connected cfg ! j)) \<and>
     (\<forall>i < cfn cfg. connected cfg ! i \<longrightarrow> endnames cfg ! i \<noteq> None) \<and>
     (\<forall>i < cfn cfg. servers (cfnet cfg) (int i) \<noteq> None \<longleftrightarrow> rafts cfg ! i \<noteq> None)"

lemma disconnect_names:
  assumes "conn_inv cfg" and "i < cfn cfg"
  shows "enabled (cfnet (disconnect i cfg)) e \<longleftrightarrow>
    enabled (cfnet cfg) e \<and> \<not> (\<exists>j k. end_of cfg j k e \<and> (j = i \<or> k = i))"
proof -
  have len: "length es = cfn cfg" if "j < cfn cfg" "endnames cfg ! j = Some es" for j es
    using assms(1) that by (simp add: conn_inv_def)
  have out: "(\<exists>k. end_of cfg i k e) \<longleftrightarrow> e \<in> set (case endnames cfg ! i of None \<Rightarrow> [] | Some es \<Rightarrow> map (\<lambda>j. es ! j) [0..<cfn cfg])"
    using assms(2) len by (cases "endnames cfg ! i") (auto simp: end_of_def endName_def)
  have "e \<in> set (case endnames cfg ! j of None \<Rightarrow> [] | Some es \<Rightarrow> [es ! i]) \<longleftrightarrow> end_of cfg j i e" if "j < cfn cfg" for j
    using assms(2) that len [OF that] by (cases "endnames cfg ! j") (auto simp: end_of_def endName_def)
  then have inc: "(\<exists>j. end_of cfg j i e) \<longleftrightarrow>
      e \<in> set (concat (map (\<lambda>j. case endnames cfg ! j of None \<Rightarrow> [] | Some es \<Rightarrow> [es ! i]) [0..<cfn cfg]))"
    by (auto simp: end_of_def)
  have "enabled (cfnet (disconnect i cfg)) e \<longleftrightarrow>
      enabled (cfnet cfg) e \<and> \<not> ((\<exists>k. end_of cfg i k e) \<or> (\<exists>j. end_of cfg j i e))"
    unfolding out inc by (simp add: disconnect_def Let_def)
  then show ?thesis by auto
qed

lemma disconnect_simps [simp]:
  "endnames (disconnect i cfg) = endnames cfg" "cfn (disconnect i cfg) = cfn cfg" "rafts (disconnect i cfg) = rafts cfg"
  "connected (disconnect i cfg) = (connected cfg)[i := False]" "saved (disconnect i cfg) = saved cfg"
  "ends (cfnet (disconnect i cfg)) = ends (cfnet cfg)" "servers (cfnet (disconnect i cfg)) = servers (cfnet cfg)"
  "connections (cfnet (disconnect i cfg)) = connections (cfnet cfg)" "end_of (disconnect i cfg) = end_of cfg"
  by (auto simp: disconnect_def Let_def end_of_def endName_def fun_eq_iff)

lemma disconnect_inv:
  assumes "conn_inv cfg" and "i < cfn cfg"
  shows "conn_inv (disconnect i cfg)"
proof -
  have "enabled (cfnet (disconnect i cfg)) e \<longleftrightarrow>
      (\<exists>j k. end_of cfg j k e \<and> (connected cfg)[i := False] ! j \<and> (connected cfg)[i := False] ! k)" for e
  proof -
    have "enabled (cfnet cfg) e \<longleftrightarrow> (\<exists>j k. end_of cfg j k e \<and> connected cfg ! j \<and> connected cfg ! k)"
      using assms(1) by (simp add: conn_inv_def)
    moreover have "(connected cfg)[i := False] ! j \<longleftrightarrow> connected cfg ! j \<and> j \<noteq> i" for j
      using assms by (cases "j = i") (auto simp: conn_inv_def)
    moreover have "end_of cfg j k e \<Longrightarrow> end_of cfg j' k' e \<Longrightarrow> j = j' \<and> k = k'" for j k j' k'
      using assms(1) unfolding conn_inv_def names_ok_def by blast
    ultimately show ?thesis unfolding disconnect_names [OF assms] by metis
  qed
  moreover have "names_ok (disconnect i cfg) = names_ok cfg" by (rule names_ok_cong) simp_all
  ultimately show ?thesis using assms by (auto simp: conn_inv_def nth_list_update)
qed

lemma crash1_simps [simp]:
  "endnames (crash1 i cfg) = endnames cfg" "cfn (crash1 i cfg) = cfn cfg" "rafts (crash1 i cfg) = (rafts cfg)[i := None]"
  "connected (crash1 i cfg) = (connected cfg)[i := False]"
  "cfnet (crash1 i cfg) = DeleteServer (int i) (cfnet (disconnect i cfg))" "end_of (crash1 i cfg) = end_of cfg"
  by (auto simp: crash1_def Let_def end_of_def endName_def fun_eq_iff split: option.splits)

lemma crash1_inv:
  assumes "conn_inv cfg" and "i < cfn cfg"
  shows "conn_inv (crash1 i cfg)"
proof -
  have "names_ok (crash1 i cfg) = names_ok (disconnect i cfg)" by (rule names_ok_cong) (simp_all add: DeleteServer_def)
  with disconnect_inv [OF assms] assms(2) show ?thesis
    by (auto simp: conn_inv_def DeleteServer_def nth_list_update)
qed

lemma those_Some_iff: "those xs = Some ys \<longleftrightarrow> xs = map Some ys"
  by (induction xs arbitrary: ys) (auto split: option.splits simp: Cons_eq_map_conv)

lemma connect_names:
  assumes "connect i cfg = Inr cf'"
  shows "\<exists>es. cf' = cfg\<lparr>connected := (connected cfg)[i := True], cfnet := enableAll True es (cfnet cfg)\<rparr> \<and>
    Some ` set es = (\<Union>j \<in> {j. j < cfn cfg \<and> (connected cfg)[i := True] ! j}. {endName cfg i j, endName cfg j i})"
proof -
  let ?js = "filter (\<lambda>j. (connected cfg)[i := True] ! j) [0..<cfn cfg]"
  obtain es where es: "those (map (endName cfg i) ?js @ map (\<lambda>j. endName cfg j i) ?js) = Some es"
      "cf' = cfg\<lparr>connected := (connected cfg)[i := True], cfnet := enableAll True es (cfnet cfg)\<rparr>"
    using assms by (auto simp: connect_def Let_def split: option.splits)
  then have m: "map Some es = map (endName cfg i) ?js @ map (\<lambda>j. endName cfg j i) ?js"
    by (simp only: those_Some_iff)
  have "Some ` set es = set (map Some es)" by simp
  also have "\<dots> = (\<Union>j \<in> {j. j < cfn cfg \<and> (connected cfg)[i := True] ! j}. {endName cfg i j, endName cfg j i})"
    unfolding m by auto
  finally show ?thesis using es(2) by blast
qed

lemma connect_inv:
  assumes "conn_inv cfg" and "i < cfn cfg" and "connect i cfg = Inr cf'"
  shows "conn_inv cf'"
proof -
  let ?C = "(connected cfg)[i := True]"
  from connect_names [OF assms(3)] obtain es where
    cf': "cf' = cfg\<lparr>connected := ?C, cfnet := enableAll True es (cfnet cfg)\<rparr>" and
    es: "Some ` set es = (\<Union>j \<in> {j. j < cfn cfg \<and> ?C ! j}. {endName cfg i j, endName cfg j i})" by blast
  have eo: "end_of cf' = end_of cfg" by (auto simp: cf' end_of_def endName_def fun_eq_iff)
  have C: "?C ! j \<longleftrightarrow> connected cfg ! j \<or> j = i" if "j < cfn cfg" for j
    using assms(1,2) that by (cases "j = i") (auto simp: conn_inv_def)
  have on: "e \<in> set es \<longleftrightarrow> (\<exists>j. ?C ! j \<and> (end_of cfg i j e \<or> end_of cfg j i e))" for e
  proof -
    have "e \<in> set es \<longleftrightarrow> Some e \<in> Some ` set es" by auto
    also have "\<dots> \<longleftrightarrow> (\<exists>j < cfn cfg. ?C ! j \<and> (endName cfg i j = Some e \<or> endName cfg j i = Some e))"
      unfolding es by auto
    finally show ?thesis using assms(2) by (auto simp: end_of_def)
  qed
  have "enabled (cfnet cf') e \<longleftrightarrow> (\<exists>j k. end_of cfg j k e \<and> ?C ! j \<and> ?C ! k)" for e
  proof -
    have "enabled (cfnet cfg) e \<longleftrightarrow> (\<exists>j k. end_of cfg j k e \<and> connected cfg ! j \<and> connected cfg ! k)"
      using assms(1) by (simp add: conn_inv_def)
    then have "enabled (cfnet cf') e \<longleftrightarrow> (\<exists>j. ?C ! j \<and> (end_of cfg i j e \<or> end_of cfg j i e)) \<or>
        (\<exists>j k. end_of cfg j k e \<and> connected cfg ! j \<and> connected cfg ! k)"
      by (simp add: cf' on) blast
    moreover have Ci: "?C ! i" using C assms(2) by simp
    moreover have Cjk: "?C ! j \<longleftrightarrow> connected cfg ! j \<or> j = i" "?C ! k \<longleftrightarrow> connected cfg ! k \<or> k = i" if "end_of cfg j k e" for j k
      using C that by (simp_all add: end_of_def)
    have "(\<exists>j. ?C ! j \<and> (end_of cfg i j e \<or> end_of cfg j i e))" if "end_of cfg j k e" "?C ! j" "?C ! k" "\<not> (connected cfg ! j \<and> connected cfg ! k)" for j k
      using that Cjk [OF that(1)] by blast
    ultimately show ?thesis using Cjk Ci by blast
  qed
  moreover have "endnames cfg ! i \<noteq> None"
  proof -
    have "endName cfg i i \<in> Some ` set es" using es assms(2) C by auto
    then show ?thesis by (auto simp: endName_def split: option.splits)
  qed
  moreover have "names_ok cf' = names_ok cfg" by (rule names_ok_cong) (simp_all only: eo, simp_all add: cf')
  ultimately show ?thesis using assms(1) C unfolding conn_inv_def eo by (simp add: cf')
qed

lemma start1_inv:
  assumes "conn_inv cfg" and "i < cfn cfg" and "length names = cfn cfg" and "start1 mkServer i names cfg = Inr cf'"
  shows "conn_inv cf'"
proof -
  let ?cf = "crash1 i cfg"
  have inv: "conn_inv ?cf" by (rule crash1_inv [OF assms(1,2)])
  from assms(4) obtain rn where rn: "makeEnds 0 names (cfnet ?cf) = Inr rn"
    by (auto simp: start1_def Let_def go_bind_Inr_iff)
  note me = makeEnds_spec [OF this]
  from assms(4) rn obtain rf a where cf': "cfn cf' = cfn cfg" "connected cf' = connected ?cf" "endnames cf' = (endnames cfg)[i := Some names]"
      "rafts cf' = (rafts ?cf)[i := Some rf]" "ends (cfnet cf') = ends rn" "enabled (cfnet cf') = enabled rn"
      "connections (cfnet cf') = connections rn" "servers (cfnet cf') = (servers rn)(int i := Some a)"
    by (auto simp: start1_def Let_def AddServer_def)
  have len: "length (endnames cfg) = cfn cfg" using assms(1) by (simp add: conn_inv_def)
  have eo: "end_of cf' j k e \<longleftrightarrow> (if j = i then k < cfn cfg \<and> names ! k = e else end_of ?cf j k e)" for j k e
    using assms(2,3) len by (auto simp: end_of_def endName_def cf')
  have nm: "names_ok ?cf" using inv by (simp add: conn_inv_def)
  have old: "end_of ?cf j k e \<Longrightarrow> e \<in> ends (cfnet ?cf) \<and> connections (cfnet ?cf) e = Some (int k)" for j k e
    using nm unfolding names_ok_def by blast
  have notc: "\<not> connected ?cf ! i" using assms(1,2) by (simp add: conn_inv_def)
  have fresh: "e \<notin> set names" if "end_of ?cf j k e" for j k e using old [OF that] me by auto
  have "enabled rn e \<longleftrightarrow> (\<exists>j k. end_of cf' j k e \<and> connected ?cf ! j \<and> connected ?cf ! k)" for e
  proof -
    have "enabled (cfnet ?cf) e \<longleftrightarrow> (\<exists>j k. end_of ?cf j k e \<and> connected ?cf ! j \<and> connected ?cf ! k)"
      using inv by (simp add: conn_inv_def)
    with me fresh notc show ?thesis unfolding eo by metis
  qed
  moreover have "e \<in> ends rn \<and> connections rn e = Some (int k)" if "end_of cf' j k e" for j k e
  proof (cases "j = i")
    case True
    then have "k < length names" "names ! k = e" using that assms(3) by (simp_all add: eo)
    with me show ?thesis by auto
  next
    case False
    then have "end_of ?cf j k e" using that by (simp add: eo)
    with me fresh [OF this] old [OF this] show ?thesis by auto
  qed
  moreover have "j = j' \<and> k = k'" if 1: "end_of cf' j k e" and 2: "end_of cf' j' k' e" for j k j' k' e
  proof -
    have n: "e \<in> set names \<longleftrightarrow> a = i" if "end_of cf' a b e" for a b
      using that fresh assms(3) by (auto simp: eo split: if_splits)
    show ?thesis
    proof (cases "e \<in> set names")
      case True
      then have "j = i" "j' = i" using n [OF 1] n [OF 2] by auto
      with 1 2 me assms(3) show ?thesis by (auto simp: eo nth_eq_iff_index_eq)
    next
      case False
      then have "end_of ?cf j k e" "end_of ?cf j' k' e" using 1 2 n [OF 1] n [OF 2] by (simp_all add: eo)
      with nm show ?thesis unfolding names_ok_def by blast
    qed
  qed
  ultimately have nm': "names_ok cf'" and en: "\<And>e. enabled rn e \<longleftrightarrow> (\<exists>j k. end_of cf' j k e \<and> connected ?cf ! j \<and> connected ?cf ! k)"
    unfolding names_ok_def cf' by blast+
  have "servers rn (int j) \<noteq> None \<longleftrightarrow> rafts ?cf ! j \<noteq> None" if "j < cfn cfg" for j
    using inv me that by (simp add: conn_inv_def)
  with nm' en show ?thesis
    using inv assms(2,3) unfolding conn_inv_def cf' by (auto simp: nth_list_update)
qed

lemma empty_config_inv:
  assumes "cfg = empty_config n u"
  shows "conn_inv cfg"
proof -
  have "\<not> end_of cfg i j e" for i j e
    by (auto simp: end_of_def endName_def assms empty_config_def)
  then have "names_ok cfg" "\<And>e. \<not> (\<exists>i j. end_of cfg i j e \<and> connected cfg ! i \<and> connected cfg ! j)"
    by (simp_all add: names_ok_def)
  then show ?thesis
    by (simp add: conn_inv_def) (simp add: assms empty_config_def MakeNetwork_def Reliable_def LongDelays_def)
qed

lemma tester_act_inv:
  assumes "tester_act mk a cfg = Some cf'" and "conn_inv cfg"
  shows "conn_inv cf'"
proof -
  have same: "conn_inv (cfg\<lparr>cfnet := rn\<rparr>)" if "ends rn = ends (cfnet cfg)" "connections rn = connections (cfnet cfg)"
      "enabled rn = enabled (cfnet cfg)" "servers rn = servers (cfnet cfg)" for rn
  proof -
    have eo: "end_of (cfg\<lparr>cfnet := rn\<rparr>) = end_of cfg" by (auto simp: end_of_def endName_def fun_eq_iff)
    have "names_ok (cfg\<lparr>cfnet := rn\<rparr>) = names_ok cfg" by (rule names_ok_cong) (simp_all add: eo that)
    with assms(2) show ?thesis unfolding conn_inv_def eo by (simp add: that)
  qed
  show ?thesis
    using assms
    by (cases a)
      (auto simp: tester_act_def continues_def setunreliable_def setlongreordering_def Reliable_def LongReordering_def
        intro: start1_inv connect_inv crash1_inv disconnect_inv same split: if_splits sum.splits)
qed

interpretation conn: machine_invariant "\<lambda>cfg. cfg = empty_config n u" "tester_act mk" conn_inv for n u mk
  by unfold_locales (auto intro: empty_config_inv tester_act_inv)

text \<open>
  C27. Partitions are what the tester asked for.  After any sequence of starts, crashes, connects and disconnects, a client end
  lets calls through exactly when it is the current end of one connected server for another (or itself), so the ends of
  an instance that was replaced stay cut off; the end of server i for server j leads to server j; and a server is
  registered with the network exactly when an instance of it is running.
\<close>

theorem tester_partition:
  assumes "reach (\<lambda>cfg. cfg = empty_config n u) (act_step (tester_act mk)) cfg"
  shows "(\<forall>e. enabled (cfnet cfg) e \<longleftrightarrow> (\<exists>i j. end_of cfg i j e \<and> connected cfg ! i \<and> connected cfg ! j)) \<and>
    (\<forall>i j e. end_of cfg i j e \<longrightarrow> connections (cfnet cfg) e = Some (int j)) \<and>
    (\<forall>i < cfn cfg. servers (cfnet cfg) (int i) \<noteq> None \<longleftrightarrow> rafts cfg ! i \<noteq> None)"
proof -
  have inv: "conn_inv cfg" using assms by (rule conn.reach_inv)
  then have "names_ok cfg" by (simp add: conn_inv_def)
  then have "connections (cfnet cfg) e = Some (int j)" if "end_of cfg i j e" for i j e
    using that unfolding names_ok_def by blast
  with inv show ?thesis by (simp add: conn_inv_def)
qed

definition two_servers :: "tester_op list" where
  "two_servers = [T_start 0 [''aa'', ''ab''], T_start 1 [''ba'', ''bb''], T_connect 0, T_connect 1, T_crash 0]"

theorem tester_partition_witness:
  "\<exists>cfg. run (tester_act (\<lambda>_. MakeServer)) two_servers (empty_config 2 False :: (nat, nat, nat) config) = Some cfg \<and>
     enabled (cfnet cfg) ''bb'' \<and> \<not> enabled (cfnet cfg) ''ab'' \<and> connections (cfnet cfg) ''ba'' = Some 0"
proof -
  have "map_option (\<lambda>c. (cfn c, connected c, endnames c))
      (run (tester_act (\<lambda>_. MakeServer)) two_servers (empty_config 2 False :: (nat, nat, nat) config)) =
      Some (2, [False, True], [Some [''aa'', ''ab''], Some [''ba'', ''bb'']])"
    unfolding two_servers_def by code_simp
  then obtain cfg where r: "run (tester_act (\<lambda>_. MakeServer)) two_servers (empty_config 2 False :: (nat, nat, nat) config) = Some cfg"
    and c: "cfn cfg = 2" "connected cfg = [False, True]" "endnames cfg = [Some [''aa'', ''ab''], Some [''ba'', ''bb'']]" by auto
  note T = tester_partition [OF run_from [OF r]]
  have e: "end_of cfg 1 1 ''bb''" "end_of cfg 1 0 ''ba''" by (simp_all add: end_of_def endName_def c)
  have "\<not> (end_of cfg i j ''ab'' \<and> connected cfg ! i \<and> connected cfg ! j)" for i j
    using less_2_cases [of i] less_2_cases [of j] by (auto simp: end_of_def endName_def c)
  then have "\<not> enabled (cfnet cfg) ''ab''" using T by blast
  moreover have "enabled (cfnet cfg) ''bb''" using T e(1) by (force simp: c)
  moreover have "connections (cfnet cfg) ''ba'' = Some 0" using T e(2) by fastforce
  ultimately show ?thesis using r by blast
qed

section \<open>\<open>checkOneLeader\<close> on a cluster\<close>

text \<open>One look at the servers in turn, while the cluster goes on: server \<open>i\<close> is asked in state \<open>cs i\<close>.\<close>

definition sampled :: "nat \<Rightarrow> (nat \<Rightarrow> 'c cluster) \<Rightarrow> bool" where
  "sampled n cs \<longleftrightarrow> reach (\<lambda>c. c = cluster_init n) (act_step timely_act) (cs 0) \<and>
     (\<forall>i. (act_step timely_act)\<^sup>*\<^sup>* (cs i) (cs (Suc i)))"

lemma sampled_le: "sampled n cs \<Longrightarrow> i \<le> j \<Longrightarrow> (act_step timely_act)\<^sup>*\<^sup>* (cs i) (cs j)"
  by (induction j) (auto simp: sampled_def le_Suc_eq intro: rtranclp_trans)

lemma sampled_reach: "sampled n cs \<Longrightarrow> reach (\<lambda>c. c = cluster_init n) (act_step timely_act) (cs i)"
  using sampled_le [of n cs 0 i] by (auto simp: sampled_def intro: reach_steps)

definition size_inv :: "nat \<Rightarrow> 'c cluster \<Rightarrow> bool" where
  "size_inv n c \<longleftrightarrow> length (nodes c) = n"

interpretation csize: machine_invariant "\<lambda>c. c = cluster_init n" timely_act "size_inv n" for n
proof unfold_locales
  show "c = cluster_init n \<Longrightarrow> size_inv n c" for c by (simp add: size_inv_def cluster_init_def)
  show "timely_act a s = Some t \<Longrightarrow> size_inv n s \<Longrightarrow> size_inv n t" for a s t
    using timely_terms [of a s t] by (simp add: size_inv_def terms_le_def)
qed

definition sample :: "(nat \<Rightarrow> 'c cluster) \<Rightarrow> nat \<Rightarrow> 'c Raft option" where
  "sample cs i = Some (nodes (cs i) ! i)"

lemma leadersOf_sample:
  "leadersOf conn (sample cs) n = Inr (map (\<lambda>i. (currentTerm (nodes (cs i) ! i), i))
     (filter (\<lambda>i. conn ! i \<and> state (nodes (cs i) ! i) = LEADER) [0..<n]))"
proof -
  have "concat (map (\<lambda>i. if conn ! i then (case GetState (the (sample cs i)) of (term, leader) \<Rightarrow> if leader then [(term, i)] else []) else []) is) =
    map (\<lambda>i. (currentTerm (nodes (cs i) ! i), i)) (filter (\<lambda>i. conn ! i \<and> state (nodes (cs i) ! i) = LEADER) is)" for "is"
    by (induction "is") (auto simp: sample_def GetState_def)
  then show ?thesis by (simp add: leadersOf_def sample_def)
qed

text \<open>
  C25. The leader check of the tester never reports two leaders of a term on a cluster that runs without restarts and with timely
  vote solicitation, although it asks the servers one after the other while they go on; it finds a leader exactly when
  some connected server says it is one, and then it is one with the highest term among them.
\<close>

theorem checkOneLeader_passes:
  assumes "sampled n cs"
  shows "\<exists>r. oneLeader conn (sample cs) n = Inr r \<and>
    (r = None \<longleftrightarrow> \<not> (\<exists>i < n. conn ! i \<and> state (nodes (cs i) ! i) = LEADER)) \<and>
    (\<forall>i. r = Some i \<longrightarrow> i < n \<and> conn ! i \<and> state (nodes (cs i) ! i) = LEADER \<and>
       (\<forall>j < n. conn ! j \<and> state (nodes (cs j) ! j) = LEADER \<longrightarrow> currentTerm (nodes (cs j) ! j) \<le> currentTerm (nodes (cs i) ! i)))"
proof -
  define ls where "ls = filter (\<lambda>i. conn ! i \<and> state (nodes (cs i) ! i) = LEADER) [0..<n]"
  let ?t = "\<lambda>i. currentTerm (nodes (cs i) ! i)"
  have len: "length (nodes (cs i)) = n" for i
    using csize.reach_inv [OF sampled_reach [OF assms, of i]] by (simp add: size_inv_def)
  have le: "i = j" if "i \<le> j" "i \<in> set ls" "j \<in> set ls" "?t i = ?t j" for i j
    using elected_once [OF sampled_reach [OF assms] sampled_le [OF assms that(1)], of i j] that len
    by (auto simp: ls_def)
  have "inj_on ?t (set ls)"
    using le by (auto intro!: inj_onI) (metis nat_le_linear)
  then have d: "distinct (map fst (map (\<lambda>i. (?t i, i)) ls))" by (simp add: distinct_map ls_def o_def)
  have nn: "0 \<le> ?t i" if "i \<in> set ls" for i
    using nonneg.reach_inv [OF sampled_reach [OF assms, of i]] that len by (auto simp: terms_nonneg_def ls_def)
  show ?thesis
  proof (cases "ls = []")
    case True
    then show ?thesis by (auto simp: oneLeader_def leadersOf_sample ls_def [symmetric]) (auto simp: ls_def filter_empty_conv)
  next
    case False
    let ?m = "Max (insert (-1) (?t ` set ls))"
    have "?m \<in> insert (-1) (?t ` set ls)" by (rule Max_in) simp_all
    moreover have "?m \<noteq> -1" using False nn Max_ge [of "insert (-1) (?t ` set ls)"] by (cases ls) force+
    ultimately obtain i where i: "i \<in> set ls" "?t i = ?m" by auto
    let ?f = "filter (\<lambda>x. fst x = ?m) (map (\<lambda>i. (?t i, i)) ls)"
    have "?f \<noteq> []" using i by (auto simp: filter_empty_conv)
    then obtain y ys where y: "?f = y # ys" by (cases ?f) auto
    then have "y \<in> set ?f" by simp
    then have y': "snd y \<in> set ls" "?t (snd y) = ?m" by auto
    have img: "fst ` set (map (\<lambda>i. (?t i, i)) ls) = ?t ` set ls" by force
    have "oneLeader conn (sample cs) n = Inr (Some (snd y))"
      unfolding oneLeader_def leadersOf_sample ls_def [symmetric] go_bind_simps Let_def img
      using d False y by (simp add: index_def)
    moreover have "?t j \<le> ?t (snd y)" if "j \<in> set ls" for j unfolding y'(2) using that by simp
    ultimately show ?thesis using y'(1) by (auto simp: ls_def)
  qed
qed

theorem checkOneLeader_passes_witness:
  "\<exists>c. run timely_act win_run (cluster_init 3) = Some c \<and> oneLeader [True, True, True] (sample (\<lambda>_. c)) 3 = Inr (Some 0)"
proof -
  from win_run_states obtain c where c: "run timely_act win_run (cluster_init 3) = Some c"
      "map state (nodes c) = [LEADER, FOLLOWER, FOLLOWER]" by auto
  have "sampled 3 (\<lambda>_. c)" using run_from [OF c(1)] by (simp add: sampled_def)
  from checkOneLeader_passes [OF this, of "[True, True, True]"] obtain r where
    r: "oneLeader [True, True, True] (sample (\<lambda>_. c)) 3 = Inr r"
      "r = None \<longleftrightarrow> \<not> (\<exists>i < 3. [True, True, True] ! i \<and> state (nodes c ! i) = LEADER)"
      "\<forall>i. r = Some i \<longrightarrow> i < 3 \<and> state (nodes c ! i) = LEADER" by blast
  have "length (map state (nodes c)) = 3" unfolding c(2) by simp
  then have "length (nodes c) = 3" by simp
  then have st: "state (nodes c ! i) = [LEADER, FOLLOWER, FOLLOWER] ! i" if "i < 3" for i
    using nth_map [of i "nodes c" state] that c(2) by simp
  then have "r \<noteq> None" using r(2) by force
  then obtain i where i: "r = Some i" by auto
  with r(3) st have "i < 3" "[LEADER, FOLLOWER, FOLLOWER] ! i = LEADER" by auto
  then have "i = 0" by (auto simp: less_Suc_eq numeral_3_eq_3)
  with r(1) i c(1) show ?thesis by blast
qed

section \<open>Counting and agreement\<close>

lemma countCommitted_agree:
  assumes "\<And>l v. l \<in> set ls \<Longrightarrow> l k = Some v \<Longrightarrow> v = w" and "0 < cnt \<Longrightarrow> cmd = w"
  shows "\<exists>cmd'. countCommitted k ls cnt cmd = Inr (cnt + length (filter (\<lambda>l. l k \<noteq> None) ls), cmd') \<and>
    (0 < cnt + length (filter (\<lambda>l. l k \<noteq> None) ls) \<longrightarrow> cmd' = w)"
  using assms
proof (induction ls arbitrary: cnt cmd)
  case (Cons l ls)
  show ?case
  proof (cases "l k")
    case None
    have "\<exists>cmd'. countCommitted k ls cnt cmd = Inr (cnt + length (filter (\<lambda>l. l k \<noteq> None) ls), cmd') \<and>
        (0 < cnt + length (filter (\<lambda>l. l k \<noteq> None) ls) \<longrightarrow> cmd' = w)"
      by (rule Cons.IH) (use Cons.prems in auto)
    with None show ?thesis by simp
  next
    case (Some v)
    have v: "v = w" using Cons.prems(1) [of l v] Some by simp
    have "\<exists>cmd'. countCommitted k ls (Suc cnt) w = Inr (Suc cnt + length (filter (\<lambda>l. l k \<noteq> None) ls), cmd') \<and>
        (0 < Suc cnt + length (filter (\<lambda>l. l k \<noteq> None) ls) \<longrightarrow> cmd' = w)"
      by (rule Cons.IH) (use Cons.prems in auto)
    with Some v Cons.prems(2) show ?thesis by auto
  qed
qed simp

lemma one_sound:
  "one cmd expected retry starts rounds = Inr k \<Longrightarrow>
   \<exists>cfg looks lk nd. (cfg, looks) \<in> set rounds \<and> lk \<in> set looks \<and> nCommitted k lk = Inr (nd, Some cmd) \<and> 0 < nd \<and> expected \<le> nd"
proof (induction rounds arbitrary: starts)
  case (Cons x rounds)
  obtain cfg looks where x: "x = (cfg, looks)" by fastforce
  have poll: "\<exists>lk nd. lk \<in> set looks \<and> nCommitted i lk = Inr (nd, Some cmd) \<and> 0 < nd \<and> expected \<le> nd"
    if "pollCommitted cmd expected i looks = Inr True" for i
    using that by (induction looks) (auto simp: go_bind_Inr_iff split: if_splits)
  obtain cf s r where t: "tryStart cmd (cfn cfg) starts cfg = Inr (cf, s, r)"
    using Cons.prems x by (auto simp: go_bind_Inr_iff)
  then have "one cmd expected retry s rounds = Inr k \<or> pollCommitted cmd expected k looks = Inr True"
    using Cons.prems x by (auto simp: go_bind_Inr_iff split: option.splits if_splits)
  then show ?case
  proof
    assume "one cmd expected retry s rounds = Inr k"
    from Cons.IH [OF this] show ?thesis by (metis list.set_intros(2))
  next
    assume "pollCommitted cmd expected k looks = Inr True"
    from poll [OF this] show ?thesis unfolding x by (metis list.set_intros(1))
  qed
qed simp

end
