(* ===== verification/RaftStack.thy ===== *)
theory RaftStack
  imports RaftSafety TesterConfig
begin

text \<open>
  Raft (\<^verbatim>\<open>lab3/raft/raft.go\<close>) on top of the network of \<^verbatim>\<open>lab3/labrpc/labrpc.go\<close>, as the harness of
  \<^verbatim>\<open>lab3/raft/config.go\<close> puts them together.  The state of the program that the handlers of \<open>labrpc\<close> work on is the list of peers; a peer is
  registered as the service \<open>Raft\<close>; \<open>sendRequestVote\<close> and \<open>sendAppendEntries\<close> are goroutines that make a \<open>Call\<close>, wait for it to return
  and then run their second half under the lock of the peer.  Every step of \<open>Call\<close>, \<open>processReq\<close> and of the handler goroutine is a step
  of this machine, as are the changes a test makes to the network.

  The machine implements the cluster of \<open>RaftCluster\<close>, in which a message is either in flight or not: the packets of the cluster
  are a function of where the calls are.
\<close>

section \<open>Peers as servers\<close>

text \<open>What is encoded and decoded: the arguments and replies of the two calls.\<close>

datatype 'c wire =
    VoteArgs RequestVoteArgs
  | VoteReply RequestVoteReply
  | AppendArgs "'c AppendEntriesArgs"
  | AppendReply AppendEntriesResults

text \<open>What the code relies on of \<open>encoding/gob\<close>: these values can be encoded, and decoding into a new variable of their type
  gives them back.  A new reply is the zero value of its struct.\<close>

definition gob_ok :: "'c wire codec \<Rightarrow> bool" where
  "gob_ok cd \<longleftrightarrow>
     (\<forall>v. \<exists>bs. encode cd v = Some bs \<and> decode cd bs (New cd (TypeOf cd v)) = Some v) \<and>
     (\<forall>r. TypeOf cd (VoteReply r) = ''RequestVoteReply'') \<and>
     (\<forall>r. TypeOf cd (AppendReply r) = ''AppendEntriesResults'') \<and>
     New cd ''RequestVoteReply'' = VoteReply \<lparr>rvr_Term = 0, VoteGranted = False\<rparr> \<and>
     New cd ''AppendEntriesResults'' = AppendReply \<lparr>aer_Term = 0, Success = False, NextTryIdx = 0\<rparr>"

text \<open>The exported methods of \<open>*Raft\<close> in the order of reflection.  Calling a method with an argument of another type panics; so does
  calling one that is not a handler, which \<open>MakeService\<close> leaves out.\<close>

definition notHandler :: "'v \<Rightarrow> 'v \<Rightarrow> 'w \<Rightarrow> ('w \<times> 'v) go" where
  "notHandler a r w = Inl ExplicitPanic"

definition callAppendEntries :: "nat \<Rightarrow> 'c wire \<Rightarrow> 'c wire \<Rightarrow> 'c Raft list \<Rightarrow> ('c Raft list \<times> 'c wire) go" where
  "callAppendEntries j a r w = (case a of
     AppendArgs x \<Rightarrow> go_bind (AppendEntries x (w ! j)) (\<lambda>(rf, r). Inr (w[j := rf], AppendReply r))
   | _ \<Rightarrow> Inl ExplicitPanic)"

definition callRequestVote :: "nat \<Rightarrow> 'c wire \<Rightarrow> 'c wire \<Rightarrow> 'c Raft list \<Rightarrow> ('c Raft list \<times> 'c wire) go" where
  "callRequestVote j a r w = (case a of
     VoteArgs x \<Rightarrow> go_bind (RequestVote x (w ! j)) (\<lambda>(rf, r). Inr (w[j := rf], VoteReply r))
   | _ \<Rightarrow> Inl ExplicitPanic)"

definition raftMethods :: "nat \<Rightarrow> ('c wire, 'c Raft list) Method list" where
  "raftMethods j =
     [\<lparr>mName = ''AppendEntries'', PkgPath = [], NumIn = 3, In2IsPtr = True, In2Elem = ''AppendEntriesResults'', NumOut = 0,
       Func = callAppendEntries j\<rparr>,
      \<lparr>mName = ''GetState'', PkgPath = [], NumIn = 1, In2IsPtr = False, In2Elem = [], NumOut = 2, Func = notHandler\<rparr>,
      \<lparr>mName = ''Kill'', PkgPath = [], NumIn = 1, In2IsPtr = False, In2Elem = [], NumOut = 0, Func = notHandler\<rparr>,
      \<lparr>mName = ''RequestVote'', PkgPath = [], NumIn = 3, In2IsPtr = True, In2Elem = ''RequestVoteReply'', NumOut = 0,
       Func = callRequestVote j\<rparr>,
      \<lparr>mName = ''Start'', PkgPath = [], NumIn = 2, In2IsPtr = False, In2Elem = [], NumOut = 3, Func = notHandler\<rparr>]"

text \<open>What \<open>start1\<close> registers for a peer.\<close>

definition raftServer :: "nat \<Rightarrow> ('c wire, 'c Raft list) Server" where
  "raftServer j = AddService (MakeService ''Raft'' (raftMethods j)) MakeServer"

definition serverOf :: "'c Raft \<Rightarrow> ('c wire, 'c Raft list) Server" where
  "serverOf rf = raftServer (me rf)"

section \<open>The machine\<close>

text \<open>A goroutine of \<open>sendRequestVote\<close> or \<open>sendAppendEntries\<close>: the request it sends, kept as the packet of the cluster that stands for it, and
  whether it has returned.  The caller at some position of the list waits for the call at that position.\<close>

record 'c stack =
  rpc :: "('c wire, 'c Raft list) rpc_state"
  callers :: "('c packet \<times> bool) list"

abbreviation peers :: "'c stack \<Rightarrow> 'c Raft list" where
  "peers st \<equiv> world (rpc st)"

definition setPeer :: "nat \<Rightarrow> 'c Raft \<Rightarrow> 'c stack \<Rightarrow> 'c stack" where
  "setPeer i rf st = st\<lparr>rpc := (rpc st)\<lparr>world := (peers st)[i := rf]\<rparr>\<rparr>"

definition concludes :: "'c stack \<Rightarrow> 'a go \<Rightarrow> ('a \<Rightarrow> 'c stack option) \<Rightarrow> 'c stack option" where
  "concludes st m f = (case m of
     Inr x \<Rightarrow> f x
   | Inl e \<Rightarrow> if e = Blocked then None else Some (st\<lparr>rpc := (rpc st)\<lparr>crashed := Some e\<rparr>\<rparr>))"

fun methOf :: "'c packet \<Rightarrow> string" where
  "methOf (VoteReq i j a) = ''Raft.RequestVote''"
| "methOf (AppReq i j a) = ''Raft.AppendEntries''"
| "methOf p = []"

fun argOf :: "'c packet \<Rightarrow> 'c wire" where
  "argOf (VoteReq i j a) = VoteArgs a"
| "argOf (VoteRep i j a r) = VoteArgs a"
| "argOf (AppReq i j a) = AppendArgs a"
| "argOf (AppRep i j a r) = AppendArgs a"

fun replyType :: "'c packet \<Rightarrow> string" where
  "replyType (VoteReq i j a) = ''RequestVoteReply''"
| "replyType (VoteRep i j a r) = ''RequestVoteReply''"
| "replyType (AppReq i j a) = ''AppendEntriesResults''"
| "replyType (AppRep i j a r) = ''AppendEntriesResults''"

text \<open>\<open>rf.peers[server].Call(...)\<close>: the end of peer \<open>i\<close> for peer \<open>j\<close> is \<open>endOf i j\<close>.\<close>

fun issue :: "'c wire codec \<Rightarrow> (nat \<Rightarrow> nat \<Rightarrow> string) \<Rightarrow> 'c packet list \<Rightarrow> 'c stack \<Rightarrow> 'c stack option" where
  "issue cd endOf [] st = Some st"
| "issue cd endOf (p # ps) st =
     (case rpc_act cd (Call (endOf (client p) (server p)) (methOf p) (argOf p) (New cd (replyType p))) (rpc st) of
        None \<Rightarrow> None
      | Some s \<Rightarrow> issue cd endOf ps (st\<lparr>rpc := s, callers := callers st @ [(p, False)]\<rparr>))"

text \<open>The sections of a peer that send nothing.\<close>

definition localStep :: "'c cact \<Rightarrow> 'c stack \<Rightarrow> 'c stack option" where
  "localStep a st =
     (let put = (\<lambda>i rf. Some (setPeer i rf st)) in
      case a of
        Tick i \<Rightarrow> if i < length (peers st) then Option.bind (tickTop (peers st ! i)) (put i) else None
      | Select i ch \<Rightarrow> if i < length (peers st) then Option.bind (tickSelect ch (peers st ! i)) (put i) else None
      | Apply i \<Rightarrow>
          if i < length (peers st) \<and> appliers (peers st ! i) \<noteq> 0
          then concludes st (applyCommitted ((peers st ! i)\<lparr>appliers := appliers (peers st ! i) - 1\<rparr>)) (put i) else None
      | Submit i cmd \<Rightarrow>
          if i < length (peers st) then concludes st (Start cmd (peers st ! i)) (\<lambda>(rf, _). put i rf) else None
      | _ \<Rightarrow> None)"

definition solicitStep :: "'c wire codec \<Rightarrow> (nat \<Rightarrow> nat \<Rightarrow> string) \<Rightarrow> nat \<Rightarrow> 'c stack \<Rightarrow> 'c stack option" where
  "solicitStep cd endOf i st =
     (case solicits (peers st ! i) of
        [] \<Rightarrow> None
      | t # ts \<Rightarrow>
          let rf = (peers st ! i)\<lparr>solicits := ts\<rparr> in
          concludes st (solicitVotes rf) (\<lambda>ms. issue cd endOf (map (\<lambda>(j, a). VoteReq i j a) ms) (setPeer i rf st)))"

definition broadcastStep :: "'c wire codec \<Rightarrow> (nat \<Rightarrow> nat \<Rightarrow> string) \<Rightarrow> nat \<Rightarrow> 'c stack \<Rightarrow> 'c stack option" where
  "broadcastStep cd endOf i st =
     (let rf = peers st ! i in
      if broadcasts rf = 0 then None
      else
        let rf1 = rf\<lparr>broadcasts := broadcasts rf - 1\<rparr> in
        concludes st (broadcastHeartbeat rf1) (\<lambda>ms. issue cd endOf (map (\<lambda>(j, a). AppReq i j a) ms) (setPeer i rf1 st)))"

text \<open>\<open>Call\<close> has returned \<open>b\<close>, with \<open>v\<close> in the reply variable: the second half of \<open>sendRequestVote\<close> and of \<open>sendAppendEntries\<close>.\<close>

definition resumeStep :: "nat \<Rightarrow> 'c stack \<Rightarrow> 'c stack option" where
  "resumeStep k st =
     (case (callers st ! k, pc (calls (rpc st) ! k)) of
        ((p, False), Returned b v) \<Rightarrow>
          (let done = (\<lambda>i rf. Some ((setPeer i rf st)\<lparr>callers := (callers st)[k := (p, True)]\<rparr>)) in
           case (p, v) of
             (VoteReq i j a, VoteReply r) \<Rightarrow> concludes st (sendRequestVote b a r (peers st ! i)) (done i)
           | (AppReq i j a, AppendReply r) \<Rightarrow> concludes st (sendAppendEntries b j a r (peers st ! i)) (done i)
           | _ \<Rightarrow> None)
      | _ \<Rightarrow> None)"

datatype 'c sact =
    Local "'c cact"
  | AskVotes nat
  | SendEntries nat
  | Rpc call_act nat
  | Net "('c wire, 'c Raft list) rpc_op"
  | Exit
  | Resume nat

text \<open>What a test does to the network while no server is started: \<open>Cleanup\<close> is called once.\<close>

definition test_op :: "('v, 'w) rpc_op \<Rightarrow> ('v, 'w) Network \<Rightarrow> bool" where
  "test_op opn rn = (case opn of
     Op_MakeEnd e \<Rightarrow> False
   | Op_AddServer sn rs \<Rightarrow> False
   | Op_Connect e sn \<Rightarrow> False
   | Op_Cleanup \<Rightarrow> \<not> closed rn
   | _ \<Rightarrow> True)"

definition liftRpc :: "'c stack \<Rightarrow> ('c wire, 'c Raft list) rpc_state option \<Rightarrow> 'c stack option" where
  "liftRpc st r = map_option (\<lambda>s. st\<lparr>rpc := s\<rparr>) r"

definition stack_act :: "'c wire codec \<Rightarrow> (nat \<Rightarrow> nat \<Rightarrow> string) \<Rightarrow> 'c sact \<Rightarrow> 'c stack \<Rightarrow> 'c stack option" where
  "stack_act cd endOf a st =
     (if crashed (rpc st) \<noteq> None then None
      else
        case a of
          Local b \<Rightarrow> localStep b st
        | AskVotes i \<Rightarrow> if i < length (peers st) then solicitStep cd endOf i st else None
        | SendEntries i \<Rightarrow> if i < length (peers st) then broadcastStep cd endOf i st else None
        | Rpc ca k \<Rightarrow> liftRpc st (rpc_act cd (Step ca k) (rpc st))
        | Net opn \<Rightarrow> if test_op opn (rpc_state.net (rpc st)) then liftRpc st (rpc_act cd (NetOp opn) (rpc st)) else None
        | Exit \<Rightarrow> liftRpc st (rpc_act cd LoopExit (rpc st))
        | Resume k \<Rightarrow> if k < length (callers st) then resumeStep k st else None)"

text \<open>As in \<open>RaftCluster\<close>: votes are asked for while the campaign is in the peer's current term.  No peer restarts here.\<close>

definition timely_stack :: "'c wire codec \<Rightarrow> (nat \<Rightarrow> nat \<Rightarrow> string) \<Rightarrow> 'c sact \<Rightarrow> 'c stack \<Rightarrow> 'c stack option" where
  "timely_stack cd endOf a st =
     (if (case a of
            AskVotes i \<Rightarrow> (case solicits (peers st ! i) of [] \<Rightarrow> True | t # ts \<Rightarrow> t = currentTerm (peers st ! i))
          | _ \<Rightarrow> True)
      then stack_act cd endOf a st else None)"

text \<open>What \<open>make_config\<close> leaves behind: its network, its peers and the names of their ends.\<close>

definition stack_start :: "('c, 'c wire, 'c Raft list) config \<Rightarrow> 'c stack" where
  "stack_start cfg = \<lparr>rpc = (rpc_init (map the (rafts cfg)))\<lparr>rpc_state.net := cfnet cfg\<rparr>, callers = []\<rparr>"

definition endOf :: "('c, 'v, 'w) config \<Rightarrow> nat \<Rightarrow> nat \<Rightarrow> string" where
  "endOf cfg i j = (case endName cfg i j of Some e \<Rightarrow> e | None \<Rightarrow> [])"

section \<open>What the network does with a call\<close>

definition wired :: "(nat \<Rightarrow> nat \<Rightarrow> string) \<Rightarrow> nat \<Rightarrow> ('c wire, 'c Raft list) Network \<Rightarrow> bool" where
  "wired e n rn \<longleftrightarrow> length (heap rn) = n \<and>
     (\<forall>i < n. \<forall>j < n. connections rn (e i j) = Some (int j)) \<and>
     (\<forall>j < n. \<forall>a. servers rn (int j) = Some a \<longrightarrow> a = j) \<and>
     (\<forall>j < n. \<exists>m. heap rn ! j = (raftServer j)\<lparr>srv_count := m\<rparr>)"

definition sameWiring :: "('v, 'w) Network \<Rightarrow> ('v, 'w) Network \<Rightarrow> bool" where
  "sameWiring rn rn' \<longleftrightarrow> heap rn' = heap rn \<and> connections rn' = connections rn \<and>
     (\<forall>sn a. servers rn' sn = Some a \<longrightarrow> servers rn sn = Some a)"

lemma sameWiring_refl [simp]: "sameWiring rn rn"
  by (simp add: sameWiring_def)

lemma sameWiring_addBytes [simp]: "sameWiring rn (addBytes bs (rn\<lparr>count := m\<rparr>))" "sameWiring rn (addBytes bs rn)"
  by (simp_all add: sameWiring_def addBytes_def)

lemma sameWiring_wired: "sameWiring rn rn' \<Longrightarrow> wired e n rn \<Longrightarrow> wired e n rn'"
  by (simp add: sameWiring_def wired_def)

lemma test_op_wiring:
  assumes "test_op opn rn"
  shows "\<exists>rn'. net_op opn rn = Inr rn' \<and> sameWiring rn rn'"
  using assms
  by (cases opn) (auto simp: test_op_def net_op_def sameWiring_def Reliable_def LongReordering_def LongDelays_def
      DeleteServer_def Enable_def Cleanup_def)

subsection \<open>The handlers\<close>

lemma raft_services: "services (raftServer j) ''Raft'' = Some (MakeService ''Raft'' (raftMethods j))"
  by (simp add: raftServer_def AddService_def MakeService_def)

lemma raft_split: "splitMeth ''Raft.RequestVote'' = Inr (''Raft'', ''RequestVote'')"
    "splitMeth ''Raft.AppendEntries'' = Inr (''Raft'', ''AppendEntries'')"
  by code_simp+

lemma raft_methods:
  "methods (MakeService ''Raft'' (raftMethods j)) ''RequestVote'' = Some (raftMethods j ! 3)"
  "methods (MakeService ''Raft'' (raftMethods j)) ''AppendEntries'' = Some (raftMethods j ! 0)"
  by (simp_all add: MakeService_def raftMethods_def suitable_def)

lemma raft_funcs:
  "Func (raftMethods j ! 3) (VoteArgs x) v w = go_bind (RequestVote x (w ! j)) (\<lambda>(rf, r). Inr (w[j := rf], VoteReply r))"
  "Func (raftMethods j ! 0) (AppendArgs y) v w = go_bind (AppendEntries y (w ! j)) (\<lambda>(rf, r). Inr (w[j := rf], AppendReply r))"
  by (simp_all add: raftMethods_def callRequestVote_def callAppendEntries_def)

lemmas raft_server_simps = raft_split raft_services raft_methods raft_funcs

lemma gob_encode: "gob_ok cd \<Longrightarrow> \<exists>bs. encode cd v = Some bs \<and> decode cd bs (New cd (TypeOf cd v)) = Some v"
  by (simp add: gob_ok_def)

text \<open>The reply of a handler, as the cluster has it and as the network carries it.\<close>

fun repliesTo :: "'c packet \<Rightarrow> 'c Raft \<Rightarrow> ('c Raft \<times> 'c wire \<times> 'c packet) go" where
  "repliesTo (VoteReq i j a) rf = go_bind (RequestVote a rf) (\<lambda>(rf', r). Inr (rf', VoteReply r, VoteRep i j a r))"
| "repliesTo (AppReq i j a) rf = go_bind (AppendEntries a rf) (\<lambda>(rf', r). Inr (rf', AppendReply r, AppRep i j a r))"
| "repliesTo p rf = Inl LogFatal"

fun isReq :: "'c packet \<Rightarrow> bool" where
  "isReq (VoteReq i j a) \<longleftrightarrow> True"
| "isReq (AppReq i j a) \<longleftrightarrow> True"
| "isReq p \<longleftrightarrow> False"

definition carried :: "'c wire codec \<Rightarrow> (nat \<Rightarrow> nat \<Rightarrow> string) \<Rightarrow> 'c packet \<Rightarrow> reqMsg \<Rightarrow> bool" where
  "carried cd e p q \<longleftrightarrow> callReq cd (e (client p) (server p)) (methOf p) (argOf p) = Some q"

lemma carried_endname: "carried cd e p q \<Longrightarrow> endname q = e (client p) (server p)"
  by (auto simp: carried_def callReq_def)

text \<open>Dispatching a request on the server of a peer is running the handler of the peer.\<close>

lemma raft_dispatch:
  assumes "gob_ok cd" and "isReq p" and "carried cd e p q"
  shows "Server_dispatch cd q ((raftServer j)\<lparr>srv_count := m\<rparr>) w =
    go_bind (repliesTo p (w ! j)) (\<lambda>(rf, v, _).
      Inr ((raftServer j)\<lparr>srv_count := m + 1\<rparr>, w[j := rf], \<lparr>ok = True, reply = the (encode cd v)\<rparr>))"
proof -
  have en: "\<And>v. \<exists>bs. encode cd v = Some bs" using gob_encode [OF assms(1)] by blast
  then have op: "\<And>v. (case encode cd v of Some bs \<Rightarrow> bs | None \<Rightarrow> []) = the (encode cd v)"
    by (metis option.case_eq_if option.distinct(1))
  obtain bs where bs: "encode cd (argOf p) = Some bs" "decode cd bs (New cd (TypeOf cd (argOf p))) = Some (argOf p)"
    using gob_encode [OF assms(1)] by blast
  then have q: "svcMeth q = methOf p" "argsType q = TypeOf cd (argOf p)" "args q = bs"
    using assms(3) by (auto simp: carried_def callReq_def)
  show ?thesis
  proof (cases p)
    case (VoteReq i' j' a)
    then show ?thesis using q bs
      by (cases "RequestVote a (w ! j)")
        (auto simp: Server_dispatch_def Let_def Service_dispatch_def raft_server_simps op)
  next
    case (AppReq i' j' a)
    then show ?thesis using q bs
      by (cases "AppendEntries a (w ! j)")
        (auto simp: Server_dispatch_def Let_def Service_dispatch_def raft_server_simps op)
  qed (use assms(2) in auto)
qed

subsection \<open>Calls as packets\<close>

text \<open>The packet of the cluster that the reply \<open>m\<close> to the request \<open>p\<close> stands for.\<close>

definition repPacket :: "'c wire codec \<Rightarrow> 'c packet \<Rightarrow> replyMsg \<Rightarrow> 'c packet option" where
  "repPacket cd p m = (case (p, decode cd (reply m) (New cd (replyType p))) of
     (VoteReq i j a, Some (VoteReply r)) \<Rightarrow> Some (VoteRep i j a r)
   | (AppReq i j a, Some (AppendReply r)) \<Rightarrow> Some (AppRep i j a r)
   | _ \<Rightarrow> None)"

text \<open>Whether the handler, if it has finished, can still give the caller its reply.\<close>

fun answers :: "'v call_pc \<Rightarrow> bool" where
  "answers (Waiting sn a rel lr) \<longleftrightarrow> True"
| "answers (Decided sn a rel lr r) \<longleftrightarrow> r \<noteq> None"
| "answers (Delayed m) \<longleftrightarrow> True"
| "answers (Replying m) \<longleftrightarrow> ok m"
| "answers (Returned b v) \<longleftrightarrow> b"
| "answers c \<longleftrightarrow> False"

fun waits :: "'v call_pc \<Rightarrow> bool" where
  "waits Sending \<longleftrightarrow> True"
| "waits Queued \<longleftrightarrow> True"
| "waits (Found sn a rel lr) \<longleftrightarrow> True"
| "waits c \<longleftrightarrow> False"

text \<open>What is in flight of one call: the request until its handler runs or it is given up, then the reply until the caller has
  used it or it is given up.\<close>

definition onWire :: "'c wire codec \<Rightarrow> 'c wire call \<Rightarrow> 'c packet \<times> bool \<Rightarrow> 'c packet list" where
  "onWire cd c pd = (case job c of
     NoJob \<Rightarrow> if waits (pc c) then [fst pd] else []
   | Started a \<Rightarrow> [fst pd]
   | Finished m \<Rightarrow> if answers (pc c) \<and> \<not> snd pd then (case repPacket cd (fst pd) m of Some q \<Rightarrow> [q] | None \<Rightarrow> []) else [])"

definition wires :: "'c wire codec \<Rightarrow> 'c stack \<Rightarrow> 'c packet list" where
  "wires cd st = concat (map (\<lambda>(c, pd). onWire cd c pd) (zip (calls (rpc st)) (callers st)))"

text \<open>What is in flight of the calls made before call \<open>k\<close>, and after it.\<close>

definition wiresBefore :: "'c wire codec \<Rightarrow> nat \<Rightarrow> 'c stack \<Rightarrow> 'c packet list" where
  "wiresBefore cd k st = concat (map (\<lambda>(c, pd). onWire cd c pd) (take k (zip (calls (rpc st)) (callers st))))"

definition wiresAfter :: "'c wire codec \<Rightarrow> nat \<Rightarrow> 'c stack \<Rightarrow> 'c packet list" where
  "wiresAfter cd k st = concat (map (\<lambda>(c, pd). onWire cd c pd) (drop (Suc k) (zip (calls (rpc st)) (callers st))))"

text \<open>The orderly runs, as in \<open>RaftRefine\<close>: the handler runs the calls of one leader to one follower in the order in which they were
  made, leaving out those that are given up, and a peer that wins an election has not learnt its followers' positions before.\<close>

definition orderly_stack :: "'c wire codec \<Rightarrow> (nat \<Rightarrow> nat \<Rightarrow> string) \<Rightarrow> 'c sact \<Rightarrow> 'c stack \<Rightarrow> 'c stack option" where
  "orderly_stack cd e a st =
     (if (case a of
            Rpc ca k \<Rightarrow>
              ca = HandlerRuns \<longrightarrow>
              (case callers st ! k of
                 (AppReq i j x, _) \<Rightarrow> list_all (\<lambda>p. \<not> isCall i j p) (wiresBefore cd k st)
               | _ \<Rightarrow> True)
          | Resume k \<Rightarrow>
              (case (callers st ! k, pc (calls (rpc st) ! k)) of
                 ((VoteReq i j x, _), Returned True (VoteReply r)) \<Rightarrow>
                   winsWith x r (peers st ! i) \<longrightarrow> list_all (\<lambda>m. m = 0) (matchIdx (peers st ! i))
               | _ \<Rightarrow> True)
          | _ \<Rightarrow> True)
      then timely_stack cd e a st else None)"

fun found :: "'v call_pc \<Rightarrow> addr option" where
  "found (Found sn a rel lr) = Some a"
| "found c = None"

text \<open>The caller waits for its own call, which goes to the server of the peer it is meant for.\<close>

definition flight_ok :: "'c wire codec \<Rightarrow> (nat \<Rightarrow> nat \<Rightarrow> string) \<Rightarrow> ('c wire, 'c Raft list) Network \<Rightarrow> 'c wire call
    \<Rightarrow> 'c packet \<times> bool \<Rightarrow> bool" where
  "flight_ok cd e rn c pd \<longleftrightarrow> (case pd of (p, d) \<Rightarrow>
     isReq p \<and> client p < length (heap rn) \<and> server p < length (heap rn) \<and>
     carried cd e p (req c) \<and> var c = New cd (replyType p) \<and>
     pc_ok cd rn (var c) (job c) (pc c) \<and> (\<forall>a. found (pc c) = Some a \<longrightarrow> a = server p) \<and>
     (\<forall>a. job c = Started a \<longrightarrow> a = server p) \<and>
     (\<forall>m. job c = Finished m \<longrightarrow> repPacket cd p m \<noteq> None) \<and> (d \<longrightarrow> (\<exists>b v. pc c = Returned b v)))"

lemma flight_okD:
  assumes "flight_ok cd e rn c (p, d)"
  shows "isReq p" "server p < length (heap rn)" "client p < length (heap rn)" "carried cd e p (req c)"
    "var c = New cd (replyType p)" "pc_ok cd rn (var c) (job c) (pc c)" "job c = Started a \<Longrightarrow> a = server p"
    "found (pc c) = Some a \<Longrightarrow> a = server p" "job c = Finished m \<Longrightarrow> repPacket cd p m \<noteq> None"
    "d \<Longrightarrow> \<exists>b v. pc c = Returned b v"
  using assms by (auto simp: flight_ok_def)

lemma pc_ok_heap: "length (heap rn') = length (heap rn) \<Longrightarrow> pc_ok cd rn' v j c = pc_ok cd rn v j c"
  by (cases c) auto

lemma flight_ok_heap: "length (heap rn') = length (heap rn) \<Longrightarrow> flight_ok cd e rn' c pd = flight_ok cd e rn c pd"
  by (simp add: flight_ok_def pc_ok_heap [of rn' rn])

lemma repPacket_decodes: "repPacket cd p m \<noteq> None \<Longrightarrow> decode cd (reply m) (New cd (replyType p)) \<noteq> None"
  by (auto simp: repPacket_def split: packet.splits option.splits)

lemma lookup_server:
  assumes "wired e n rn" and "i < n" and "j < n" and "readEndnameInfo (e i j) rn = (True, Some sn, Some a, rel, lr)"
  shows "a = j"
  using assms by (auto simp: readEndnameInfo_def wired_def Let_def split: option.splits)

text \<open>A step of a call that runs no handler: the packet stays, or it is lost.\<close>

definition quietly :: "'c wire codec \<Rightarrow> (nat \<Rightarrow> nat \<Rightarrow> string) \<Rightarrow> nat \<Rightarrow> 'c packet \<times> bool \<Rightarrow> ('c wire, 'c Raft list) rpc_state
    \<Rightarrow> ('c wire, 'c Raft list) rpc_state \<Rightarrow> bool" where
  "quietly cd e k pd s t \<longleftrightarrow> (\<exists>c rn. t = (setCall k c s)\<lparr>rpc_state.net := rn\<rparr> \<and> sameWiring (rpc_state.net s) rn \<and>
     flight_ok cd e rn c pd \<and> (onWire cd c pd = onWire cd (calls s ! k) pd \<or> onWire cd c pd = []))"

lemma quietlyI:
  assumes "flight_ok cd e (rpc_state.net s) c pd" and "onWire cd c pd = onWire cd (calls s ! k) pd \<or> onWire cd c pd = []"
  shows "quietly cd e k pd s (setCall k c s)"
    "sameWiring (rpc_state.net s) rn \<Longrightarrow> quietly cd e k pd s ((setCall k c s)\<lparr>rpc_state.net := rn\<rparr>)"
proof -
  have "quietly cd e k pd s ((setCall k c s)\<lparr>rpc_state.net := rn\<rparr>)" if "sameWiring (rpc_state.net s) rn" for rn
    unfolding quietly_def using assms that flight_ok_heap [of rn "rpc_state.net s"]
    by (intro exI [of _ c] exI [of _ rn]) (simp add: sameWiring_def)
  from this [of rn] this [of "rpc_state.net s"]
  show "sameWiring (rpc_state.net s) rn \<Longrightarrow> quietly cd e k pd s ((setCall k c s)\<lparr>rpc_state.net := rn\<rparr>)"
    "quietly cd e k pd s (setCall k c s)" by (simp_all add: setCall_def)
qed

lemma quiet_step:
  assumes "wired e n (rpc_state.net s)" and "flight_ok cd e (rpc_state.net s) (calls s ! k) (p, d)" and "ca \<noteq> HandlerRuns"
    and "call_step cd ca k s = Some t"
  shows "quietly cd e k (p, d) s t"
proof -
  let ?c = "calls s ! k" and ?rn = "rpc_state.net s"
  note f = flight_okD [OF assms(2)]
  have len: "length (heap ?rn) = n" using assms(1) by (simp add: wired_def)
  have q: "endname (req ?c) = e (client p) (server p)" using f(4) by (rule carried_endname)
  note st = assms(2,3,4)
  show ?thesis
  proof (cases "pc ?c")
    case Sending
    with st show ?thesis
      by (auto simp: call_step_def Let_def send_step_def flight_ok_def onWire_def
          split: call_act.splits if_splits intro!: quietlyI)
  next
    case (Replying m)
    show ?thesis
    proof (cases "ok m")
      case True
      then have j: "job ?c = Finished m" using Replying f(6) by simp
      then obtain v where "decode cd (reply m) (var ?c) = Some v"
        using repPacket_decodes [OF f(9) [OF j]] f(5) by auto
      with True Replying j st show ?thesis
        by (auto simp: call_step_def Let_def return_step_def flight_ok_def onWire_def split: if_splits intro!: quietlyI)
    next
      case False
      with Replying st show ?thesis
        by (auto simp: call_step_def Let_def return_step_def flight_ok_def onWire_def
            split: if_splits job.splits intro!: quietlyI)
    qed
  next
    case Queued
    have "a = server p" if "readEndnameInfo (e (client p) (server p)) ?rn = (True, Some sn, Some a, rel, lr)" for sn a rel lr
      using lookup_server [OF assms(1) _ _ that] f(2,3) len by simp
    with Queued st f(2) show ?thesis
      by (auto simp: call_step_def Let_def process_step_def q flight_ok_def onWire_def noReply_def
          split: if_splits option.splits bool.splits prod.splits intro!: quietlyI)
  next
    case (Found sn b rel lr)
    with st show ?thesis
      by (auto simp: call_step_def Let_def process_step_def flight_ok_def onWire_def noReply_def
          split: call_act.splits if_splits intro!: quietlyI)
  next
    case (Waiting sn b rel lr)
    have same: "quietly cd e k (p, d) s s" using quietlyI(1) [OF assms(2), of k] by (simp add: setCall_def)
    show ?thesis using Waiting st same
      by (auto simp: call_step_def Let_def process_step_def flight_ok_def onWire_def
          split: call_act.splits if_splits job.splits intro!: quietlyI)
  next
    case (Decided sn b rel lr r)
    with st show ?thesis
      by (auto simp: call_step_def process_step_def decide_step_def Let_def flight_ok_def onWire_def noReply_def
          split: call_act.splits if_splits option.splits job.splits intro!: quietlyI)
  next
    case (Delayed m)
    with st show ?thesis
      by (auto simp: call_step_def Let_def process_step_def flight_ok_def onWire_def split: if_splits intro!: quietlyI)
  next
    case (Returned b v)
    with st show ?thesis by (simp add: call_step_def process_step_def)
  qed
qed

end
