(* ===== verification/RaftOverRpc.thy ===== *)
theory RaftOverRpc
  imports RaftStack
begin

text \<open>
  Raft over \<open>labrpc\<close> implements the cluster of \<open>RaftCluster\<close>: a forward simulation from the machine of \<open>RaftStack\<close> to the cluster.  The packets of the
  cluster are those that the calls have in flight.  A step inside the network that keeps a packet is no step of the cluster, one that
  gives a call up loses its packet, the handler goroutine delivers a request, and the caller delivers the reply to itself.  With the order of
  the calls kept too, orderly runs of the machine are orderly runs of the cluster, so that everything shown for the cluster in timely and in
  orderly runs holds for Raft as it runs on the network of the tests.
\<close>

section \<open>The cluster's side\<close>

text \<open>The same packets are in flight, and the calls of one leader to one follower in the same order.\<close>

definition same_net :: "'c packet list \<Rightarrow> 'c packet list \<Rightarrow> bool" where
  "same_net ps qs \<longleftrightarrow> mset ps = mset qs \<and> (\<forall>i j. filter (isCall i j) ps = filter (isCall i j) qs)"

lemma same_net_append: "same_net ps qs \<Longrightarrow> same_net (ps @ rs) (qs @ rs)"
  by (simp add: same_net_def)

lemma same_net_reply:
  assumes "same_net ps (us @ vs)" and "\<not> isReq q"
  shows "same_net (ps @ [q]) (us @ q # vs)"
proof -
  have "\<not> isCall i j q" for i j using assms(2) by (cases q) auto
  with assms(1) show ?thesis by (simp add: same_net_def)
qed

lemma filter_split:
  assumes "filter P ps = as @ q # bs"
  shows "\<exists>xs ys. ps = xs @ q # ys \<and> filter P xs = as \<and> filter P ys = bs"
  using assms
proof (induction ps arbitrary: as)
  case (Cons p ps)
  show ?case
  proof (cases "P p \<and> as = []")
    case True
    with Cons.prems show ?thesis by (intro exI [of _ "[]"] exI [of _ ps]) auto
  next
    case False
    then obtain as' where "filter P ps = as' @ q # bs" "as = (if P p then p # as' else as')"
      using Cons.prems by (cases "P p"; cases as) auto
    with Cons.IH [of as'] obtain xs ys where "ps = xs @ q # ys" "filter P xs = as'" "filter P ys = bs" by blast
    with \<open>as = _\<close> show ?thesis by (intro exI [of _ "p # xs"] exI [of _ ys]) auto
  qed
qed simp

lemma same_net_split:
  assumes "same_net ps (us @ q # vs)"
  obtains xs ys where "ps = xs @ q # ys" and "same_net (xs @ ys) (us @ vs)"
    and "\<forall>i j. isCall i j q \<longrightarrow> filter (isCall i j) xs = filter (isCall i j) us"
proof (cases "\<exists>i j. isCall i j q")
  case True
  then obtain i j where ij: "isCall i j q" by blast
  then have only: "isCall i' j' q \<longleftrightarrow> i' = i \<and> j' = j" for i' j' by (cases q) auto
  have "filter (isCall i j) ps = filter (isCall i j) us @ q # filter (isCall i j) vs" using assms ij by (simp add: same_net_def)
  from filter_split [OF this] obtain xs ys where x: "ps = xs @ q # ys" "filter (isCall i j) xs = filter (isCall i j) us"
    "filter (isCall i j) ys = filter (isCall i j) vs" by blast
  have "filter (isCall i' j') (xs @ ys) = filter (isCall i' j') (us @ vs)" for i' j'
  proof (cases "i' = i \<and> j' = j")
    case False
    have "filter (isCall i' j') ps = filter (isCall i' j') (us @ q # vs)" using assms by (simp add: same_net_def)
    moreover have "\<not> isCall i' j' q" using False only by blast
    ultimately show ?thesis using x(1) by simp
  qed (use x(2,3) in simp)
  with assms x(1) have "same_net (xs @ ys) (us @ vs)" by (simp add: same_net_def)
  with x only show thesis by (intro that [of xs ys]) auto
next
  case False
  have "q \<in> set ps" using assms by (metis in_set_conv_decomp same_net_def set_mset_mset)
  then obtain xs ys where x: "ps = xs @ q # ys" by (meson split_list)
  with assms False have "same_net (xs @ ys) (us @ vs)" by (simp add: same_net_def)
  with x False show thesis by (intro that [of xs ys]) auto
qed

text \<open>Both kinds of runs at once: \<open>strict\<close> ones are orderly.\<close>

definition guarded :: "bool \<Rightarrow> 'c cact \<Rightarrow> 'c cluster \<Rightarrow> 'c cluster option" where
  "guarded strict = (if strict then orderly_act else timely_act)"

definition in_turn :: "bool \<Rightarrow> 'c packet \<Rightarrow> 'c packet list \<Rightarrow> 'c Raft list \<Rightarrow> bool" where
  "in_turn strict q us ns \<longleftrightarrow> strict \<longrightarrow> (case q of
     AppReq i j x \<Rightarrow> list_all (\<lambda>p. \<not> isCall i j p) us
   | VoteRep i j x r \<Rightarrow> winsWith x r (ns ! i) \<longrightarrow> list_all (\<lambda>m. m = 0) (matchIdx (ns ! i))
   | _ \<Rightarrow> True)"

lemma guarded_timely: "guarded strict a c = Some c' \<Longrightarrow> timely_act a c = Some c'"
  by (auto simp: guarded_def orderly_timely split: if_splits)

lemma guarded_same: "\<forall>k. a \<noteq> Deliver k \<Longrightarrow> guarded strict a c = timely_act a c"
  by (cases a) (simp_all add: guarded_def orderly_act_def orderly_def timely_act_def)

lemma guarded_deliver:
  assumes "k < length (cluster.net c)" and "in_turn strict (cluster.net c ! k) us (nodes c)"
    and "\<And>i j. isCall i j (cluster.net c ! k) \<Longrightarrow> filter (isCall i j) (take k (cluster.net c)) = filter (isCall i j) us"
  shows "guarded strict (Deliver k) c = timely_act (Deliver k) c"
proof (cases strict)
  case True
  have "list_all (\<lambda>p. \<not> isCall i j p) (take k (cluster.net c))" if q: "cluster.net c ! k = AppReq i j x" for i j x
  proof -
    have "filter (isCall i j) (take k (cluster.net c)) = filter (isCall i j) us" using assms(3) [of i j] q by simp
    also have "\<dots> = []" using assms(2) True q by (auto simp: in_turn_def list_all_iff filter_empty_conv)
    finally show ?thesis by (simp add: list_all_iff filter_empty_conv)
  qed
  then have "orderly (Deliver k) c"
    using assms(1,2) True by (auto simp: orderly_def timely_def in_turn_def split: packet.splits)
  with True show ?thesis by (simp add: guarded_def orderly_act_def timely_act_def timely_def)
qed (simp add: guarded_def)

text \<open>Any packet in flight can be lost or, in its turn, delivered.\<close>

lemma pick_packet:
  assumes "same_net (cluster.net c) (us @ q # vs)" and "failed c = None"
  obtains c1 where "nodes c1 = nodes c" "failed c1 = None" "same_net (cluster.net c1) (us @ vs)" "act_step (guarded strict) c c1"
    "\<And>c'. doPacket q c1 = Some c' \<Longrightarrow> in_turn strict q us (nodes c) \<Longrightarrow> act_step (guarded strict) c c'"
proof -
  from assms(1) obtain xs ys where x: "cluster.net c = xs @ q # ys" "same_net (xs @ ys) (us @ vs)"
    "\<forall>i j. isCall i j q \<longrightarrow> filter (isCall i j) xs = filter (isCall i j) us" by (rule same_net_split)
  let ?k = "length xs" and ?c = "c\<lparr>cluster.net := xs @ ys\<rparr>"
  have r: "removePacket ?k c = ?c" by (simp add: removePacket_def x(1))
  have "timely_act (Drop ?k) c = Some ?c" using assms(2) x(1) r
    by (simp add: timely_act_def timely_def cluster_act_def cluster_step_def)
  then have d: "act_step (guarded strict) c ?c" by (intro act_stepI [where a = "Drop ?k"]) (simp add: guarded_same)
  have "act_step (guarded strict) c c'" if "doPacket q ?c = Some c'" "in_turn strict q us (nodes c)" for c'
  proof (rule act_stepI)
    have "timely_act (Deliver ?k) c = Some c'" using assms(2) x(1) r that(1)
      by (simp add: timely_act_def timely_def cluster_act_def cluster_step_def)
    then show "guarded strict (Deliver ?k) c = Some c'" using x(1,3) that(2) by (subst guarded_deliver [of _ _ _ us]) simp_all
  qed
  with d x(2) assms(2) show thesis by (intro that [of ?c]) simp_all
qed

lemma deliver_request:
  assumes "isReq p"
  shows "repliesTo p (nodes c ! server p) = Inr (rf, v, q) \<Longrightarrow>
      \<exists>h. doPacket p c = Some (c\<lparr>nodes := (nodes c)[server p := rf], cluster.net := cluster.net c @ [q], hist := h\<rparr>)"
    "repliesTo p (nodes c ! server p) = Inl x \<Longrightarrow> x \<noteq> Blocked \<Longrightarrow> doPacket p c = Some (c\<lparr>failed := Some x\<rparr>)"
proof -
  show "\<exists>h. doPacket p c = Some (c\<lparr>nodes := (nodes c)[server p := rf], cluster.net := cluster.net c @ [q], hist := h\<rparr>)"
    if r: "repliesTo p (nodes c ! server p) = Inr (rf, v, q)"
  proof (cases p)
    case (VoteReq i j a)
    with r obtain y where "RequestVote a (nodes c ! j) = Inr (rf, y)" "q = VoteRep i j a y" by (auto simp: go_bind_Inr_iff)
    then show ?thesis using VoteReq
      by (intro exI [of _ "recordVote j a y (hist c)"]) (simp add: doPacket_def finish_def setNode_def)
  next
    case (AppReq i j a)
    with r obtain y where "AppendEntries a (nodes c ! j) = Inr (rf, y)" "q = AppRep i j a y" by (auto simp: go_bind_Inr_iff)
    then show ?thesis using AppReq
      by (intro exI [of _ "hist c"]) (simp add: doPacket_def finish_def setNode_def)
  qed (use assms in auto)
  show "doPacket p c = Some (c\<lparr>failed := Some x\<rparr>)" if r: "repliesTo p (nodes c ! server p) = Inl x" and "x \<noteq> Blocked"
  proof (cases p)
    case (VoteReq i j a)
    with r have "RequestVote a (nodes c ! j) = Inl x" by (cases "RequestVote a (nodes c ! j)") auto
    with VoteReq that(2) show ?thesis by (simp add: doPacket_def finish_def)
  next
    case (AppReq i j a)
    with r have "AppendEntries a (nodes c ! j) = Inl x" by (cases "AppendEntries a (nodes c ! j)") auto
    with AppReq that(2) show ?thesis by (simp add: doPacket_def finish_def)
  qed (use assms in auto)
qed

lemma handler_reply:
  assumes "gob_ok cd" and "repliesTo p rf = Inr (rf', v, q)"
  shows "repPacket cd p \<lparr>ok = True, reply = the (encode cd v)\<rparr> = Some q"
proof -
  obtain bs where bs: "encode cd v = Some bs" "decode cd bs (New cd (TypeOf cd v)) = Some v"
    using gob_encode [OF assms(1)] by blast
  show ?thesis using assms bs
    by (cases p) (auto simp: repPacket_def gob_ok_def go_bind_Inr_iff)
qed

text \<open>The cluster and the machine agree on the peers, on how the program ended and on what is in flight.\<close>

definition shows_as :: "'c wire codec \<Rightarrow> 'c stack \<Rightarrow> 'c cluster \<Rightarrow> bool" where
  "shows_as cd st c \<longleftrightarrow> nodes c = peers st \<and> failed c = crashed (rpc st) \<and>
     (crashed (rpc st) = None \<longrightarrow> same_net (cluster.net c) (wires cd st))"

definition stack_inv :: "'c wire codec \<Rightarrow> (nat \<Rightarrow> nat \<Rightarrow> string) \<Rightarrow> nat \<Rightarrow> 'c stack \<Rightarrow> bool" where
  "stack_inv cd e n st \<longleftrightarrow> wired e n (rpc_state.net (rpc st)) \<and> length (callers st) = length (calls (rpc st)) \<and>
     (\<forall>k < length (callers st). flight_ok cd e (rpc_state.net (rpc st)) (calls (rpc st) ! k) (callers st ! k))"

definition simulated :: "bool \<Rightarrow> 'c wire codec \<Rightarrow> (nat \<Rightarrow> nat \<Rightarrow> string) \<Rightarrow> nat \<Rightarrow> 'c cluster \<Rightarrow> 'c stack \<Rightarrow> bool" where
  "simulated strict cd e n c st \<longleftrightarrow> stack_inv cd e n st \<and> (\<exists>c'. (act_step (guarded strict))\<^sup>*\<^sup>* c c' \<and> shows_as cd st c')"

lemma wires_split:
  assumes "stack_inv cd e n st" and "k < length (callers st)"
  shows "wires cd st = wiresBefore cd k st @ onWire cd (calls (rpc st) ! k) (callers st ! k) @ wiresAfter cd k st"
proof -
  let ?zs = "zip (calls (rpc st)) (callers st)"
  have k: "k < length ?zs" "?zs ! k = (calls (rpc st) ! k, callers st ! k)" using assms by (simp_all add: stack_inv_def)
  show ?thesis unfolding wires_def wiresBefore_def wiresAfter_def
    by (subst id_take_nth_drop [OF k(1)]) (simp only: k(2) map_append concat_append list.map concat.simps prod.case)
qed

text \<open>One call changes, with its caller.\<close>

lemma stack_inv_call:
  assumes "stack_inv cd e n st" and "k < length (callers st)" and "flight_ok cd e rn c pd"
    and "wired e n rn" and "length (heap rn) = length (heap (rpc_state.net (rpc st)))"
    and "calls (rpc st') = (calls (rpc st))[k := c]" and "callers st' = (callers st)[k := pd]" and "rpc_state.net (rpc st') = rn"
  shows "stack_inv cd e n st'" "wires cd st' = wiresBefore cd k st @ onWire cd c pd @ wiresAfter cd k st"
proof -
  have len: "length (callers st) = length (calls (rpc st))" using assms(1) by (simp add: stack_inv_def)
  show inv: "stack_inv cd e n st'"
    using assms flight_ok_heap [OF assms(5)] by (auto simp: stack_inv_def nth_list_update)
  have z: "zip (calls (rpc st')) (callers st') = (zip (calls (rpc st)) (callers st))[k := (c, pd)]"
    by (simp add: assms(6,7) update_zip)
  have "wiresBefore cd k st' = wiresBefore cd k st" "wiresAfter cd k st' = wiresAfter cd k st"
    by (simp_all add: wiresBefore_def wiresAfter_def z)
  then show "wires cd st' = wiresBefore cd k st @ onWire cd c pd @ wiresAfter cd k st"
    using wires_split [OF inv, of k] assms(2,6,7) len by simp
qed

section \<open>Simulation\<close>

lemma onWire_cases: "onWire cd c pd = [] \<or> (\<exists>x. onWire cd c pd = [x])"
  by (auto simp: onWire_def split: job.splits option.splits)

lemma steps_one: "act_step act c c' \<Longrightarrow> (act_step act)\<^sup>*\<^sup>* c c'"
  by (rule r_into_rtranclp)

lemma in_flight:
  assumes "shows_as cd st c" and "crashed (rpc st) = None" and "stack_inv cd e n st" and "k < length (callers st)"
    and "onWire cd (calls (rpc st) ! k) (callers st ! k) = [q]"
  shows "same_net (cluster.net c) (wiresBefore cd k st @ q # wiresAfter cd k st)" "failed c = None" "nodes c = peers st"
  using assms(1,2) wires_split [OF assms(3,4)] assms(5) by (simp_all add: shows_as_def)

text \<open>The call loses its packet, or keeps it.\<close>

lemma sim_lose:
  assumes "shows_as cd st c" and "crashed (rpc st) = None" and "stack_inv cd e n st" and "k < length (callers st)"
    and "stack_inv cd e n st'" and "peers st' = peers st" and "crashed (rpc st') = None"
    and "wires cd st' = wiresBefore cd k st @ ws @ wiresAfter cd k st"
    and "ws = onWire cd (calls (rpc st) ! k) (callers st ! k) \<or> ws = []"
  shows "simulated strict cd e n c st'"
proof (cases "wires cd st' = wires cd st")
  case True
  with assms show ?thesis by (auto simp: simulated_def shows_as_def)
next
  case False
  then have "ws \<noteq> onWire cd (calls (rpc st) ! k) (callers st ! k)" using assms(8) wires_split [OF assms(3,4)] by auto
  with assms(9) onWire_cases obtain q where q: "ws = []" "onWire cd (calls (rpc st) ! k) (callers st ! k) = [q]" by metis
  note fl = in_flight [OF assms(1-4) q(2)]
  from pick_packet [OF fl(1,2), of strict] obtain c1 where c1: "nodes c1 = nodes c" "failed c1 = None"
    "same_net (cluster.net c1) (wiresBefore cd k st @ wiresAfter cd k st)" "act_step (guarded strict) c c1" by blast
  with assms(6-8) fl(3) q(1) have "shows_as cd st' c1" by (simp add: shows_as_def)
  with c1(4) assms(5) show ?thesis unfolding simulated_def by (blast intro: steps_one)
qed

lemma sim_quiet:
  assumes "shows_as cd st c" and "crashed (rpc st) = None" and "stack_inv cd e n st" and "k < length (callers st)"
    and "quietly cd e k (callers st ! k) (rpc st) t"
  shows "simulated strict cd e n c (st\<lparr>rpc := t\<rparr>)"
proof -
  let ?s = "rpc st"
  from assms(5) obtain cc rn where t: "t = (setCall k cc ?s)\<lparr>rpc_state.net := rn\<rparr>" and w: "sameWiring (rpc_state.net ?s) rn"
    and f: "flight_ok cd e rn cc (callers st ! k)"
    and o: "onWire cd cc (callers st ! k) = onWire cd (calls ?s ! k) (callers st ! k) \<or> onWire cd cc (callers st ! k) = []"
    by (auto simp: quietly_def)
  have wi: "wired e n rn" using sameWiring_wired [OF w] assms(3) by (simp add: stack_inv_def)
  note u = stack_inv_call [OF assms(3,4) f wi, of "st\<lparr>rpc := t\<rparr>"]
  have "stack_inv cd e n (st\<lparr>rpc := t\<rparr>)"
    by (rule u(1)) (use w in \<open>simp_all add: t setCall_def sameWiring_def\<close>)
  moreover have "wires cd (st\<lparr>rpc := t\<rparr>) = wiresBefore cd k st @ onWire cd cc (callers st ! k) @ wiresAfter cd k st"
    by (rule u(2)) (use w in \<open>simp_all add: t setCall_def sameWiring_def\<close>)
  ultimately show ?thesis using o
    by (intro sim_lose [OF assms(1-4)]) (simp_all add: t setCall_def assms(2))
qed

text \<open>The handler runs: the request is delivered, and its reply is lost at once if nobody waits for it any more.\<close>

lemma sim_handler:
  assumes "shows_as cd st c" and "crashed (rpc st) = None" and "stack_inv cd e n st" and "k < length (callers st)"
    and "gob_ok cd" and "handler_step cd k (calls (rpc st) ! k) (rpc st) = Some t"
    and "in_turn strict (fst (callers st ! k)) (wiresBefore cd k st) (peers st)"
  shows "simulated strict cd e n c (st\<lparr>rpc := t\<rparr>)"
proof -
  let ?s = "rpc st" and ?rn = "rpc_state.net (rpc st)"
  let ?c = "calls ?s ! k"
  obtain p d where pd: "callers st ! k = (p, d)" by fastforce
  have "flight_ok cd e ?rn ?c (callers st ! k)" using assms(3,4) by (simp add: stack_inv_def)
  then have fl: "flight_ok cd e ?rn ?c (p, d)" by (simp add: pd)
  note f = flight_okD [OF this]
  obtain a where a: "job ?c = Started a" using assms(6) by (auto simp: handler_step_def split: job.splits)
  let ?j = "server p"
  have j: "a = ?j" using f(7) [OF a] .
  have wi: "wired e n ?rn" using assms(3) by (simp add: stack_inv_def)
  with f(2) obtain m where m: "heap ?rn ! ?j = (raftServer ?j)\<lparr>srv_count := m\<rparr>" by (auto simp: wired_def)
  have ow: "onWire cd ?c (callers st ! k) = [p]" by (simp add: onWire_def a pd)
  note inf = in_flight [OF assms(1-4) ow]
  have turn: "in_turn strict p (wiresBefore cd k st) (nodes c)" using assms(7) inf(3) by (simp add: pd)
  from pick_packet [OF inf(1,2), of strict] obtain c1 where c1: "nodes c1 = peers st" "failed c1 = None"
    "same_net (cluster.net c1) (wiresBefore cd k st @ wiresAfter cd k st)"
    and del: "\<And>c'. doPacket p c1 = Some c' \<Longrightarrow> act_step (guarded strict) c c'"
    using turn inf(3) by metis
  note dis = raft_dispatch [OF assms(5) f(1,4), where j = ?j and m = m and w = "peers st"]
  show ?thesis
  proof (cases "repliesTo p (peers st ! ?j)")
    case (Inl x)
    with assms(6) a j m dis have x: "x \<noteq> Blocked" "t = ?s\<lparr>crashed := Some x\<rparr>"
      by (auto simp: handler_step_def split: if_splits)
    have "act_step (guarded strict) c (c1\<lparr>failed := Some x\<rparr>)"
      by (intro del deliver_request(2) [OF f(1)]) (use Inl x c1 in simp_all)
    moreover have "shows_as cd (st\<lparr>rpc := t\<rparr>) (c1\<lparr>failed := Some x\<rparr>)" by (simp add: shows_as_def x c1)
    moreover have "stack_inv cd e n (st\<lparr>rpc := t\<rparr>)" using assms(3) by (simp add: stack_inv_def x)
    ultimately show ?thesis unfolding simulated_def by (blast intro: steps_one)
  next
    case (Inr y)
    obtain rf v q where y: "y = (rf, v, q)" by (cases y)
    let ?r = "\<lparr>ok = True, reply = the (encode cd v)\<rparr>"
    let ?cc = "?c\<lparr>job := Finished ?r\<rparr>" and ?rn' = "?rn\<lparr>heap := (heap ?rn)[?j := (raftServer ?j)\<lparr>srv_count := m + 1\<rparr>]\<rparr>"
    have t: "calls t = (calls ?s)[k := ?cc]" "rpc_state.net t = ?rn'" "world t = (peers st)[?j := rf]" "crashed t = None"
      using assms(2,6) a j m dis Inr y by (auto simp: handler_step_def setCall_def)
    have rep: "repPacket cd p ?r = Some q" using handler_reply [OF assms(5)] Inr y by blast
    have "pc_ok cd ?rn (var ?c) (Finished ?r) (pc ?c)" using f(6) a by (cases "pc ?c") auto
    then have "flight_ok cd e ?rn ?cc (p, d)" using fl rep by (simp add: flight_ok_def)
    then have fl': "flight_ok cd e ?rn' ?cc (p, d)" by (subst flight_ok_heap [of _ ?rn]) simp_all
    have wi': "wired e n ?rn'" using wi f(2) by (auto simp: wired_def nth_list_update)
    note u = stack_inv_call [OF assms(3,4) fl' wi', of "st\<lparr>rpc := t\<rparr>"]
    have inv: "stack_inv cd e n (st\<lparr>rpc := t\<rparr>)" by (rule u(1)) (simp_all add: t pd [symmetric])
    have w: "wires cd (st\<lparr>rpc := t\<rparr>) = wiresBefore cd k st @ onWire cd ?cc (p, d) @ wiresAfter cd k st"
      by (rule u(2)) (simp_all add: t pd [symmetric])
    from deliver_request(1) [OF f(1), of c1 rf v q] Inr y c1 obtain h where
      "doPacket p c1 = Some (c1\<lparr>nodes := (nodes c1)[?j := rf], cluster.net := cluster.net c1 @ [q], hist := h\<rparr>)" by auto
    from del [OF this] obtain c2 where c2: "act_step (guarded strict) c c2" "nodes c2 = (peers st)[?j := rf]" "failed c2 = None"
      "cluster.net c2 = cluster.net c1 @ [q]" using c1 by simp
    have "\<not> isReq q" using rep by (auto simp: repPacket_def split: packet.splits option.splits wire.splits)
    with same_net_reply [OF c1(3)] have net2: "same_net (cluster.net c2) (wiresBefore cd k st @ q # wiresAfter cd k st)" by (simp add: c2(4))
    show ?thesis
    proof (cases "onWire cd ?cc (p, d) = []")
      case False
      then have "onWire cd ?cc (p, d) = [q]" using rep by (auto simp: onWire_def split: if_splits)
      with c2 w t net2 have "shows_as cd (st\<lparr>rpc := t\<rparr>) c2" by (simp add: shows_as_def)
      with inv c2(1) show ?thesis unfolding simulated_def by (blast intro: steps_one)
    next
      case True
      from pick_packet [OF net2 c2(3), of strict] obtain c3 where c3: "nodes c3 = nodes c2" "failed c3 = None"
        "same_net (cluster.net c3) (wiresBefore cd k st @ wiresAfter cd k st)" "act_step (guarded strict) c2 c3" by blast
      with True c2 w t have "shows_as cd (st\<lparr>rpc := t\<rparr>) c3" by (simp add: shows_as_def)
      moreover have "(act_step (guarded strict))\<^sup>*\<^sup>* c c3" by (rule rtranclp_trans [OF steps_one [OF c2(1)] steps_one [OF c3(4)]])
      ultimately show ?thesis using inv unfolding simulated_def by blast
    qed
  qed
qed

text \<open>The caller goes on.  A call that failed changes nothing; a reply is delivered.\<close>

lemma deliver_reply:
  "sendRequestVote True a r (nodes c ! i) = Inr rf \<Longrightarrow>
     \<exists>h. doPacket (VoteRep i j a r) c = Some (c\<lparr>nodes := (nodes c)[i := rf], hist := h\<rparr>)"
  "sendRequestVote True a r (nodes c ! i) = Inl x \<Longrightarrow> x \<noteq> Blocked \<Longrightarrow>
     doPacket (VoteRep i j a r) c = Some (c\<lparr>failed := Some x\<rparr>)"
  "sendAppendEntries True j b s (nodes c ! i) = Inr rf \<Longrightarrow>
     \<exists>h. doPacket (AppRep i j b s) c = Some (c\<lparr>nodes := (nodes c)[i := rf], hist := h\<rparr>)"
  "sendAppendEntries True j b s (nodes c ! i) = Inl x \<Longrightarrow> x \<noteq> Blocked \<Longrightarrow>
     doPacket (AppRep i j b s) c = Some (c\<lparr>failed := Some x\<rparr>)"
proof -
  show "\<exists>h. doPacket (VoteRep i j a r) c = Some (c\<lparr>nodes := (nodes c)[i := rf], hist := h\<rparr>)"
    if "sendRequestVote True a r (nodes c ! i) = Inr rf"
    using that
    by (intro exI [of _ "if counts a r (nodes c ! i) then recordCount i j rf (hist c) else hist c"])
      (simp add: doPacket_def finish_def setNode_def Let_def)
  show "\<exists>h. doPacket (AppRep i j b s) c = Some (c\<lparr>nodes := (nodes c)[i := rf], hist := h\<rparr>)"
    if "sendAppendEntries True j b s (nodes c ! i) = Inr rf"
    using that by (intro exI [of _ "hist c"]) (simp add: doPacket_def finish_def setNode_def)
qed (simp_all add: doPacket_def finish_def)

text \<open>The second half of a caller, on the reply packet.\<close>

fun caller :: "bool \<Rightarrow> 'c packet \<Rightarrow> 'c Raft \<Rightarrow> 'c Raft go" where
  "caller b (VoteRep i j a r) rf = sendRequestVote b a r rf"
| "caller b (AppRep i j a r) rf = sendAppendEntries b j a r rf"
| "caller b p rf = Inl LogFatal"

lemma deliver_caller:
  "caller True q (nodes c ! client q) = Inr rf \<Longrightarrow> \<exists>h. doPacket q c = Some (c\<lparr>nodes := (nodes c)[client q := rf], hist := h\<rparr>)"
  "caller True q (nodes c ! client q) = Inl x \<Longrightarrow> \<not> isReq q \<Longrightarrow> x \<noteq> Blocked \<Longrightarrow> doPacket q c = Some (c\<lparr>failed := Some x\<rparr>)"
  by (cases q; simp add: deliver_reply)+

lemma resume_cases:
  assumes "resumeStep k st = Some st'"
  obtains p b v q where "callers st ! k = (p, False)" and "pc (calls (rpc st) ! k) = Returned b v" and "client q = client p"
    and "\<not> isReq q" and "\<forall>m. decode cd (reply m) (New cd (replyType p)) = Some v \<longrightarrow> repPacket cd p m = Some q"
    and "concludes st (caller b q (peers st ! client q))
      (\<lambda>rf. Some ((setPeer (client q) rf st)\<lparr>callers := (callers st)[k := (p, True)]\<rparr>)) = Some st'"
proof -
  from assms obtain p b v where pv: "callers st ! k = (p, False)" "pc (calls (rpc st) ! k) = Returned b v"
    by (auto simp: resumeStep_def split: prod.splits bool.splits call_pc.splits)
  show thesis
  proof (cases p)
    case (VoteReq i j a)
    with assms pv obtain r where "v = VoteReply r" by (auto simp: resumeStep_def split: wire.splits)
    with assms pv VoteReq show thesis
      by (intro that [of p b v "VoteRep i j a r"]) (auto simp: resumeStep_def repPacket_def)
  next
    case (AppReq i j a)
    with assms pv obtain r where "v = AppendReply r" by (auto simp: resumeStep_def split: wire.splits)
    with assms pv AppReq show thesis
      by (intro that [of p b v "AppRep i j a r"]) (auto simp: resumeStep_def repPacket_def)
  qed (use assms pv in \<open>auto simp: resumeStep_def\<close>)
qed

lemma failed_call: "baseIdx rf = Inr b \<Longrightarrow> \<not> isReq q \<Longrightarrow> caller False q rf = Inr rf"
  by (cases q) (simp_all add: sendRequestVote_def sendAppendEntries_def)

lemma sim_resume:
  assumes "shows_as cd st c" and "crashed (rpc st) = None" and "stack_inv cd e n st" and "k < length (callers st)"
    and "\<forall>i < n. base_ok (rlog (peers st ! i))" and "resumeStep k st = Some st'"
    and "\<And>i j x r. callers st ! k = (VoteReq i j x, False) \<Longrightarrow> pc (calls (rpc st) ! k) = Returned True (VoteReply r) \<Longrightarrow>
      in_turn strict (VoteRep i j x r) [] (peers st)"
  shows "simulated strict cd e n c st'"
proof -
  let ?s = "rpc st" and ?rn = "rpc_state.net (rpc st)"
  let ?c = "calls ?s ! k"
  obtain p b v q where pd: "callers st ! k = (p, False)" and pc: "pc ?c = Returned b v" and q: "client q = client p" "\<not> isReq q"
    and rep: "\<forall>m. decode cd (reply m) (New cd (replyType p)) = Some v \<longrightarrow> repPacket cd p m = Some q"
    and st': "concludes st (caller b q (peers st ! client q))
      (\<lambda>rf. Some ((setPeer (client q) rf st)\<lparr>callers := (callers st)[k := (p, True)]\<rparr>)) = Some st'"
    using resume_cases [OF assms(6), of cd] .
  let ?i = "client q"
  have "flight_ok cd e ?rn ?c (callers st ! k)" using assms(3,4) by (simp add: stack_inv_def)
  then have fl: "flight_ok cd e ?rn ?c (p, False)" by (simp add: pd)
  then have fl': "flight_ok cd e ?rn ?c (p, True)" using pc by (auto simp: flight_ok_def)
  note f = flight_okD [OF fl]
  have wi: "wired e n ?rn" using assms(3) by (simp add: stack_inv_def)
  note u = stack_inv_call [OF assms(3,4) fl' wi refl]
  show ?thesis
  proof (cases b)
    case False
    have "?i < n" using f(3) wi q(1) by (simp add: wired_def)
    then have "caller b q (peers st ! ?i) = Inr (peers st ! ?i)"
      using False failed_call [OF base_ok_baseIdx q(2)] assms(5) by simp
    with st' have e: "st' = st\<lparr>callers := (callers st)[k := (p, True)]\<rparr>" by (simp add: concludes_def setPeer_def)
    have "onWire cd ?c (p, True) = onWire cd ?c (callers st ! k)" using False pc pd by (simp add: onWire_def split: job.split)
    then show ?thesis using u [of st'] e assms(2)
      by (intro sim_lose [OF assms(1-4), of st' "onWire cd ?c (p, True)"]) simp_all
  next
    case True
    then obtain m where m: "job ?c = Finished m" "decode cd (reply m) (var ?c) = Some v" using f(6) pc by auto
    then have rp: "repPacket cd p m = Some q" using rep f(5) by simp
    then have ow: "onWire cd ?c (callers st ! k) = [q]" "onWire cd ?c (p, True) = []"
      using m(1) pc pd True by (simp_all add: onWire_def)
    note inf = in_flight [OF assms(1-4) ow(1)]
    have turn: "in_turn strict q (wiresBefore cd k st) (nodes c)"
    proof (cases q)
      case (VoteRep i j x y)
      then have "p = VoteReq i j x \<and> v = VoteReply y"
        using rp m(2) f(5) by (auto simp: repPacket_def split: packet.splits option.splits wire.splits)
      with assms(7) [of i j x y] pd pc True VoteRep inf(3) show ?thesis by (simp add: in_turn_def)
    qed (use q(2) in \<open>simp_all add: in_turn_def\<close>)
    from pick_packet [OF inf(1,2), of strict] obtain c1 where c1: "nodes c1 = peers st" "failed c1 = None"
      "same_net (cluster.net c1) (wiresBefore cd k st @ wiresAfter cd k st)"
      and del: "\<And>c'. doPacket q c1 = Some c' \<Longrightarrow> act_step (guarded strict) c c'"
      using turn inf(3) by metis
    show ?thesis
    proof (cases "caller True q (peers st ! ?i)")
      case (Inl x)
      with st' True have x: "x \<noteq> Blocked" "st' = st\<lparr>rpc := ?s\<lparr>crashed := Some x\<rparr>\<rparr>" by (auto simp: concludes_def split: if_splits)
      have "act_step (guarded strict) c (c1\<lparr>failed := Some x\<rparr>)"
        by (intro del deliver_caller(2)) (use Inl x c1 q in simp_all)
      moreover have "shows_as cd st' (c1\<lparr>failed := Some x\<rparr>)" by (simp add: shows_as_def x c1)
      moreover have "stack_inv cd e n st'" using assms(3) by (simp add: stack_inv_def x)
      ultimately show ?thesis unfolding simulated_def by (blast intro: steps_one)
    next
      case (Inr rf)
      with st' True have e: "st' = (setPeer ?i rf st)\<lparr>callers := (callers st)[k := (p, True)]\<rparr>" by (simp add: concludes_def)
      from deliver_caller(1) [of q c1 rf] Inr c1 obtain h where
        h: "doPacket q c1 = Some (c1\<lparr>nodes := (nodes c1)[?i := rf], hist := h\<rparr>)" by auto
      let ?c2 = "c1\<lparr>nodes := (nodes c1)[?i := rf], hist := h\<rparr>"
      have inv: "stack_inv cd e n st'" by (rule u(1)) (simp_all add: e setPeer_def)
      have "wires cd st' = wiresBefore cd k st @ onWire cd ?c (p, True) @ wiresAfter cd k st"
        by (rule u(2)) (simp_all add: e setPeer_def)
      then have "shows_as cd st' ?c2" using assms(2) c1 ow(2) by (simp add: shows_as_def e setPeer_def)
      with inv del [OF h] show ?thesis unfolding simulated_def by (blast intro: steps_one)
    qed
  qed
qed

text \<open>A section of one peer, with nothing sent or with new calls.\<close>

lemma sim_put:
  assumes "shows_as cd st c" and "crashed (rpc st) = None" and "stack_inv cd e n st"
    and "\<exists>c'. guarded strict a c = Some c' \<and> nodes c' = (nodes c)[i := rf] \<and> cluster.net c' = cluster.net c \<and> failed c' = None"
  shows "simulated strict cd e n c (setPeer i rf st)"
proof -
  from assms(4) obtain c' where c': "guarded strict a c = Some c'" "nodes c' = (nodes c)[i := rf]" "cluster.net c' = cluster.net c"
    "failed c' = None" by blast
  have "stack_inv cd e n (setPeer i rf st)" using assms(3) by (simp add: stack_inv_def setPeer_def)
  moreover have "shows_as cd (setPeer i rf st) c'"
    using assms(1,2) c' by (simp add: shows_as_def setPeer_def wires_def)
  ultimately show ?thesis unfolding simulated_def using c'(1) by (blast intro: steps_one act_stepI)
qed

lemma sim_crash:
  assumes "shows_as cd st c" and "stack_inv cd e n st"
    and "\<exists>c'. guarded strict a c = Some c' \<and> nodes c' = nodes c \<and> failed c' = Some x"
  shows "simulated strict cd e n c (st\<lparr>rpc := (rpc st)\<lparr>crashed := Some x\<rparr>\<rparr>)"
proof -
  from assms(3) obtain c' where c': "guarded strict a c = Some c'" "nodes c' = nodes c" "failed c' = Some x" by blast
  have "stack_inv cd e n (st\<lparr>rpc := (rpc st)\<lparr>crashed := Some x\<rparr>\<rparr>)" using assms(2) by (simp add: stack_inv_def)
  moreover have "shows_as cd (st\<lparr>rpc := (rpc st)\<lparr>crashed := Some x\<rparr>\<rparr>) c'" using assms(1) c' by (simp add: shows_as_def)
  ultimately show ?thesis unfolding simulated_def using c'(1) by (blast intro: steps_one act_stepI)
qed

lemma concludes_cases:
  assumes "concludes st m f = Some st'"
  obtains x where "m = Inr x" "f x = Some st'"
  | x where "m = Inl x" "x \<noteq> Blocked" "st' = st\<lparr>rpc := (rpc st)\<lparr>crashed := Some x\<rparr>\<rparr>"
  using assms by (auto simp: concludes_def split: sum.splits if_splits)

lemma sim_local:
  assumes "shows_as cd st c" and "crashed (rpc st) = None" and "stack_inv cd e n st" and "localStep a st = Some st'"
  shows "simulated strict cd e n c st'"
proof -
  have nodes: "nodes c = peers st" and fc: "failed c = None" using assms(1,2) by (simp_all add: shows_as_def)
  note put = sim_put [OF assms(1-3)] and crash = sim_crash [OF assms(1,3)]
  note defs = localStep_def Let_def guarded_same timely_act_def timely_def cluster_act_def cluster_step_def nodes fc setNode_def
  show ?thesis
  proof (cases a)
    case (Tick i)
    with assms(4) obtain rf where rf: "i < length (peers st)" "tickTop (peers st ! i) = Some rf" "st' = setPeer i rf st"
      by (auto simp: localStep_def Let_def bind_eq_Some_conv split: if_splits)
    then show ?thesis unfolding rf(3)
      by (cases "state (peers st ! i) = CANDIDATE"; intro put [where a = "Tick i"]) (simp_all add: defs doTick_def)
  next
    case (Select i ch)
    with assms(4) obtain rf where rf: "i < length (peers st)" "tickSelect ch (peers st ! i) = Some rf" "st' = setPeer i rf st"
      by (auto simp: localStep_def Let_def bind_eq_Some_conv split: if_splits)
    then show ?thesis unfolding rf(3) by (intro put [where a = "Select i ch"]) (simp_all add: defs doSelect_def)
  next
    case (Apply i)
    let ?rf = "(peers st ! i)\<lparr>appliers := appliers (peers st ! i) - 1\<rparr>"
    from Apply assms(4) have i: "i < length (peers st)" "appliers (peers st ! i) \<noteq> 0"
        "concludes st (applyCommitted ?rf) (\<lambda>rf. Some (setPeer i rf st)) = Some st'"
      by (auto simp: localStep_def Let_def split: if_splits)
    from i(3) show ?thesis
    proof (cases rule: concludes_cases)
      case (1 rf)
      then have st': "st' = setPeer i rf st" by simp
      show ?thesis unfolding st' by (intro put [where a = "Apply i"]) (use 1 i in \<open>simp_all add: defs doApply_def finish_def\<close>)
    next
      case (2 x)
      then show ?thesis unfolding 2(3) by (intro crash [where a = "Apply i"]) (use i in \<open>simp_all add: defs doApply_def finish_def\<close>)
    qed
  next
    case (Submit i cmd)
    from Submit assms(4) have i: "i < length (peers st)"
        "concludes st (Start cmd (peers st ! i)) (\<lambda>(rf, _). Some (setPeer i rf st)) = Some st'"
      by (auto simp: localStep_def Let_def split: if_splits)
    from i(2) show ?thesis
    proof (cases rule: concludes_cases)
      case (1 x)
      obtain rf k t l where x: "x = (rf, k, t, l)" by (cases x)
      then have st': "st' = setPeer i rf st" using 1 by simp
      show ?thesis unfolding st'
        by (intro put [where a = "Submit i cmd"]) (use 1 i x in \<open>simp_all add: defs doSubmit_def finish_def\<close>)
    next
      case (2 x)
      then show ?thesis unfolding 2(3)
        by (intro crash [where a = "Submit i cmd"]) (use i in \<open>simp_all add: defs doSubmit_def finish_def\<close>)
    qed
  qed (use assms(4) in \<open>simp_all add: localStep_def\<close>)
qed

subsection \<open>New calls\<close>

definition newCall :: "'c wire codec \<Rightarrow> (nat \<Rightarrow> nat \<Rightarrow> string) \<Rightarrow> 'c packet \<Rightarrow> 'c wire call" where
  "newCall cd e p = \<lparr>req = the (callReq cd (e (client p) (server p)) (methOf p) (argOf p)), var = New cd (replyType p),
     pc = Sending, job = NoJob\<rparr>"

lemma carried_newCall: "gob_ok cd \<Longrightarrow> carried cd e p (req (newCall cd e p))"
  using gob_encode [of cd "argOf p"] by (auto simp: carried_def callReq_def newCall_def)

lemma issue_all:
  assumes "gob_ok cd" and "crashed (rpc st) = None"
  shows "issue cd e ps st = Some (st\<lparr>rpc := (rpc st)\<lparr>calls := calls (rpc st) @ map (newCall cd e) ps\<rparr>,
    callers := callers st @ map (\<lambda>p. (p, False)) ps\<rparr>)"
  using assms(2)
proof (induction ps arbitrary: st)
  case (Cons p ps)
  obtain q where q: "callReq cd (e (client p) (server p)) (methOf p) (argOf p) = Some q"
    using carried_newCall [OF assms(1)] by (auto simp: carried_def)
  have "rpc_act cd (Call (e (client p) (server p)) (methOf p) (argOf p) (New cd (replyType p))) (rpc st) =
      Some ((rpc st)\<lparr>calls := calls (rpc st) @ [newCall cd e p]\<rparr>)"
    using Cons.prems by (simp add: rpc_act_def q newCall_def)
  then show ?case using Cons by simp
qed simp

lemma sim_issue:
  assumes "shows_as cd st c" and "crashed (rpc st) = None" and "stack_inv cd e n st" and "gob_ok cd"
    and "guarded strict a c = Some c'" and "nodes c' = (nodes c)[i := rf]" and "cluster.net c' = cluster.net c @ ps" and "failed c' = None"
    and "\<forall>p \<in> set ps. isReq p \<and> client p < n \<and> server p < n"
    and "issue cd e ps (setPeer i rf st) = Some st'"
  shows "simulated strict cd e n c st'"
proof -
  let ?s = "(rpc st)\<lparr>world := (peers st)[i := rf], calls := calls (rpc st) @ map (newCall cd e) ps\<rparr>"
  have st': "st' = st\<lparr>rpc := ?s, callers := callers st @ map (\<lambda>p. (p, False)) ps\<rparr>"
    using assms(2,10) issue_all [OF assms(4), of "setPeer i rf st"] by (simp add: setPeer_def)
  have len: "length (callers st) = length (calls (rpc st))" and hp: "length (heap (rpc_state.net (rpc st))) = n"
    using assms(3) by (simp_all add: stack_inv_def wired_def)
  have new: "flight_ok cd e (rpc_state.net (rpc st)) (newCall cd e p) (p, False)" if "p \<in> set ps" for p
    using assms(9) that carried_newCall [OF assms(4)] hp by (auto simp: flight_ok_def newCall_def)
  have "flight_ok cd e (rpc_state.net (rpc st)) ((calls (rpc st) @ map (newCall cd e) ps) ! k)
      ((callers st @ map (\<lambda>p. (p, False)) ps) ! k)" if "k < length (callers st) + length ps" for k
    using assms(3) that len new by (cases "k < length (callers st)") (auto simp: stack_inv_def nth_append)
  then have inv: "stack_inv cd e n st'" using assms(3) len by (simp add: stack_inv_def st')
  have "concat (map (\<lambda>(c, pd). onWire cd c pd) (zip (map (newCall cd e) ps) (map (\<lambda>p. (p, False)) ps))) = ps"
    by (induction ps) (simp_all add: onWire_def newCall_def)
  then have "wires cd st' = wires cd st @ ps" using len by (simp add: wires_def st')
  then have "shows_as cd st' c'" using assms(1,2,6-8) by (simp add: shows_as_def st' same_net_append)
  with inv assms(5) show ?thesis unfolding simulated_def by (blast intro: steps_one act_stepI)
qed

abbreviation timely_reach :: "nat \<Rightarrow> 'c cluster \<Rightarrow> bool" where
  "timely_reach n c \<equiv> reach (\<lambda>c. c = cluster_init n) (act_step timely_act) c"

lemma guarded_reach:
  "reach init (act_step (guarded strict)) c \<Longrightarrow> reach init (act_step timely_act) c"
  by (induction rule: reach.induct) (auto intro: reach_init reach_step act_stepI dest: guarded_timely elim!: act_stepE)

lemma packets_in_range:
  assumes "timely_reach n c" and "p \<in> set (cluster.net c)"
  shows "client p < n" "server p < n"
  using csize.reach_inv [OF assms(1)] election_invD(2) [OF elect.reach_inv [OF assms(1)] assms(2)]
  by (cases p; simp add: size_inv_def)+

lemma sim_sends:
  assumes "shows_as cd st c" and "crashed (rpc st) = None" and "stack_inv cd e n st" and "gob_ok cd" and "timely_reach n c"
    and "concludes st m (\<lambda>x. issue cd e (ps x) (setPeer i rf st)) = Some st'" and "\<And>x p. p \<in> set (ps x) \<Longrightarrow> isReq p"
    and "guarded strict a c = finish c m (\<lambda>x. (setNode i rf c)\<lparr>cluster.net := cluster.net c @ ps x\<rparr>)"
  shows "simulated strict cd e n c st'"
  using assms(6)
proof (cases rule: concludes_cases)
  case (1 x)
  let ?c = "(setNode i rf c)\<lparr>cluster.net := cluster.net c @ ps x\<rparr>"
  have t: "guarded strict a c = Some ?c" using assms(8) 1(1) by (simp add: finish_def)
  then have r: "timely_reach n ?c" using assms(5) by (blast intro: reach_step act_stepI guarded_timely)
  have "\<forall>p \<in> set (ps x). isReq p \<and> client p < n \<and> server p < n" using assms(7) packets_in_range [OF r] by simp
  from sim_issue [OF assms(1-4) t _ _ _ this 1(2)] assms(1,2) show ?thesis by (simp add: setNode_def shows_as_def)
next
  case (2 x)
  then have "guarded strict a c = Some (c\<lparr>failed := Some x\<rparr>)" using assms(8) by (simp add: finish_def)
  then show ?thesis unfolding 2(3) by (intro sim_crash [OF assms(1,3), where a = a]) simp
qed

lemma sim_solicit:
  assumes "shows_as cd st c" and "crashed (rpc st) = None" and "stack_inv cd e n st" and "gob_ok cd" and "timely_reach n c"
    and "i < length (peers st)" and "solicitStep cd e i st = Some st'"
    and "case solicits (peers st ! i) of [] \<Rightarrow> True | t # ts \<Rightarrow> t = currentTerm (peers st ! i)"
  shows "simulated strict cd e n c st'"
proof -
  have nodes: "nodes c = peers st" and fc: "failed c = None" using assms(1,2) by (simp_all add: shows_as_def)
  from assms(7) obtain t ts where ts: "solicits (peers st ! i) = t # ts" by (auto simp: solicitStep_def split: list.splits)
  let ?rf = "(peers st ! i)\<lparr>solicits := ts\<rparr>" and ?ps = "map (\<lambda>(j, a). VoteReq i j a)"
  have s: "concludes st (solicitVotes ?rf) (\<lambda>x. issue cd e (?ps x) (setPeer i ?rf st)) = Some st'"
    using assms(7) by (simp add: solicitStep_def ts Let_def)
  have a: "guarded strict (Solicit i) c = finish c (solicitVotes ?rf) (\<lambda>x. (setNode i ?rf c)\<lparr>cluster.net := cluster.net c @ ?ps x\<rparr>)"
    using assms(6,8) by (simp add: guarded_same timely_act_def timely_def cluster_act_def cluster_step_def doSolicit_def nodes fc ts Let_def)
  show ?thesis by (rule sim_sends [OF assms(1-5) s _ a]) auto
qed

lemma sim_broadcast:
  assumes "shows_as cd st c" and "crashed (rpc st) = None" and "stack_inv cd e n st" and "gob_ok cd" and "timely_reach n c"
    and "i < length (peers st)" and "broadcastStep cd e i st = Some st'"
  shows "simulated strict cd e n c st'"
proof -
  have nodes: "nodes c = peers st" and fc: "failed c = None" using assms(1,2) by (simp_all add: shows_as_def)
  let ?rf = "(peers st ! i)\<lparr>broadcasts := broadcasts (peers st ! i) - 1\<rparr>" and ?ps = "map (\<lambda>(j, a). AppReq i j a)"
  have b: "broadcasts (peers st ! i) \<noteq> 0" and s: "concludes st (broadcastHeartbeat ?rf) (\<lambda>x. issue cd e (?ps x) (setPeer i ?rf st)) = Some st'"
    using assms(7) by (auto simp: broadcastStep_def Let_def split: if_splits)
  have a: "guarded strict (Broadcast i) c = finish c (broadcastHeartbeat ?rf) (\<lambda>x. (setNode i ?rf c)\<lparr>cluster.net := cluster.net c @ ?ps x\<rparr>)"
    using assms(6) b by (simp add: guarded_same timely_act_def timely_def cluster_act_def cluster_step_def doBroadcast_def nodes fc Let_def)
  show ?thesis by (rule sim_sends [OF assms(1-5) s _ a]) auto
qed

lemma sim_rewire:
  assumes "shows_as cd st c" and "crashed (rpc st) = None" and "stack_inv cd e n st"
    and "sameWiring (rpc_state.net (rpc st)) (rpc_state.net s)" and "calls s = calls (rpc st)" and "world s = peers st" and "crashed s = None"
  shows "simulated strict cd e n c (st\<lparr>rpc := s\<rparr>)"
proof -
  have "wired e n (rpc_state.net s)" using assms(3,4) sameWiring_wired by (auto simp: stack_inv_def)
  moreover have "flight_ok cd e (rpc_state.net s) = flight_ok cd e (rpc_state.net (rpc st))"
    using assms(4) by (intro ext flight_ok_heap) (simp add: sameWiring_def)
  ultimately have "stack_inv cd e n (st\<lparr>rpc := s\<rparr>)" using assms(3,5) by (simp add: stack_inv_def)
  moreover have "shows_as cd (st\<lparr>rpc := s\<rparr>) c" using assms(1,2,5-7) by (simp add: shows_as_def wires_def)
  ultimately show ?thesis unfolding simulated_def by blast
qed

text \<open>The guard of a run of the machine, for both kinds of runs.\<close>

definition guarded_stack :: "bool \<Rightarrow> 'c wire codec \<Rightarrow> (nat \<Rightarrow> nat \<Rightarrow> string) \<Rightarrow> 'c sact \<Rightarrow> 'c stack \<Rightarrow> 'c stack option" where
  "guarded_stack strict = (if strict then orderly_stack else timely_stack)"

lemma guarded_stack_timely: "guarded_stack strict cd e a st = Some st' \<Longrightarrow> timely_stack cd e a st = Some st'"
  by (auto simp: guarded_stack_def orderly_stack_def split: if_splits)

lemma handler_in_turn:
  assumes "guarded_stack strict cd e (Rpc HandlerRuns k) st = Some st'" and "isReq (fst (callers st ! k))"
  shows "in_turn strict (fst (callers st ! k)) (wiresBefore cd k st) (peers st)"
  using assms by (auto simp: guarded_stack_def orderly_stack_def in_turn_def split: if_splits prod.splits packet.splits)

lemma resume_in_turn:
  assumes "guarded_stack strict cd e (Resume k) st = Some st'" and "callers st ! k = (VoteReq i j x, False)"
    and "pc (calls (rpc st) ! k) = Returned True (VoteReply r)"
  shows "in_turn strict (VoteRep i j x r) [] (peers st)"
  using assms by (auto simp: guarded_stack_def orderly_stack_def in_turn_def split: if_splits)

lemma stack_sim:
  assumes "gob_ok cd" and "stack_inv cd e n st" and "timely_reach n c" and "shows_as cd st c"
    and "guarded_stack strict cd e a st = Some st'"
  shows "simulated strict cd e n c st'"
proof -
  have ts: "timely_stack cd e a st = Some st'" using assms(5) by (rule guarded_stack_timely)
  then have cr: "crashed (rpc st) = None" and act: "stack_act cd e a st = Some st'"
    by (auto simp: timely_stack_def stack_act_def split: if_splits)
  note act' = act [unfolded stack_act_def] and ctx = assms(4) cr assms(2)
  have len: "length (callers st) = length (calls (rpc st))" using assms(2) by (simp add: stack_inv_def)
  show ?thesis
  proof (cases a)
    case (Local b)
    with act' cr show ?thesis by (auto intro: sim_local [OF ctx])
  next
    case (AskVotes i)
    with act' cr ts show ?thesis
      by (intro sim_solicit [OF ctx assms(1,3), of i]) (auto simp: timely_stack_def split: if_splits)
  next
    case (SendEntries i)
    with act' cr show ?thesis by (intro sim_broadcast [OF ctx assms(1,3), of i]) (auto split: if_splits)
  next
    case (Rpc ca k)
    with act' cr len obtain t where t: "call_step cd ca k (rpc st) = Some t" "st' = st\<lparr>rpc := t\<rparr>" and k: "k < length (callers st)"
      by (auto simp: liftRpc_def rpc_act_def split: if_splits)
    obtain p d where pd: "callers st ! k = (p, d)" by fastforce
    have w: "wired e n (rpc_state.net (rpc st))" and f: "flight_ok cd e (rpc_state.net (rpc st)) (calls (rpc st) ! k) (p, d)"
      using assms(2) k pd by (auto simp: stack_inv_def)
    show ?thesis
    proof (cases "ca = HandlerRuns")
      case True
      then have "in_turn strict (fst (callers st ! k)) (wiresBefore cd k st) (peers st)"
        using handler_in_turn [of strict cd e k st st'] assms(5) Rpc flight_okD(1) [OF f] pd by simp
      then show ?thesis using sim_handler [OF ctx k assms(1), of t strict] t True by (simp add: call_step_def)
    next
      case False
      from quiet_step [OF w f False t(1)] show ?thesis unfolding t(2) by (intro sim_quiet [OF ctx k]) (simp add: pd)
    qed
  next
    case (Net opn)
    with act' cr have o: "test_op opn (rpc_state.net (rpc st))" by (auto split: if_splits)
    from test_op_wiring [OF this] obtain rn where rn: "net_op opn (rpc_state.net (rpc st)) = Inr rn" "sameWiring (rpc_state.net (rpc st)) rn" by blast
    then have "st' = st\<lparr>rpc := (rpc st)\<lparr>rpc_state.net := rn\<rparr>\<rparr>" using Net act' cr o by (auto simp: liftRpc_def rpc_act_def)
    then show ?thesis using rn(2) cr by (auto intro: sim_rewire [OF ctx])
  next
    case Exit
    with act' cr have "st' = st\<lparr>rpc := (rpc st)\<lparr>looping := False\<rparr>\<rparr>" by (auto simp: liftRpc_def rpc_act_def split: if_splits)
    then show ?thesis using cr by (auto intro: sim_rewire [OF ctx])
  next
    case (Resume k)
    have "length (nodes c) = n" using csize.reach_inv [OF assms(3)] by (simp add: size_inv_def)
    then have b: "\<forall>i < n. base_ok (rlog (peers st ! i))"
      using log_invD(1) [of c] rlogs.reach_inv [OF assms(3)] assms(4) by (auto simp: log_election_inv_def shows_as_def agrees_def)
    have r: "k < length (callers st)" "resumeStep k st = Some st'" using Resume act' cr by (auto split: if_splits)
    show ?thesis by (rule sim_resume [OF ctx r(1) b r(2)]) (use resume_in_turn assms(5) Resume in blast)
  qed
qed

section \<open>Where a test starts\<close>

text \<open>\<open>make_config\<close> starts the servers in turn: server \<open>j\<close> is the object at address \<open>j\<close>, with a new peer.\<close>

definition started :: "(nat \<Rightarrow> string list) \<Rightarrow> nat \<Rightarrow> nat \<Rightarrow> ('c, 'c wire, 'c Raft list) config \<Rightarrow> bool" where
  "started names n k cfg \<longleftrightarrow> conn_inv cfg \<and> cfn cfg = n \<and> length (saved cfg) = n \<and> length (heap (cfnet cfg)) = k \<and>
     (\<forall>j < k. heap (cfnet cfg) ! j = raftServer j \<and> servers (cfnet cfg) (int j) = Some j \<and>
        rafts cfg ! j = Some (Make n j MakePersister) \<and> endnames cfg ! j = Some (names j)) \<and>
     (\<forall>j < n. k \<le> j \<longrightarrow> rafts cfg ! j = None \<and> saved cfg ! j = None) \<and> logs cfg = replicate n (\<lambda>_. None)"

lemma crash1_logs [simp]: "logs (crash1 i cfg) = logs cfg"
  by (auto simp: crash1_def disconnect_def Let_def split: option.splits)

lemma makeEnds_heap: "makeEnds j es rn = Inr rn' \<Longrightarrow> heap rn' = heap rn"
proof (induction es arbitrary: j rn)
  case (Cons e es)
  then obtain rn1 where "MakeEnd e rn = Inr rn1" "makeEnds (Suc j) es (Connect e (int j) rn1) = Inr rn'" by (auto simp: go_bind_Inr_iff)
  with Cons.IH [of "Suc j" "Connect e (int j) rn1"] show ?case by (auto simp: MakeEnd_def Connect_def split: if_splits)
qed simp

lemma disconnect_heap [simp]: "heap (cfnet (disconnect i cfg)) = heap (cfnet cfg)"
  by (simp add: disconnect_def Let_def)

lemma me_Make [simp]: "me (Make n i ps) = i"
  by (auto simp: Make_def Let_def persist_def readPersist_def split: list.splits gob_item.splits)

lemma crash1_fresh:
  assumes "rafts cfg ! i = None" and "saved cfg ! i = None" and "i < length (saved cfg)"
  shows "saved (crash1 i cfg) = saved cfg"
  using assms by (auto simp: crash1_def Let_def savedOf_def list_eq_iff_nth_eq nth_list_update split: option.splits)

lemma start_fresh:
  assumes "started names n k cfg" and "k < n" and "length (names k) = n" and "start1 serverOf k (names k) cfg = Inr cf'"
  shows "started names n (Suc k) cf'"
proof -
  note s = assms(1) [unfolded started_def]
  have fresh: "rafts cfg ! k = None" "saved cfg ! k = None" and len: "length (saved cfg) = n" "cfn cfg = n" "length (rafts cfg) = n"
      "length (endnames cfg) = n" "length (heap (cfnet cfg)) = k"
    using s assms(2) by (auto simp: conn_inv_def)
  let ?cf = "crash1 k cfg" and ?rf = "Make n k MakePersister :: 'a Raft"
  have sv: "saved ?cf = saved cfg" using fresh len assms(2) by (intro crash1_fresh) simp_all
  from assms(4) obtain rn where rn: "makeEnds 0 (names k) (cfnet ?cf) = Inr rn"
    by (auto simp: start1_def Let_def go_bind_Inr_iff)
  have h: "heap rn = heap (cfnet cfg)" using makeEnds_heap [OF rn] by (simp add: DeleteServer_def)
  have srv: "servers rn = (servers (cfnet cfg))(int k := None)" using makeEnds_spec [OF rn] by (simp add: DeleteServer_def)
  have cf': "cfn cf' = n" "length (saved cf') = n" "saved cf' = (saved cfg)[k := Some MakePersister]"
      "rafts cf' = (rafts cfg)[k := Some ?rf]" "endnames cf' = (endnames cfg)[k := Some (names k)]"
      "heap (cfnet cf') = heap (cfnet cfg) @ [raftServer k]" "servers (cfnet cf') = (servers rn)(int k := Some k)" "logs cf' = logs cfg"
    using assms(4) rn sv len assms(2) fresh
    by (auto simp: start1_def Let_def AddServer_def h serverOf_def)
  have "conn_inv cf'" using start1_inv [OF _ _ _ assms(4)] s assms(2,3) by simp
  moreover have "heap (cfnet cf') ! j = raftServer j \<and> servers (cfnet cf') (int j) = Some j \<and>
      rafts cf' ! j = Some (Make n j MakePersister) \<and> endnames cf' ! j = Some (names j)" if "j < Suc k" for j
    using s that len assms(2) by (cases "j = k") (auto simp: cf' srv nth_append nth_list_update)
  ultimately show ?thesis using s cf' len assms(2) unfolding started_def by (auto simp: nth_list_update)
qed

lemma startAll_started:
  assumes "started names n k cfg" and "k \<le> n" and "\<forall>i < n. length (names i) = n"
    and "startAll serverOf (map (\<lambda>i. (i, names i)) [k..<n]) cfg = Inr cf'"
  shows "started names n n cf'"
  using assms(1,2,4)
proof (induction "n - k" arbitrary: k cfg)
  case 0
  then show ?case by simp
next
  case (Suc m)
  then have k: "k < n" by simp
  let ?cf = "cfg\<lparr>logs := (logs cfg)[k := \<lambda>_. None]\<rparr>"
  from Suc.prems(3) k obtain cf1 where 1: "start1 serverOf k (names k) ?cf = Inr cf1"
    "startAll serverOf (map (\<lambda>i. (i, names i)) [Suc k..<n]) cf1 = Inr cf'"
    by (auto simp: upt_conv_Cons go_bind_Inr_iff)
  have "conn_inv ?cf = conn_inv cfg" by (simp add: conn_inv_def names_ok_def end_of_def endName_def)
  moreover have "(replicate n (\<lambda>_. None))[k := \<lambda>_. None] = replicate n (\<lambda>_. None)" using k by (simp add: list_eq_iff_nth_eq nth_list_update)
  ultimately have "started names n k ?cf" using Suc.prems(1) by (simp add: started_def)
  from start_fresh [OF this k _ 1(1)] assms(3) k have "started names n (Suc k) cf1" by simp
  with Suc.hyps(1) [of "Suc k" cf1] Suc.hyps(2) k 1(2) show ?case by simp
qed

lemma connectAll_started:
  assumes "started names n n cfg" and "\<forall>i \<in> set is. i < n" and "connectAll is cfg = Inr cf'"
  shows "started names n n cf'"
  using assms
proof (induction "is" arbitrary: cfg)
  case (Cons i "is")
  then obtain cf1 where c: "connect i cfg = Inr cf1" "connectAll is cf1 = Inr cf'" by (auto simp: go_bind_Inr_iff)
  from connect_names [OF c(1)] obtain es where "cf1 = cfg\<lparr>connected := (connected cfg)[i := True], cfnet := enableAll True es (cfnet cfg)\<rparr>" by blast
  moreover have "conn_inv cf1" using connect_inv [OF _ _ c(1)] Cons.prems(1,2) by (simp add: started_def)
  ultimately have "started names n n cf1" using Cons.prems(1) by (simp add: started_def)
  with Cons c(2) show ?case by simp
qed simp

lemma config_started:
  assumes "make_config serverOf n unreliable names = Inr cfg" and "\<forall>i < n. length (names i) = n"
  shows "started names n n cfg"
proof -
  from assms(1) obtain cf1 where c: "startAll serverOf (map (\<lambda>i. (i, names i)) [0..<n]) (empty_config n unreliable) = Inr cf1"
    "connectAll [0..<n] cf1 = Inr cfg" by (auto simp: make_config_def go_bind_Inr_iff)
  have "started names n 0 (empty_config n unreliable)"
    using empty_config_inv [OF refl, of n unreliable]
    by (simp add: started_def) (simp add: empty_config_def MakeNetwork_def Reliable_def LongDelays_def)
  from startAll_started [OF this _ assms(2) c(1)] connectAll_started [OF _ _ c(2)] show ?thesis by simp
qed

lemma started_end:
  assumes "started names n n cfg" and "i < n" and "j < n"
  shows "end_of cfg i j (endOf cfg i j)"
proof -
  have en: "endnames cfg ! i = Some (names i)" and inv: "conn_inv cfg" and n: "cfn cfg = n" using assms(1,2) by (simp_all add: started_def)
  then have "length (names i) = n" using assms(2) by (simp add: conn_inv_def)
  with en n assms(2,3) show ?thesis by (simp add: end_of_def endOf_def endName_def)
qed

lemma started_wired: "started names n n cfg \<Longrightarrow> wired (endOf cfg) n (cfnet cfg)"
proof -
  assume s: "started names n n cfg"
  have "connections (cfnet cfg) (endOf cfg i j) = Some (int j)" if "i < n" "j < n" for i j
    using started_end [OF s that] s unfolding started_def conn_inv_def names_ok_def by blast
  moreover have "\<exists>m. raftServer j = (raftServer j)\<lparr>srv_count := m\<rparr>" for j
    by (intro exI [of _ 0]) (simp add: raftServer_def AddService_def MakeServer_def)
  ultimately show ?thesis using s unfolding started_def wired_def by auto
qed

lemma stack_start_inv:
  assumes "started names n n cfg"
  shows "stack_inv cd (endOf cfg) n (stack_start cfg)" "shows_as cd (stack_start cfg) (cluster_init n)"
proof -
  show "stack_inv cd (endOf cfg) n (stack_start cfg)"
    using started_wired [OF assms] by (simp add: stack_inv_def stack_start_def rpc_init_def)
  have "length (rafts cfg) = n" using assms by (simp add: started_def conn_inv_def)
  then have "map the (rafts cfg) = map (\<lambda>i. Make n i MakePersister) [0..<n]"
    using assms by (intro nth_equalityI) (simp_all add: started_def)
  then show "shows_as cd (stack_start cfg) (cluster_init n)"
    by (simp add: shows_as_def stack_start_def rpc_init_def cluster_init_def wires_def same_net_def)
qed

section \<open>Raft over the network\<close>

text \<open>The simulation relation, with what the simulation needs of the two sides.\<close>

definition implements :: "'c wire codec \<Rightarrow> (nat \<Rightarrow> nat \<Rightarrow> string) \<Rightarrow> nat \<Rightarrow> 'c stack \<Rightarrow> 'c cluster \<Rightarrow> bool" where
  "implements cd e n st c \<longleftrightarrow> gob_ok cd \<and> stack_inv cd e n st \<and> timely_reach n c \<and> shows_as cd st c"

lemma guarded_steps: "(act_step (guarded strict))\<^sup>*\<^sup>* c c' \<Longrightarrow> (act_step timely_act)\<^sup>*\<^sup>* c c'"
  by (induction rule: rtranclp_induct) (auto elim!: act_stepE dest: guarded_timely intro: act_stepI rtranclp.rtrancl_into_rtrancl)

interpretation over_rpc: forward_simulation "act_step (guarded_stack strict cd e)" "act_step (guarded strict)" "implements cd e n"
  for strict cd e n
proof
  show "\<exists>b. (act_step (guarded strict))\<^sup>*\<^sup>* c b \<and> implements cd e n st' b"
    if "implements cd e n st c" and "act_step (guarded_stack strict cd e) st st'" for st st' c
  proof -
    from that(2) obtain a where "guarded_stack strict cd e a st = Some st'" by (auto elim: act_stepE)
    with that(1) stack_sim obtain b where b: "stack_inv cd e n st'" "(act_step (guarded strict))\<^sup>*\<^sup>* c b" "shows_as cd st' b"
      unfolding implements_def simulated_def by metis
    with that(1) reach_steps [OF guarded_steps [OF b(2)]] show ?thesis unfolding implements_def by blast
  qed
qed

lemma stack_implements:
  assumes "make_config serverOf n unreliable names = Inr cfg" and "\<forall>i < n. length (names i) = n" and "gob_ok cd"
    and "reach (\<lambda>s. s = stack_start cfg) (act_step (guarded_stack strict cd (endOf cfg))) st"
  shows "\<exists>c. reach (\<lambda>c. c = cluster_init n) (act_step (guarded strict)) c \<and> implements cd (endOf cfg) n st c"
proof (rule over_rpc.reach_simulated [OF assms(4)])
  have "implements cd (endOf cfg) n (stack_start cfg) (cluster_init n)"
    using stack_start_inv [OF config_started [OF assms(1,2)]] assms(3) by (simp add: implements_def reach_init)
  then show "\<exists>a. a = cluster_init n \<and> implements cd (endOf cfg) n s a" if "s = stack_start cfg" for s
    using that by blast
qed

end
