(* ===== verification/RaftTested.thy ===== *)
theory RaftTested
  imports RaftOverRpc
begin

text \<open>
  What the tests of \<^verbatim>\<open>lab3/raft\<close> see: a configuration made by \<open>make_config\<close>, whose peers (\<^verbatim>\<open>raft.go\<close>) call each other over
  \<^verbatim>\<open>labrpc.go\<close> while the tests disconnect servers and change the settings of the network, and the readers of the apply
  channels (\<^verbatim>\<open>config.go\<close>).  The conclusions for the cluster are carried over by the simulation of \<open>RaftOverRpc\<close>.  A concrete encoding of
  the messages shows that what is assumed of \<open>encoding/gob\<close> can be had.
\<close>

section \<open>The readers of the apply channels accept\<close>

lemma indices_at:
  assumes "map CommandIndex xs = map int [1..<Suc k]" and "p < length xs"
  shows "CommandIndex (xs ! p) = int (Suc p)"
proof -
  have "length xs = k" using arg_cong [OF assms(1), of length] by simp
  with assms show ?thesis using nth_map [of p xs CommandIndex] by (simp del: upt_Suc)
qed

text \<open>Each reader has taken some of the messages of its peer, in their order; the readers take the lock in any order.\<close>

definition taken :: "nat \<Rightarrow> (nat \<Rightarrow> 'c ApplyMsg list) \<Rightarrow> (nat \<times> 'c ApplyMsg) list \<Rightarrow> bool" where
  "taken n sent ms \<longleftrightarrow> (\<forall>x \<in> set ms. fst x < n) \<and> (\<forall>i < n. prefix (map snd (filter (\<lambda>x. fst x = i) ms)) (sent i))"

lemma taken_snoc: "taken n sent (ms @ [x]) \<Longrightarrow> taken n sent ms"
  by (auto simp: taken_def dest: append_prefixD split: if_splits)

lemma taken_at:
  assumes "taken n sent ms" and "(i, m) \<in> set ms"
  shows "i < n \<and> (\<exists>p < length (sent i). m = sent i ! p)"
proof -
  have i: "i < n" using assms by (force simp: taken_def)
  have "m \<in> set (map snd (filter (\<lambda>x. fst x = i) ms))" using assms(2) by force
  moreover have "prefix (map snd (filter (\<lambda>x. fst x = i) ms)) (sent i)" using assms(1) i by (simp add: taken_def)
  ultimately have "m \<in> set (sent i)" by (blast dest: set_mono_prefix)
  with i show ?thesis by (auto simp: in_set_conv_nth)
qed

lemma taken_agreeing:
  assumes "taken n sent ms" and "\<forall>i < n. map CommandIndex (sent i) = map int [1..<Suc (k i)]"
    and "\<forall>i < n. \<forall>j < n. prefix (sent i) (sent j) \<or> prefix (sent j) (sent i)"
  shows "agreeing ms"
  unfolding agreeing_def
proof (intro ballI impI)
  fix x y assume xy: "x \<in> set ms" "y \<in> set ms" and same: "CommandIndex (snd x) = CommandIndex (snd y)"
  obtain i a j b where e: "x = (i, a)" "y = (j, b)" by fastforce
  from taken_at [OF assms(1), of i a] xy e obtain p where p: "i < n" "p < length (sent i)" "a = sent i ! p" by auto
  from taken_at [OF assms(1), of j b] xy e obtain q where q: "j < n" "q < length (sent j)" "b = sent j ! q" by auto
  have "CommandIndex a = int (Suc p)" "CommandIndex b = int (Suc q)"
    using indices_at [OF assms(2) [rule_format, OF p(1)] p(2)] indices_at [OF assms(2) [rule_format, OF q(1)] q(2)] p(3) q(3) by simp_all
  then have "p = q" using same e by simp
  moreover have "prefix (sent i) (sent j) \<or> prefix (sent j) (sent i)" using assms(3) p(1) q(1) by blast
  ultimately have "a = b" using p q by (auto simp: prefix_def nth_append)
  then show "am_Command (snd x) = am_Command (snd y)" by (simp add: e)
qed

lemma taken_ordered:
  assumes "taken n sent ms" and "\<forall>i < n. map CommandIndex (sent i) = map int [1..<Suc (k i)]"
  shows "ordered (rev ms)"
  using assms(1)
proof (induction ms rule: rev_induct)
  case (snoc x ms)
  obtain i m where x: "x = (i, m)" by fastforce
  let ?f = "\<lambda>ms. map snd (filter (\<lambda>x. fst x = i) ms)"
  have i: "i < n" using snoc.prems x by (simp add: taken_def)
  have pre: "prefix (?f ms @ [m]) (sent i)" using snoc.prems i x by (force simp: taken_def)
  let ?p = "length (?f ms)"
  have at: "sent i ! q = (?f ms @ [m]) ! q" "q < length (sent i)" if "q \<le> ?p" for q
    using pre that by (auto simp: prefix_def nth_append)
  have ix: "CommandIndex (sent i ! q) = int (Suc q)" if "q \<le> ?p" for q using indices_at assms(2) i at(2) [OF that] by blast
  have m: "CommandIndex m = int (Suc ?p)" using ix [of ?p] at(1) [of ?p] by (simp add: nth_append)
  have "\<exists>y \<in> set ms. fst y = i \<and> CommandIndex (snd y) = CommandIndex m - 1" if big: "1 < CommandIndex m"
  proof -
    obtain q where q: "?p = Suc q" using big m by (cases ?p) auto
    then have "?f ms ! q \<in> set (?f ms)" by (intro nth_mem) simp
    moreover have "CommandIndex (?f ms ! q) = CommandIndex m - 1" using ix [of q] at(1) [of q] q m by (simp add: nth_append)
    ultimately show ?thesis by force
  qed
  with snoc.IH [OF taken_snoc [OF snoc.prems]] x show ?case by auto
qed simp

lemma taken_accepted:
  assumes "taken n sent ms" and "\<forall>i < n. map CommandIndex (sent i) = map int [1..<Suc (k i)]"
    and "\<forall>i < n. \<forall>j < n. prefix (sent i) (sent j) \<or> prefix (sent j) (sent i)" and "\<forall>i < n. list_all CommandValid (sent i)"
    and "length (logs cfg) = n" and "applied [] cfg"
  shows "\<exists>cf'. applyAll ms cfg = Inr cf'"
proof -
  have "\<forall>x \<in> set ms. fst x < length (logs cfg) \<and> CommandValid (snd x)"
  proof
    fix x assume x: "x \<in> set ms"
    obtain i m where e: "x = (i, m)" by fastforce
    with taken_at [OF assms(1)] x obtain p where "i < n" "p < length (sent i)" "m = sent i ! p" by blast
    with assms(4,5) e show "fst x < length (logs cfg) \<and> CommandValid (snd x)" by (simp add: list_all_length)
  qed
  with applyAll_iff [OF assms(6)] taken_agreeing [OF assms(1-3)] taken_ordered [OF assms(1,2)] show ?thesis by blast
qed

section \<open>An encoding of the messages\<close>

text \<open>Numbers in unary, between a sign and a zero byte; a list after its length.  Only that it can be decoded matters.\<close>

definition encInt :: "int \<Rightarrow> bytes" where
  "encInt i = (if i < 0 then 1 else 0) # replicate (nat \<bar>i\<bar>) 1 @ [0]"

definition decInt :: "bytes \<Rightarrow> (int \<times> bytes) option" where
  "decInt bs = (case bs of
     [] \<Rightarrow> None
   | s # rest \<Rightarrow>
       let m = length (takeWhile (\<lambda>b. b = 1) rest) in
       if m < length rest then Some (if s = 1 then - int m else int m, drop (Suc m) rest) else None)"

lemma takeWhile_ones: "takeWhile (\<lambda>b. b = 1) (replicate m 1 @ (0 :: 8 word) # rest) = replicate m 1"
  by (induction m) auto

lemma decInt_encInt [simp]: "decInt (encInt i @ rest) = Some (i, rest)"
  by (simp add: decInt_def encInt_def takeWhile_ones Let_def)

definition encBool :: "bool \<Rightarrow> bytes" where
  "encBool b = encInt (if b then 1 else 0)"

definition decBool :: "bytes \<Rightarrow> (bool \<times> bytes) option" where
  "decBool bs = map_option (\<lambda>(i, rest). (i = 1, rest)) (decInt bs)"

lemma decBool_encBool [simp]: "decBool (encBool b @ rest) = Some (b, rest)"
  by (simp add: decBool_def encBool_def)

text \<open>A log entry: a missing command is a negative number.\<close>

definition encEntry :: "nat LogElement \<Rightarrow> bytes" where
  "encEntry e = encInt (le_Term e) @ encInt (case le_Command e of None \<Rightarrow> -1 | Some n \<Rightarrow> int n) @ encInt (le_Index e)"

definition decEntry :: "bytes \<Rightarrow> (nat LogElement \<times> bytes) option" where
  "decEntry bs =
     Option.bind (decInt bs) (\<lambda>(t, bs). Option.bind (decInt bs) (\<lambda>(n, bs). Option.bind (decInt bs) (\<lambda>(i, bs).
       Some (\<lparr>le_Term = t, le_Command = (if n < 0 then None else Some (nat n)), le_Index = i\<rparr>, bs))))"

lemma decEntry_encEntry [simp]: "decEntry (encEntry e @ rest) = Some (e, rest)"
  by (cases e) (auto simp: decEntry_def encEntry_def split: option.split)

fun decEntries :: "nat \<Rightarrow> bytes \<Rightarrow> (nat LogElement list \<times> bytes) option" where
  "decEntries 0 bs = Some ([], bs)"
| "decEntries (Suc m) bs =
     Option.bind (decEntry bs) (\<lambda>(e, bs). Option.bind (decEntries m bs) (\<lambda>(es, bs). Some (e # es, bs)))"

lemma decEntries_encEntries [simp]: "decEntries (length es) (concat (map encEntry es) @ rest) = Some (es, rest)"
  by (induction es) simp_all

fun encWire :: "nat wire \<Rightarrow> bytes" where
  "encWire (VoteArgs a) = encInt (rv_Term a) @ encInt (int (IDcand a)) @ encInt (LastLogIdx a) @ encInt (LastLogTerm a)"
| "encWire (VoteReply r) = encInt (rvr_Term r) @ encBool (VoteGranted r)"
| "encWire (AppendArgs a) = encInt (ae_Term a) @ encInt (int (LeaderId a)) @ encInt (PrevLogIdx a) @ encInt (PrevLogTerm a) @
     encInt (LeaderCommit a) @ encInt (int (length (Entries a))) @ concat (map encEntry (Entries a))"
| "encWire (AppendReply r) = encInt (aer_Term r) @ encBool (Success r) @ encInt (NextTryIdx r)"

definition ints :: "nat \<Rightarrow> bytes \<Rightarrow> (int list \<times> bytes) option" where
  "ints m bs = (((\<lambda>x. Option.bind x (\<lambda>(is, bs). map_option (\<lambda>(i, bs). (is @ [i], bs)) (decInt bs))) ^^ m) (Some ([], bs)))"

fun decWire :: "bytes \<Rightarrow> nat wire \<Rightarrow> nat wire option" where
  "decWire bs (VoteArgs _) = (case ints 4 bs of
     Some ([t, c, i, l], _) \<Rightarrow> Some (VoteArgs \<lparr>rv_Term = t, IDcand = nat c, LastLogIdx = i, LastLogTerm = l\<rparr>) | _ \<Rightarrow> None)"
| "decWire bs (VoteReply _) = Option.bind (decInt bs) (\<lambda>(t, bs). map_option (\<lambda>(g, _). VoteReply \<lparr>rvr_Term = t, VoteGranted = g\<rparr>) (decBool bs))"
| "decWire bs (AppendArgs _) = (case ints 6 bs of
     Some ([t, l, i, p, c, m], bs) \<Rightarrow> map_option (\<lambda>(es, _). AppendArgs \<lparr>ae_Term = t, LeaderId = nat l, PrevLogIdx = i, PrevLogTerm = p,
         Entries = es, LeaderCommit = c\<rparr>) (decEntries (nat m) bs)
   | _ \<Rightarrow> None)"
| "decWire bs (AppendReply _) = Option.bind (decInt bs) (\<lambda>(t, bs). Option.bind (decBool bs) (\<lambda>(s, bs).
     map_option (\<lambda>(n, _). AppendReply \<lparr>aer_Term = t, Success = s, NextTryIdx = n\<rparr>) (decInt bs)))"

fun nameWire :: "nat wire \<Rightarrow> string" where
  "nameWire (VoteArgs _) = ''RequestVoteArgs''"
| "nameWire (VoteReply _) = ''RequestVoteReply''"
| "nameWire (AppendArgs _) = ''AppendEntriesArgs''"
| "nameWire (AppendReply _) = ''AppendEntriesResults''"

definition newWire :: "string \<Rightarrow> nat wire" where
  "newWire s =
     (if s = ''RequestVoteArgs'' then VoteArgs \<lparr>rv_Term = 0, IDcand = 0, LastLogIdx = 0, LastLogTerm = 0\<rparr>
      else if s = ''RequestVoteReply'' then VoteReply \<lparr>rvr_Term = 0, VoteGranted = False\<rparr>
      else if s = ''AppendEntriesArgs'' then
        AppendArgs \<lparr>ae_Term = 0, LeaderId = 0, PrevLogIdx = 0, PrevLogTerm = 0, Entries = [], LeaderCommit = 0\<rparr>
      else AppendReply \<lparr>aer_Term = 0, Success = False, NextTryIdx = 0\<rparr>)"

definition unary_codec :: "nat wire codec" where
  "unary_codec = \<lparr>TypeOf = nameWire, New = newWire, encode = (\<lambda>v. Some (encWire v)), decode = decWire\<rparr>"

lemma ints_Suc: "ints (Suc m) bs = Option.bind (ints m bs) (\<lambda>(is, bs). map_option (\<lambda>(i, bs). (is @ [i], bs)) (decInt bs))"
  by (simp add: ints_def)

lemma ints_0: "ints 0 bs = Some ([], bs)"
  by (simp add: ints_def)

lemma decWire_encWire: "decWire (encWire v) (newWire (nameWire v)) = Some v"
proof (cases v)
  case (VoteArgs a)
  have "ints 4 (encInt i @ encInt j @ encInt k @ encInt l) = Some ([i, j, k, l], [])" for i j k l
    using decInt_encInt [of l "[]"] by (simp add: ints_Suc ints_0 eval_nat_numeral)
  with VoteArgs show ?thesis by (simp add: newWire_def)
next
  case (VoteReply r)
  then show ?thesis using decBool_encBool [of "VoteGranted r" "[]"] by (simp add: newWire_def)
next
  case (AppendArgs a)
  have "ints 6 (encInt i @ encInt j @ encInt k @ encInt l @ encInt m @ encInt n @ rest) = Some ([i, j, k, l, m, n], rest)" for i j k l m n rest
    by (simp add: ints_Suc ints_0 eval_nat_numeral)
  with AppendArgs show ?thesis using decEntries_encEntries [of "Entries a" "[]"] by (simp add: newWire_def)
next
  case (AppendReply r)
  then show ?thesis using decInt_encInt [of "NextTryIdx r" "[]"] by (simp add: newWire_def)
qed

lemma unary_codec_ok: "gob_ok unary_codec"
  using decWire_encWire by (auto simp: gob_ok_def unary_codec_def newWire_def)

section \<open>Calls over a connected network go through\<close>

lemma guarded_rpc:
  assumes "crashed (rpc st) = None" and "rpc_act cd (Step ca k) (rpc st) = Some s"
    and "ca = HandlerRuns \<Longrightarrow> in_turn strict (fst (callers st ! k)) (wiresBefore cd k st) (peers st)"
  shows "guarded_stack strict cd e (Rpc ca k) st = Some (st\<lparr>rpc := s\<rparr>)"
proof -
  have "stack_act cd e (Rpc ca k) st = Some (st\<lparr>rpc := s\<rparr>)" using assms(1,2) by (simp add: stack_act_def liftRpc_def)
  moreover have "case callers st ! k of (AppReq i j x, _) \<Rightarrow> list_all (\<lambda>p. \<not> isCall i j p) (wiresBefore cd k st) | _ \<Rightarrow> True"
    if strict "ca = HandlerRuns"
    using assms(3) [OF that(2)] that(1) by (auto simp: in_turn_def split: packet.splits prod.splits)
  ultimately show ?thesis by (auto simp: guarded_stack_def orderly_stack_def timely_stack_def)
qed

lemma guarded_resume:
  assumes "crashed (rpc st) = None" and "k < length (callers st)" and "callers st ! k = (p, False)"
    and "pc (calls (rpc st) ! k) = Returned True v" and "repPacket cd p m = Some q" and "decode cd (reply m) (New cd (replyType p)) = Some v"
    and "caller True q (peers st ! client p) = Inr rf" and "in_turn strict q [] (peers st)"
  shows "guarded_stack strict cd e (Resume k) st = Some ((setPeer (client p) rf st)\<lparr>callers := (callers st)[k := (p, True)]\<rparr>)"
proof (cases p)
  case (VoteReq i j a)
  with assms(5,6) obtain r where r: "v = VoteReply r" "q = VoteRep i j a r"
    by (auto simp: repPacket_def split: wire.splits)
  with assms(8) have "strict \<Longrightarrow> winsWith a r (peers st ! i) \<longrightarrow> list_all (\<lambda>m. m = 0) (matchIdx (peers st ! i))" by (simp add: in_turn_def)
  with VoteReq r assms(1-4,7) show ?thesis
    by (simp add: guarded_stack_def orderly_stack_def timely_stack_def stack_act_def resumeStep_def concludes_def)
next
  case (AppReq i j a)
  with assms(5,6) obtain r where r: "v = AppendReply r" "q = AppRep i j a r"
    by (auto simp: repPacket_def split: wire.splits)
  with AppReq assms(1-4,7) show ?thesis
    by (simp add: guarded_stack_def orderly_stack_def timely_stack_def stack_act_def resumeStep_def concludes_def)
qed (use assms(5) in \<open>simp_all add: repPacket_def\<close>)

text \<open>The steps of a call that goes through, and of its caller.\<close>

definition full_call :: "nat \<Rightarrow> 'c sact list" where
  "full_call k = [Rpc Receive k, Rpc Lookup k, Rpc Dispatch k, Rpc HandlerRuns k, Rpc TakeReply k, Rpc Decide k, Rpc Return k, Resume k]"

lemma call_steps:
  fixes s :: "('c wire, 'c Raft list) rpc_state" and k :: nat
  defines "S \<equiv> \<lambda>c rn w x. s\<lparr>calls := (calls s)[k := c], rpc_state.net := rn, world := w, execs := x\<rparr>"
  assumes "k < length (calls s)" and "crashed s = None"
  shows "looping s \<Longrightarrow> pc c = Sending \<Longrightarrow> rpc_act cd (Step Receive k) (S c rn w x) =
      Some (S (c\<lparr>pc := Queued\<rparr>) (addBytes (args (req c)) (rn\<lparr>count := count rn + 1\<rparr>)) w x)"
    "pc c = Queued \<Longrightarrow> readEndnameInfo (endname (req c)) rn = (True, Some sn, Some a, rel, lr) \<Longrightarrow>
      rpc_act cd (Step Lookup k) (S c rn w x) = Some (S (c\<lparr>pc := Found sn a rel lr\<rparr>) rn w x)"
    "pc c = Found sn a rel lr \<Longrightarrow>
      rpc_act cd (Step Dispatch k) (S c rn w x) = Some (S (c\<lparr>pc := Waiting sn a rel lr, job := Started a\<rparr>) rn w x)"
    "job c = Started a \<Longrightarrow> Server_dispatch cd (req c) (heap rn ! a) w = Inr (rs, w', r) \<Longrightarrow>
      rpc_act cd (Step HandlerRuns k) (S c rn w x) = Some (S (c\<lparr>job := Finished r\<rparr>) (rn\<lparr>heap := (heap rn)[a := rs]\<rparr>) w'
        (x @ [\<lparr>ex_call = k, ex_srv = a, ex_pre = w, ex_post = w', ex_reply = r\<rparr>]))"
    "pc c = Waiting sn a rel lr \<Longrightarrow> job c = Finished r \<Longrightarrow>
      rpc_act cd (Step TakeReply k) (S c rn w x) = Some (S (c\<lparr>pc := Decided sn a rel lr (Some r)\<rparr>) rn w x)"
    "pc c = Decided sn a rel lr (Some r) \<Longrightarrow> \<not> isServerDead (endname (req c)) sn a rn \<Longrightarrow> rn' = addBytes (reply r) rn \<Longrightarrow>
      rpc_act cd (Step Decide k) (S c rn w x) = Some (S (c\<lparr>pc := Replying r\<rparr>) rn' w x)"
    "pc c = Replying r \<Longrightarrow> ok r \<Longrightarrow> decode cd (reply r) (var c) = Some v \<Longrightarrow>
      rpc_act cd (Step Return k) (S c rn w x) = Some (S (c\<lparr>pc := Returned True v\<rparr>) rn w x)"
  using assms(2,3)
  by (simp_all add: S_def rpc_act_def call_step_def send_step_def process_step_def handler_step_def decide_step_def return_step_def
      setCall_def Let_def)

lemma run_step: "act a s = Some t \<Longrightarrow> run act as t = r \<Longrightarrow> run act (a # as) s = r"
  by simp

lemma wiresBefore_update:
  "calls (rpc st') = (calls (rpc st))[k := c] \<Longrightarrow> callers st' = callers st \<Longrightarrow> wiresBefore cd k st' = wiresBefore cd k st"
  by (simp add: wiresBefore_def take_zip)

text \<open>A request whose caller and addressee are connected, and whose handler and reply neither block nor panic.\<close>

lemma call_completes:
  assumes "stack_inv cd e n st" and "gob_ok cd" and "crashed (rpc st) = None" and "looping (rpc st)"
    and "k < length (callers st)" and "callers st ! k = (p, False)" and "calls (rpc st) ! k = newCall cd e p"
    and "enabled (rpc_state.net (rpc st)) (e (client p) (server p))"
    and "servers (rpc_state.net (rpc st)) (int (server p)) = Some (server p)"
    and "repliesTo p (peers st ! server p) = Inr (rf, v, q)" and "caller True q ((peers st)[server p := rf] ! client p) = Inr rf'"
    and "in_turn strict p (wiresBefore cd k st) (peers st)" and "in_turn strict q [] ((peers st)[server p := rf])"
  obtains st' where "run (guarded_stack strict cd e) (full_call k) st = Some st'"
    "peers st' = (peers st)[server p := rf, client p := rf']" "crashed (rpc st') = None" "looping (rpc st')"
    "callers st' = (callers st)[k := (p, True)]" "length (calls (rpc st')) = length (calls (rpc st))"
    "\<forall>k'. k' \<noteq> k \<longrightarrow> calls (rpc st') ! k' = calls (rpc st) ! k'"
    "enabled (rpc_state.net (rpc st')) = enabled (rpc_state.net (rpc st))"
    "servers (rpc_state.net (rpc st')) = servers (rpc_state.net (rpc st))" "onWire cd (calls (rpc st') ! k) (p, True) = []"
proof -
  let ?s = "rpc st" and ?rn = "rpc_state.net (rpc st)" and ?j = "server p" and ?c = "newCall cd e p"
  let ?S = "\<lambda>c rn w x. ?s\<lparr>calls := (calls ?s)[k := c], rpc_state.net := rn, world := w, execs := x\<rparr>"
  have k: "k < length (calls ?s)" using assms(1,5) by (simp add: stack_inv_def)
  have fl: "flight_ok cd e ?rn ?c (p, False)" and wi: "wired e n ?rn" using assms(1,5-7) by (auto simp: stack_inv_def)
  note f = flight_okD [OF fl]
  have q: "carried cd e p (req ?c)" "endname (req ?c) = e (client p) ?j" using f(4) carried_endname by auto
  obtain rel lr where lk: "readEndnameInfo (endname (req ?c)) ?rn = (True, Some (int ?j), Some ?j, rel, lr)"
    using assms(8,9) wi f(2,3) by (auto simp: readEndnameInfo_def q(2) wired_def)
  obtain m where m: "heap ?rn ! ?j = (raftServer ?j)\<lparr>srv_count := m\<rparr>" using wi f(2) by (auto simp: wired_def)
  let ?r = "\<lparr>ok = True, reply = the (encode cd v)\<rparr>" and ?rs = "(raftServer ?j)\<lparr>srv_count := m + 1\<rparr>" and ?w = "(peers st)[?j := rf]"
  have rp: "repPacket cd p ?r = Some q" by (rule handler_reply [OF assms(2,10)])
  have "TypeOf cd v = replyType p" using assms(2,10) by (cases p) (auto simp: gob_ok_def go_bind_Inr_iff)
  then have dc: "decode cd (reply ?r) (New cd (replyType p)) = Some v" using gob_encode [OF assms(2), of v] by auto
  define rn1 where "rn1 = addBytes (args (req ?c)) (?rn\<lparr>count := count ?rn + 1\<rparr>)"
  define rn2 where "rn2 = rn1\<lparr>heap := (heap rn1)[?j := ?rs]\<rparr>"
  define rn3 where "rn3 = addBytes (reply ?r) rn2"
  define x where "x = execs ?s @ [\<lparr>ex_call = k, ex_srv = ?j, ex_pre = peers st, ex_post = ?w, ex_reply = ?r\<rparr>]"
  define c1 where "c1 = ?c\<lparr>pc := Waiting (int ?j) ?j rel lr, job := Started ?j\<rparr>"
  define c2 where "c2 = ?c\<lparr>pc := Returned True v, job := Finished ?r\<rparr>"
  have net1: "readEndnameInfo z rn1 = readEndnameInfo z ?rn" "heap rn1 = heap ?rn" "enabled rn1 = enabled ?rn" "servers rn1 = servers ?rn" for z
    by (simp_all add: rn1_def addBytes_def readEndnameInfo_def Let_def split: option.split)
  have "(calls ?s)[k := ?c] = calls ?s" by (simp flip: assms(7))
  then have start: "?s = ?S ?c ?rn (peers st) (execs ?s)" by simp
  have dis: "Server_dispatch cd (req c1) (heap rn1 ! ?j) (peers st) = Inr (?rs, ?w, ?r)"
    using raft_dispatch [OF assms(2) f(1) q(1), where j = ?j and m = m and w = "peers st"] assms(10) m by (simp add: c1_def net1)
  have dead: "\<not> isServerDead (endname (req c2)) (int ?j) ?j rn2" using assms(8,9) by (simp add: isServerDead_def c2_def q(2) rn2_def net1)
  define t where "t = ?S c2 rn3 ?w x"
  note cs = call_steps [OF k assms(3), where cd = cd]
  have steps: "rpc_act cd (Step Receive k) ?s = Some (?S (?c\<lparr>pc := Queued\<rparr>) rn1 (peers st) (execs ?s))"
    "rpc_act cd (Step Lookup k) (?S (?c\<lparr>pc := Queued\<rparr>) rn1 (peers st) (execs ?s)) =
      Some (?S (?c\<lparr>pc := Found (int ?j) ?j rel lr\<rparr>) rn1 (peers st) (execs ?s))"
    "rpc_act cd (Step Dispatch k) (?S (?c\<lparr>pc := Found (int ?j) ?j rel lr\<rparr>) rn1 (peers st) (execs ?s)) = Some (?S c1 rn1 (peers st) (execs ?s))"
    "rpc_act cd (Step HandlerRuns k) (?S c1 rn1 (peers st) (execs ?s)) = Some (?S (c1\<lparr>job := Finished ?r\<rparr>) rn2 ?w x)"
    "rpc_act cd (Step TakeReply k) (?S (c1\<lparr>job := Finished ?r\<rparr>) rn2 ?w x) =
      Some (?S (c1\<lparr>job := Finished ?r, pc := Decided (int ?j) ?j rel lr (Some ?r)\<rparr>) rn2 ?w x)"
    "rpc_act cd (Step Decide k) (?S (c1\<lparr>job := Finished ?r, pc := Decided (int ?j) ?j rel lr (Some ?r)\<rparr>) rn2 ?w x) =
      Some (?S (c1\<lparr>job := Finished ?r, pc := Replying ?r\<rparr>) rn3 ?w x)"
    "rpc_act cd (Step Return k) (?S (c1\<lparr>job := Finished ?r, pc := Replying ?r\<rparr>) rn3 ?w x) = Some t"
    subgoal by (subst start, subst cs(1)) (simp_all add: assms(4) rn1_def newCall_def)
    subgoal using lk by (subst cs(2)) (simp_all add: net1)
    subgoal by (subst cs(3)) (simp_all add: c1_def newCall_def)
    subgoal by (subst cs(4) [OF _ dis]) (simp_all add: c1_def rn2_def x_def)
    subgoal by (subst cs(5)) (simp_all add: c1_def)
    subgoal using dead by (subst cs(6) [OF _ _ rn3_def]) (simp_all add: c1_def c2_def)
    subgoal using dc by (subst cs(7) [where r = ?r and v = v]) (simp_all add: c1_def c2_def t_def newCall_def)
    done
  have go: "guarded_stack strict cd e (Rpc ca k) (st\<lparr>rpc := ?S c rn w y\<rparr>) = Some (st\<lparr>rpc := s\<rparr>)"
    if "rpc_act cd (Step ca k) (?S c rn w y) = Some s" and "ca = HandlerRuns \<Longrightarrow> w = peers st" for ca c rn w y s
  proof -
    let ?u = "st\<lparr>rpc := ?S c rn w y\<rparr>"
    have "wiresBefore cd k ?u = wiresBefore cd k st" by (rule wiresBefore_update) simp_all
    then have "in_turn strict (fst (callers ?u ! k)) (wiresBefore cd k ?u) (peers ?u)" if "ca = HandlerRuns"
      using assms(6,12) \<open>ca = HandlerRuns \<Longrightarrow> w = peers st\<close> [OF that] by simp
    then have "guarded_stack strict cd e (Rpc ca k) ?u = Some (?u\<lparr>rpc := s\<rparr>)"
      using that(1) assms(3) by (intro guarded_rpc) simp_all
    then show ?thesis by simp
  qed
  have one: "guarded_stack strict cd e (Rpc Receive k) st = Some (st\<lparr>rpc := ?S (?c\<lparr>pc := Queued\<rparr>) rn1 (peers st) (execs ?s)\<rparr>)"
    by (rule guarded_rpc [OF assms(3) steps(1)]) simp
  have last: "guarded_stack strict cd e (Resume k) (st\<lparr>rpc := t\<rparr>) =
      Some ((setPeer (client p) rf' (st\<lparr>rpc := t\<rparr>))\<lparr>callers := (callers st)[k := (p, True)]\<rparr>)"
    using assms(3,5,6,11,13) k by (intro guarded_resume [OF _ _ _ _ rp dc, THEN trans]) (simp_all add: t_def c2_def)
  let ?st = "(setPeer (client p) rf' (st\<lparr>rpc := t\<rparr>))\<lparr>callers := (callers st)[k := (p, True)]\<rparr>"
  have "run (guarded_stack strict cd e) (full_call k) st = Some ?st"
    unfolding full_call_def
    by (rule run_step, rule one, (rule run_step, rule go, rule steps(2-), simp)+, rule run_step, rule last, simp)
  then show thesis
    by (rule that) (use assms(3,4) k in \<open>simp_all add: setPeer_def t_def c2_def onWire_def rn3_def rn2_def net1 addBytes_def\<close>)
qed

subsection \<open>Undisturbed runs\<close>

text \<open>Peers that call each other as if the handlers were called directly: the state is the peers and the calls that were made, with whether they
  are done.\<close>

datatype 'c move = Peer "'c cact" | Ask nat | Send nat | Through nat

fun peerStep :: "'c cact \<Rightarrow> 'c Raft list \<Rightarrow> 'c Raft list option" where
  "peerStep (Tick i) w = (if i < length w then map_option (\<lambda>rf. w[i := rf]) (tickTop (w ! i)) else None)"
| "peerStep (Select i ch) w = (if i < length w then map_option (\<lambda>rf. w[i := rf]) (tickSelect ch (w ! i)) else None)"
| "peerStep (Apply i) w =
     (if i < length w \<and> appliers (w ! i) \<noteq> 0 then
        (case applyCommitted ((w ! i)\<lparr>appliers := appliers (w ! i) - 1\<rparr>) of Inr rf \<Rightarrow> Some (w[i := rf]) | Inl e \<Rightarrow> None) else None)"
| "peerStep (Submit i cmd) w =
     (if i < length w then (case Start cmd (w ! i) of Inr (rf, _) \<Rightarrow> Some (w[i := rf]) | Inl e \<Rightarrow> None) else None)"
| "peerStep _ w = None"

definition through :: "bool \<Rightarrow> nat \<Rightarrow> 'c Raft list \<times> ('c packet \<times> bool) list \<Rightarrow> ('c Raft list \<times> ('c packet \<times> bool) list) option" where
  "through strict k s = (case s of (w, ps) \<Rightarrow>
     if k < length ps \<and> \<not> snd (ps ! k) then
       (let p = fst (ps ! k) in
        case repliesTo p (w ! server p) of
          Inl e \<Rightarrow> None
        | Inr (rf, v, q) \<Rightarrow>
            (case caller True q (w[server p := rf] ! client p) of
               Inl e \<Rightarrow> None
             | Inr rf' \<Rightarrow>
                 if in_turn strict p (map fst (filter (\<lambda>x. \<not> snd x) (take k ps))) w \<and> in_turn strict q [] (w[server p := rf])
                 then Some (w[server p := rf, client p := rf'], ps[k := (p, True)]) else None))
     else None)"

fun moveStep :: "bool \<Rightarrow> 'c move \<Rightarrow> 'c Raft list \<times> ('c packet \<times> bool) list \<Rightarrow> ('c Raft list \<times> ('c packet \<times> bool) list) option" where
  "moveStep strict (Peer a) (w, ps) = map_option (\<lambda>w'. (w', ps)) (peerStep a w)"
| "moveStep strict (Ask i) (w, ps) =
     (if i < length w then
        (case solicits (w ! i) of
           [] \<Rightarrow> None
         | t # ts \<Rightarrow>
             (let rf = (w ! i)\<lparr>solicits := ts\<rparr> in
              case solicitVotes rf of
                Inr ms \<Rightarrow> if t = currentTerm (w ! i) then Some (w[i := rf], ps @ map (\<lambda>(j, a). (VoteReq i j a, False)) ms) else None
              | Inl e \<Rightarrow> None))
      else None)"
| "moveStep strict (Send i) (w, ps) =
     (if i < length w \<and> broadcasts (w ! i) \<noteq> 0 then
        (let rf = (w ! i)\<lparr>broadcasts := broadcasts (w ! i) - 1\<rparr> in
         case broadcastHeartbeat rf of
           Inr ms \<Rightarrow> Some (w[i := rf], ps @ map (\<lambda>(j, a). (AppReq i j a, False)) ms)
         | Inl e \<Rightarrow> None)
      else None)"
| "moveStep strict (Through k) s = through strict k s"

fun acts :: "'c move \<Rightarrow> 'c sact list" where
  "acts (Peer a) = [Local a]"
| "acts (Ask i) = [AskVotes i]"
| "acts (Send i) = [SendEntries i]"
| "acts (Through k) = full_call k"

text \<open>The machine is in such a state: all servers are connected and registered, and no call is half done.\<close>

definition calm :: "'c wire codec \<Rightarrow> (nat \<Rightarrow> nat \<Rightarrow> string) \<Rightarrow> nat \<Rightarrow> 'c stack \<Rightarrow> 'c Raft list \<times> ('c packet \<times> bool) list \<Rightarrow> bool" where
  "calm cd e n st s \<longleftrightarrow> s = (peers st, callers st) \<and> crashed (rpc st) = None \<and> looping (rpc st) \<and>
     length (calls (rpc st)) = length (callers st) \<and>
     (\<forall>k < length (callers st). if snd (callers st ! k) then onWire cd (calls (rpc st) ! k) (callers st ! k) = []
        else calls (rpc st) ! k = newCall cd e (fst (callers st ! k))) \<and>
     (\<forall>i < n. \<forall>j < n. enabled (rpc_state.net (rpc st)) (e i j)) \<and> (\<forall>j < n. servers (rpc_state.net (rpc st)) (int j) = Some j)"

lemma calm_wires:
  assumes "calm cd e n st (w, ps)"
  shows "wiresBefore cd k st = map fst (filter (\<lambda>x. \<not> snd x) (take k ps))"
proof -
  have ps: "ps = callers st" and len: "length (calls (rpc st)) = length ps" using assms by (simp_all add: calm_def)
  have "onWire cd (calls (rpc st) ! i) (ps ! i) = (if snd (ps ! i) then [] else [fst (ps ! i)])" if "i < length ps" for i
    using assms that by (cases "snd (ps ! i)") (simp add: calm_def ps, simp add: calm_def ps onWire_def newCall_def)
  then have "concat (map (\<lambda>(c, pd). onWire cd c pd) (take k (zip (calls (rpc st)) ps))) =
      concat (map (\<lambda>x. if snd x then [] else [fst x]) (take k ps))"
    using len by (intro arg_cong [where f = concat] nth_equalityI) auto
  moreover have "concat (map (\<lambda>x. if snd x then [] else [fst x]) xs) = map fst (filter (\<lambda>x. \<not> snd x) xs)" for xs :: "('a packet \<times> bool) list"
    by (induction xs) auto
  ultimately show ?thesis by (simp add: wiresBefore_def ps)
qed

lemma calm_issue:
  assumes "calm cd e n st s" and "gob_ok cd"
  shows "\<exists>st'. issue cd e ps (setPeer i rf st) = Some st' \<and> calm cd e n st' ((peers st)[i := rf], callers st @ map (\<lambda>p. (p, False)) ps)"
proof -
  have cr: "crashed (rpc (setPeer i rf st)) = None" using assms(1) by (simp add: calm_def setPeer_def)
  show ?thesis unfolding issue_all [OF assms(2) cr]
    using assms(1) by (auto simp: calm_def setPeer_def nth_append)
qed

lemma peerStep_local:
  "peerStep a (peers st) = Some w \<Longrightarrow> localStep a st = Some (st\<lparr>rpc := (rpc st)\<lparr>world := w\<rparr>\<rparr>)"
  by (cases a) (auto simp: localStep_def setPeer_def concludes_def Let_def split: if_splits sum.splits)

lemma through_possible:
  assumes "stack_inv cd e n st" and "gob_ok cd" and "calm cd e n st (w, ps)" and "through strict k (w, ps) = Some s'"
  shows "\<exists>st'. run (guarded_stack strict cd e) (full_call k) st = Some st' \<and> calm cd e n st' s'"
proof -
  let ?p = "fst (ps ! k)"
  have s: "w = peers st" "ps = callers st" using assms(3) by (simp_all add: calm_def)
  from assms(4) obtain rf v q rf' where k: "k < length ps" "\<not> snd (ps ! k)" "repliesTo ?p (w ! server ?p) = Inr (rf, v, q)"
      "caller True q (w[server ?p := rf] ! client ?p) = Inr rf'" "in_turn strict ?p (map fst (filter (\<lambda>x. \<not> snd x) (take k ps))) w"
      "in_turn strict q [] (w[server ?p := rf])" "s' = (w[server ?p := rf, client ?p := rf'], ps[k := (?p, True)])"
    by (auto simp: through_def Let_def split: if_splits sum.splits)
  then have pk: "ps ! k = (?p, False)" by (metis prod.collapse)
  have "flight_ok cd e (rpc_state.net (rpc st)) (calls (rpc st) ! k) (?p, False)"
    using assms(1) k(1) pk by (simp add: stack_inv_def s)
  then have "client ?p < n" "server ?p < n" using flight_okD(2,3) assms(1) by (auto simp: stack_inv_def wired_def)
  then obtain st' where st': "run (guarded_stack strict cd e) (full_call k) st = Some st'"
    "peers st' = (peers st)[server ?p := rf, client ?p := rf']" "crashed (rpc st') = None" "looping (rpc st')"
    "callers st' = (callers st)[k := (?p, True)]" "length (calls (rpc st')) = length (calls (rpc st))"
    "\<forall>k'. k' \<noteq> k \<longrightarrow> calls (rpc st') ! k' = calls (rpc st) ! k'"
    "enabled (rpc_state.net (rpc st')) = enabled (rpc_state.net (rpc st))"
    "servers (rpc_state.net (rpc st')) = servers (rpc_state.net (rpc st))" "onWire cd (calls (rpc st') ! k) (?p, True) = []"
    using assms(2,3) k pk calm_wires [OF assms(3), of k]
    by (elim call_completes [OF assms(1), of k ?p rf v q rf' strict, rotated -1]) (auto simp: calm_def s)
  have half: "if snd (callers st' ! i) then onWire cd (calls (rpc st') ! i) (callers st' ! i) = []
      else calls (rpc st') ! i = newCall cd e (fst (callers st' ! i))" if "i < length (callers st')" for i
    using assms(3) st'(5,7,10) that by (cases "i = k") (simp_all add: calm_def)
  have "calm cd e n st' s'" unfolding calm_def
    by (intro conjI allI impI half) (use assms(3) st'(2-9) k(7) in \<open>simp_all add: calm_def s\<close>)
  with st'(1) show ?thesis by blast
qed

lemma move_possible:
  assumes "stack_inv cd e n st" and "gob_ok cd" and "calm cd e n st s" and "moveStep strict m s = Some s'"
  shows "\<exists>st'. run (guarded_stack strict cd e) (acts m) st = Some st' \<and> calm cd e n st' s'"
proof -
  obtain w ps where s: "s = (w, ps)" by fastforce
  have wp: "w = peers st" "ps = callers st" and cr: "crashed (rpc st) = None" using assms(3) by (simp_all add: calm_def s)
  note gd = guarded_stack_def orderly_stack_def timely_stack_def stack_act_def cr
  show ?thesis
  proof (cases m)
    case (Peer a)
    with assms(4) obtain w' where w': "peerStep a (peers st) = Some w'" "s' = (w', ps)" by (auto simp: s wp)
    have "guarded_stack strict cd e (Local a) st = Some (st\<lparr>rpc := (rpc st)\<lparr>world := w'\<rparr>\<rparr>)"
      using peerStep_local [OF w'(1)] by (simp add: gd)
    with Peer w' assms(3) show ?thesis by (simp add: calm_def wp)
  next
    case (Ask i)
    with assms(4) obtain t ts ms where i: "i < length w" "solicits (w ! i) = t # ts" "t = currentTerm (w ! i)"
        "solicitVotes ((w ! i)\<lparr>solicits := ts\<rparr>) = Inr ms"
        "s' = (w[i := (w ! i)\<lparr>solicits := ts\<rparr>], ps @ map (\<lambda>(j, a). (VoteReq i j a, False)) ms)"
      by (auto simp: s Let_def split: if_splits list.splits sum.splits)
    have ps: "map (\<lambda>(j, a). (VoteReq i j a, False)) ms = map (\<lambda>p. (p, False)) (map (\<lambda>(j, a). VoteReq i j a) ms)" by auto
    from calm_issue [OF assms(3,2), of "map (\<lambda>(j, a). VoteReq i j a) ms" i "(w ! i)\<lparr>solicits := ts\<rparr>"] i Ask show ?thesis
      by (auto simp: gd solicitStep_def Let_def concludes_def wp ps)
  next
    case (Send i)
    let ?rf = "(w ! i)\<lparr>broadcasts := broadcasts (w ! i) - 1\<rparr>"
    from Send assms(4) obtain ms where i: "i < length w" "broadcasts (w ! i) \<noteq> 0" "broadcastHeartbeat ?rf = Inr ms"
        "s' = (w[i := ?rf], ps @ map (\<lambda>(j, a). (AppReq i j a, False)) ms)"
      by (auto simp: s Let_def split: if_splits sum.splits)
    have ps: "map (\<lambda>(j, a). (AppReq i j a, False)) ms = map (\<lambda>p. (p, False)) (map (\<lambda>(j, a). AppReq i j a) ms)" by auto
    from calm_issue [OF assms(3,2), of "map (\<lambda>(j, a). AppReq i j a) ms" i ?rf] i Send show ?thesis
      by (auto simp: gd broadcastStep_def Let_def concludes_def wp ps)
  next
    case (Through k)
    with through_possible [OF assms(1,2)] assms(3,4) show ?thesis by (simp add: s)
  qed
qed

lemma connectAll_connected:
  "connectAll is cfg = Inr cf' \<Longrightarrow> length (connected cf') = length (connected cfg) \<and>
     (\<forall>i < length (connected cfg). connected cf' ! i \<longleftrightarrow> connected cfg ! i \<or> i \<in> set is)"
proof (induction "is" arbitrary: cfg)
  case (Cons i "is")
  then obtain cf1 where c: "connect i cfg = Inr cf1" "connectAll is cf1 = Inr cf'" by (auto simp: go_bind_Inr_iff)
  from connect_names [OF c(1)] have "connected cf1 = (connected cfg)[i := True]" by auto
  moreover have "(connected cfg)[i := True] ! a \<longleftrightarrow> connected cfg ! a \<or> a = i" if "a < length (connected cfg)" for a
    using that by (cases "a = i") simp_all
  ultimately show ?case using Cons.IH [OF c(2)] by auto
qed simp

lemma config_connected:
  assumes "make_config serverOf n unreliable names = Inr cfg" and "\<forall>i < n. length (names i) = n" and "i < n"
  shows "connected cfg ! i"
proof -
  from assms(1) obtain cf1 where c: "connectAll [0..<n] cf1 = Inr cfg" by (auto simp: make_config_def go_bind_Inr_iff)
  have "length (connected cfg) = n" using config_started [OF assms(1,2)] by (simp add: started_def conn_inv_def)
  with connectAll_connected [OF c] assms(3) show ?thesis by simp
qed

lemma calm_start:
  assumes "make_config serverOf n unreliable names = Inr cfg" and "\<forall>i < n. length (names i) = n"
  shows "calm cd (endOf cfg) n (stack_start cfg) (map (\<lambda>i. Make n i MakePersister) [0..<n], [])"
proof -
  have s: "started names n n cfg" by (rule config_started [OF assms])
  have "nodes (cluster_init n :: 'a cluster) = peers (stack_start cfg)" using stack_start_inv(2) [OF s] by (simp add: shows_as_def)
  then have "peers (stack_start cfg) = map (\<lambda>i. Make n i MakePersister) [0..<n]" by (simp add: cluster_init_def)
  moreover have "enabled (cfnet cfg) (endOf cfg i j)" if "i < n" "j < n" for i j
    using started_end [OF s that] config_connected [OF assms] that s unfolding started_def conn_inv_def by blast
  ultimately show ?thesis using s by (simp add: calm_def stack_start_def rpc_init_def started_def)
qed

lemma moves_possible:
  assumes "make_config serverOf n unreliable names = Inr cfg" and "\<forall>i < n. length (names i) = n" and "gob_ok cd"
    and "run (moveStep strict) ms (map (\<lambda>i. Make n i MakePersister) [0..<n], []) = Some s"
  shows "\<exists>st. run (guarded_stack strict cd (endOf cfg)) (concat (map acts ms)) (stack_start cfg) = Some st \<and> calm cd (endOf cfg) n st s"
  using assms(4)
proof (induction ms arbitrary: s rule: rev_induct)
  case Nil
  then show ?case using calm_start [OF assms(1,2)] by auto
next
  case (snoc m ms)
  then obtain s1 where s1: "run (moveStep strict) ms (map (\<lambda>i. Make n i MakePersister) [0..<n], []) = Some s1" "moveStep strict m s1 = Some s"
    by (auto simp: run_append bind_eq_Some_conv split: option.splits)
  from snoc.IH [OF s1(1)] obtain st where st: "run (guarded_stack strict cd (endOf cfg)) (concat (map acts ms)) (stack_start cfg) = Some st"
    "calm cd (endOf cfg) n st s1" by blast
  have "stack_inv cd (endOf cfg) n st" using stack_implements [OF assms(1-3) run_from [OF st(1)]] by (auto simp: implements_def)
  from move_possible [OF this assms(3) st(2) s1(2)] st(1) show ?case by (auto simp: run_append)
qed

section \<open>The properties\<close>

text \<open>Both kinds of runs, as they are named.\<close>

lemma guarded_simps [simp]:
  "guarded False = timely_act" "guarded True = orderly_act"
  "guarded_stack False = timely_stack" "guarded_stack True = orderly_stack"
  by (simp_all add: guarded_def guarded_stack_def)

text \<open>Three servers.  Peer 0 is elected with the vote of peer 2, replicates the command 7 to both, commits and applies it; peer 1 learns of it with the next
  heartbeat.\<close>

definition test_names :: "nat \<Rightarrow> string list" where
  "test_names i = (if i = 0 then [''aa'', ''ab'', ''ac''] else if i = 1 then [''ba'', ''bb'', ''bc''] else [''ca'', ''cb'', ''cc''])"

definition test_moves :: "nat move list" where
  "test_moves = [Peer (Tick 0), Peer (Select 0 ChooseTimeout), Peer (Tick 0), Ask 0, Through 1, Peer (Select 0 ChooseWin), Peer (Submit 0 7),
     Peer (Tick 0), Send 0, Through 2, Through 3, Peer (Apply 0), Peer (Select 0 ChoosePersist), Peer (Tick 0), Send 0, Through 4, Peer (Apply 1)]"

lemma test_moves_result:
  "map_option (\<lambda>(w, ps). (map state w, map currentTerm w, map (map am_Command \<circ> cApplyMsg) w))
     (run (moveStep True) test_moves (map (\<lambda>i. Make 3 i MakePersister) [0..<3], [])) =
   Some ([LEADER, FOLLOWER, FOLLOWER], [1, 1, 1], [[Some 7], [Some 7], []])"
  unfolding test_moves_def by code_simp

lemma test_config: "\<exists>cfg :: (nat, nat wire, nat Raft list) config. make_config serverOf 3 False test_names = Inr cfg"
proof -
  have "(case make_config serverOf 3 False test_names :: go_panic + (nat, nat wire, nat Raft list) config of Inl e \<Rightarrow> False | Inr cfg \<Rightarrow> True) = True"
    by code_simp
  then show ?thesis by (cases "make_config serverOf 3 False test_names :: go_panic + (nat, nat wire, nat Raft list) config") auto
qed

lemma test_names_length: "\<forall>i < 3. length (test_names i) = 3"
  by (simp add: test_names_def)


lemma timely_of_orderly: "run (orderly_stack cd e) as st = Some st' \<Longrightarrow> run (timely_stack cd e) as st = Some st'"
  using guarded_stack_timely [of True cd e] by (induction as arbitrary: st) (auto split: option.splits)

text \<open>The run of \<open>test_moves\<close> on the network.\<close>

lemma test_run:
  obtains cfg st where "make_config serverOf 3 False test_names = Inr cfg"
    "run (orderly_stack unary_codec (endOf cfg)) (concat (map acts test_moves)) (stack_start cfg) = Some st"
    "map state (peers st) = [LEADER, FOLLOWER, FOLLOWER]" "map currentTerm (peers st) = [1, 1, 1]"
    "map (map am_Command \<circ> cApplyMsg) (peers st) = [[Some 7], [Some 7], []]"
proof -
  obtain cfg :: "(nat, nat wire, nat Raft list) config" where cfg: "make_config serverOf 3 False test_names = Inr cfg"
    using test_config by blast
  obtain w ps where w: "run (moveStep True) test_moves (map (\<lambda>i. Make 3 i MakePersister) [0..<3], []) = Some (w, ps)"
    "map state w = [LEADER, FOLLOWER, FOLLOWER] \<and> map currentTerm w = [1, 1, 1] \<and> map (map am_Command \<circ> cApplyMsg) w = [[Some 7], [Some 7], []]"
    using test_moves_result by auto
  from moves_possible [OF cfg test_names_length unary_codec_ok w(1)] obtain st where
    "run (orderly_stack unary_codec (endOf cfg)) (concat (map acts test_moves)) (stack_start cfg) = Some st" "peers st = w"
    by (auto simp: calm_def)
  with cfg w(2) show thesis by (intro that) auto
qed




end
