(* ===== verification/LabGob.thy ===== *)
theory LabGob
  imports Prelude
begin

text \<open>
  \<^verbatim>\<open>lab3/labgob/labgob.go\<close>: the wrapper around \<open>encoding/gob\<close> that complains about field names that gob would skip
  and about decoding into variables that are not zero.  Types are positions in a table, so that they can
  refer to each other and to themselves; values are trees of their fields.  The package state is
  the set of checked types, the error count and what was printed.  The encoder and the decoder of
  \<open>encoding/gob\<close> are arguments.
\<close>

section \<open>Types and values\<close>

type_synonym ty = nat

datatype kind_info =
    Struct string "(string \<times> ty) list"
  | Slice ty
  | Array ty
  | Ptr ty
  | MapOf ty ty
  | OtherKind

type_synonym type_table = "kind_info list"

text \<open>A basic value is known by the name of its type and by whether it is the zero value of it.\<close>

datatype gval =
    VStruct "(string \<times> gval) list"
  | VPtr "gval option"
  | VBasic string bool
  | VOther

datatype message =
    LowerCaseField string string
  | NonDefault string

record gob_state =
  checked :: "ty set"
  errorCount :: int
  printed :: "message list"

definition gob_init :: gob_state where
  "gob_init = \<lparr>checked = {}, errorCount = 0, printed = []\<rparr>"

text \<open>\<open>unicode.IsUpper\<close> on the first letter of a field name, for names that start with an ASCII letter.\<close>

definition capital :: "string \<Rightarrow> bool" where
  "capital s = (case s of [] \<Rightarrow> False | c # _ \<Rightarrow> 65 \<le> (of_char c :: nat) \<and> (of_char c :: nat) \<le> 90)"

section \<open>Checking types\<close>

text \<open>The work a type gives rise to, in order: the fields of a struct with the complaint each may
  cause before its type is checked, or the component types.\<close>

type_synonym task = "(string \<times> string) option \<times> ty"

definition tasks :: "type_table \<Rightarrow> ty \<Rightarrow> task list" where
  "tasks tab t =
     (if t < length tab then
        (case tab ! t of
           Struct name fs \<Rightarrow> map (\<lambda>(f, u). (Some (f, name), u)) fs
         | Slice u \<Rightarrow> [(None, u)]
         | Array u \<Rightarrow> [(None, u)]
         | Ptr u \<Rightarrow> [(None, u)]
         | MapOf k e \<Rightarrow> [(None, e), (None, k)]
         | OtherKind \<Rightarrow> [])
      else [])"

definition complain :: "(string \<times> string) option \<Rightarrow> gob_state \<Rightarrow> gob_state" where
  "complain f st = (case f of
     Some (field, name) \<Rightarrow>
       if \<not> capital field
       then st\<lparr>errorCount := errorCount st + 1, printed := printed st @ [LowerCaseField field name]\<rparr> else st
   | None \<Rightarrow> st)"

text \<open>\<open>checkType\<close> on each task in turn; a type that is in \<open>checked\<close> is not looked at again.\<close>

function checkTasks :: "type_table \<Rightarrow> task list \<Rightarrow> gob_state \<Rightarrow> gob_state" where
  "checkTasks tab [] st = st"
| "checkTasks tab ((f, t) # ts) st =
     (let st1 = complain f st in
      if t \<in> checked st1 then checkTasks tab ts st1
      else checkTasks tab ts (checkTasks tab (tasks tab t) (st1\<lparr>checked := insert t (checked st1)\<rparr>)))"
  by pat_completeness auto

lemma checked_complain [simp]: "checked (complain f st) = checked st"
  by (auto simp: complain_def split: option.split)

lemma checkTasks_extends: "checkTasks_dom (tab, ts, st) \<Longrightarrow> checked st \<subseteq> checked (checkTasks tab ts st)"
proof (induction tab ts st rule: checkTasks.pinduct)
  case (2 tab f t ts st)
  then show ?case by (auto simp: checkTasks.psimps Let_def)
qed (simp add: checkTasks.psimps)

termination checkTasks
proof (relation "inv_image (finite_psubset <*lex*> less_than)
    (\<lambda>(tab, ts, st). ({..<length tab} - checked st, length ts))", goal_cases)
  case 1
  show ?case by (intro wf_inv_image wf_lex_prod wf_finite_psubset wf_less_than)
next
  case (2 tab f t ts st st1)
  then show ?case by simp
next
  case (3 tab f t ts st st1)
  have "{..<length tab} - insert t (checked st) \<subset> {..<length tab} - checked st" if "t < length tab"
    using that 3 by auto
  moreover have "tasks tab t = []" "{..<length tab} - insert t (checked st) = {..<length tab} - checked st" if "\<not> t < length tab"
    using that by (auto simp: tasks_def)
  ultimately show ?case using 3 by (cases "t < length tab") (auto simp: finite_psubset_def)
next
  case (4 tab f t ts st st1)
  from checkTasks_extends [OF this(3)] have
    "{..<length tab} - checked (checkTasks tab (tasks tab t) (st1\<lparr>checked := insert t (checked st1)\<rparr>)) \<subseteq> {..<length tab} - checked st"
    using 4(1) by auto
  then show ?case by (auto simp: finite_psubset_def)
qed

declare checkTasks.simps [simp del]

definition checkType :: "type_table \<Rightarrow> ty \<Rightarrow> gob_state \<Rightarrow> gob_state" where
  "checkType tab t st = checkTasks tab [(None, t)] st"

section \<open>Checking for default values\<close>

definition dotted :: "string \<Rightarrow> string \<Rightarrow> string" where
  "dotted name f = (if name \<noteq> [] then name @ ''.'' @ f else f)"

definition warn :: "string \<Rightarrow> string \<Rightarrow> gob_state \<Rightarrow> gob_state" where
  "warn name tname st =
     (let st1 = (if errorCount st < 1
                 then st\<lparr>printed := printed st @ [NonDefault (if name = [] then tname else name)]\<rparr> else st)
      in st1\<lparr>errorCount := errorCount st1 + 1\<rparr>)"

fun checkDefault1 :: "nat \<Rightarrow> string \<Rightarrow> gval \<Rightarrow> gob_state \<Rightarrow> gob_state" where
  "checkDefault1 depth name v st =
     (if depth > 3 then st
      else
        case v of
          VStruct fs \<Rightarrow> fold (\<lambda>(f, u) s. checkDefault1 (depth + 1) (dotted name f) u s) fs st
        | VPtr None \<Rightarrow> st
        | VPtr (Some u) \<Rightarrow> checkDefault1 (depth + 1) name u st
        | VBasic tname zero \<Rightarrow> if zero then st else warn name tname st
        | VOther \<Rightarrow> st)"

declare checkDefault1.simps [simp del]

text \<open>\<open>None\<close> is a nil interface.\<close>

definition checkDefault :: "gval option \<Rightarrow> gob_state \<Rightarrow> gob_state" where
  "checkDefault v st = (case v of None \<Rightarrow> st | Some u \<Rightarrow> checkDefault1 1 [] u st)"

section \<open>The wrappers\<close>

text \<open>A value that is passed as an interface, with its type.\<close>

type_synonym iface = "ty \<times> gval"

definition checkValue :: "type_table \<Rightarrow> iface \<Rightarrow> gob_state \<Rightarrow> gob_state" where
  "checkValue tab v st = checkType tab (fst v) st"

definition LabEncoder_Encode :: "type_table \<Rightarrow> (iface \<Rightarrow> 'g \<Rightarrow> 'g \<times> 'e option) \<Rightarrow> iface \<Rightarrow> gob_state \<times> 'g
    \<Rightarrow> (gob_state \<times> 'g) \<times> 'e option" where
  "LabEncoder_Encode tab gob_Encode e s =
     (let (g, err) = gob_Encode e (snd s) in ((checkValue tab e (fst s), g), err))"

definition LabDecoder_Decode :: "type_table \<Rightarrow> (iface \<Rightarrow> 'g \<Rightarrow> 'g \<times> iface \<times> 'e option) \<Rightarrow> iface \<Rightarrow> gob_state \<times> 'g
    \<Rightarrow> (gob_state \<times> 'g) \<times> iface \<times> 'e option" where
  "LabDecoder_Decode tab gob_Decode e s =
     (let st = checkDefault (Some (snd e)) (checkValue tab e (fst s)); (g, e', err) = gob_Decode e (snd s)
      in ((st, g), e', err))"

definition Register :: "type_table \<Rightarrow> (iface \<Rightarrow> 'g \<Rightarrow> 'g) \<Rightarrow> iface \<Rightarrow> gob_state \<times> 'g \<Rightarrow> gob_state \<times> 'g" where
  "Register tab gob_Register v s = (checkValue tab v (fst s), gob_Register v (snd s))"

text \<open>The encoder and decoder objects wrap those of \<open>encoding/gob\<close>, whose constructors are arguments.\<close>

record 'g LabEncoder =
  enc_gob :: 'g

record 'g LabDecoder =
  dec_gob :: 'g

definition NewEncoder :: "('w \<Rightarrow> 'g) \<Rightarrow> 'w \<Rightarrow> 'g LabEncoder" where
  "NewEncoder gob_NewEncoder w = \<lparr>enc_gob = gob_NewEncoder w\<rparr>"

definition NewDecoder :: "('r \<Rightarrow> 'g) \<Rightarrow> 'r \<Rightarrow> 'g LabDecoder" where
  "NewDecoder gob_NewDecoder r = \<lparr>dec_gob = gob_NewDecoder r\<rparr>"

definition LabEncoder_EncodeValue :: "type_table \<Rightarrow> (iface \<Rightarrow> 'g \<Rightarrow> 'g \<times> 'e option) \<Rightarrow> iface \<Rightarrow> gob_state \<times> 'g
    \<Rightarrow> (gob_state \<times> 'g) \<times> 'e option" where
  "LabEncoder_EncodeValue tab gob_EncodeValue v s =
     (let (g, err) = gob_EncodeValue v (snd s) in ((checkValue tab v (fst s), g), err))"

definition RegisterName :: "type_table \<Rightarrow> (string \<Rightarrow> iface \<Rightarrow> 'g \<Rightarrow> 'g) \<Rightarrow> string \<Rightarrow> iface \<Rightarrow> gob_state \<times> 'g \<Rightarrow> gob_state \<times> 'g" where
  "RegisterName tab gob_RegisterName name v s = (checkValue tab v (fst s), gob_RegisterName name v (snd s))"

section \<open>\<open>checkType\<close> visits every reachable type once\<close>

definition refers :: "type_table \<Rightarrow> ty \<Rightarrow> ty \<Rightarrow> bool" where
  "refers tab t u \<longleftrightarrow> u \<in> snd ` set (tasks tab t)"

definition lowerField :: "(string \<times> string) option \<Rightarrow> int" where
  "lowerField x = (case x of Some (f, _) \<Rightarrow> if capital f then 0 else 1 | None \<Rightarrow> 0)"

definition lowers :: "task list \<Rightarrow> int" where
  "lowers ts = sum_list (map (lowerField \<circ> fst) ts)"

text \<open>The number of fields of a struct type that gob would skip.\<close>

definition badFields :: "type_table \<Rightarrow> ty \<Rightarrow> int" where
  "badFields tab t = lowers (tasks tab t)"

lemma lowers_simps [simp]: "lowers [] = 0" "lowers ((f, t) # ts) = lowerField f + lowers ts"
  by (simp_all add: lowers_def)

lemma errorCount_complain [simp]: "errorCount (complain f st) = errorCount st + lowerField f"
  by (auto simp: complain_def lowerField_def split: option.split)

lemma checkTasks_mono: "checked st \<subseteq> checked (checkTasks tab ts st)"
proof (induction tab ts st rule: checkTasks.induct)
  case (2 tab f t ts st)
  then show ?case by (auto simp: checkTasks.simps Let_def)
qed (simp add: checkTasks.simps)

lemma checkTasks_covers: "snd ` set ts \<subseteq> checked (checkTasks tab ts st)"
proof (induction tab ts st rule: checkTasks.induct)
  case (2 tab f t ts st)
  let ?st2 = "if t \<in> checked st then complain f st
    else checkTasks tab (tasks tab t) ((complain f st)\<lparr>checked := insert t (checked st)\<rparr>)"
  have "t \<in> checked ?st2"
    using checkTasks_mono [of "(complain f st)\<lparr>checked := insert t (checked st)\<rparr>" tab "tasks tab t"] by auto
  then have "t \<in> checked (checkTasks tab ts ?st2)" using checkTasks_mono by blast
  with 2 show ?case by (auto simp: checkTasks.simps Let_def)
qed simp

lemma checkTasks_reached:
  "u \<in> checked (checkTasks tab ts st) \<Longrightarrow> u \<in> checked st \<or> (\<exists>t \<in> snd ` set ts. (refers tab)\<^sup>*\<^sup>* t u)"
proof (induction tab ts st rule: checkTasks.induct)
  case (2 tab f t ts st)
  let ?st1 = "complain f st"
  show ?case
  proof (cases "t \<in> checked st")
    case True
    with 2 show ?thesis by (auto simp: checkTasks.simps Let_def)
  next
    case False
    let ?st2 = "checkTasks tab (tasks tab t) (?st1\<lparr>checked := insert t (checked st)\<rparr>)"
    have "u \<in> checked (checkTasks tab ts ?st2)" using 2(4) False by (simp add: checkTasks.simps Let_def)
    with 2(3) [OF refl] False have "u \<in> checked ?st2 \<or> (\<exists>v \<in> snd ` set ts. (refers tab)\<^sup>*\<^sup>* v u)" by simp
    moreover have "u = t \<or> u \<in> checked st \<or> (refers tab)\<^sup>*\<^sup>* t u" if "u \<in> checked ?st2"
    proof -
      from 2(2) [OF refl] False that have "u = t \<or> u \<in> checked st \<or> (\<exists>v \<in> snd ` set (tasks tab t). (refers tab)\<^sup>*\<^sup>* v u)" by auto
      then show ?thesis by (meson converse_rtranclp_into_rtranclp refers_def)
    qed
    ultimately show ?thesis by auto
  qed
qed (simp add: checkTasks.simps)

lemma checkTasks_closes:
  "u \<in> checked (checkTasks tab ts st) \<Longrightarrow> u \<notin> checked st \<Longrightarrow> refers tab u v \<Longrightarrow> v \<in> checked (checkTasks tab ts st)"
proof (induction tab ts st rule: checkTasks.induct)
  case (2 tab f t ts st)
  show ?case
  proof (cases "t \<in> checked st")
    case True
    with 2 show ?thesis by (auto simp: checkTasks.simps Let_def)
  next
    case False
    let ?st0 = "(complain f st)\<lparr>checked := insert t (checked st)\<rparr>"
    let ?st2 = "checkTasks tab (tasks tab t) ?st0"
    have e: "checkTasks tab ((f, t) # ts) st = checkTasks tab ts ?st2" using False by (simp add: checkTasks.simps Let_def)
    have m: "checked ?st2 \<subseteq> checked (checkTasks tab ts ?st2)" by (rule checkTasks_mono)
    show ?thesis
    proof (cases "u \<in> checked ?st2")
      case True
      have "v \<in> checked ?st2"
      proof (cases "u = t")
        case True
        then show ?thesis using 2(6) checkTasks_covers [of "tasks tab t" tab ?st0] by (auto simp: refers_def)
      next
        case False
        then show ?thesis using 2(2) [OF refl] \<open>t \<notin> checked st\<close> True 2(5,6) by simp
      qed
      with m e show ?thesis by auto
    next
      case notin: False
      then show ?thesis using 2(3) [OF refl] False 2(4,6) e by simp
    qed
  qed
qed (simp add: checkTasks.simps)

lemma checkTasks_counts:
  "finite (checked (checkTasks tab ts st) - checked st) \<and>
   errorCount (checkTasks tab ts st) = errorCount st + lowers ts + sum (badFields tab) (checked (checkTasks tab ts st) - checked st)"
proof (induction tab ts st rule: checkTasks.induct)
  case (2 tab f t ts st)
  show ?case
  proof (cases "t \<in> checked st")
    case True
    with 2(1) [OF refl] show ?thesis by (simp add: checkTasks.simps Let_def)
  next
    case False
    let ?st0 = "(complain f st)\<lparr>checked := insert t (checked st)\<rparr>"
    let ?st2 = "checkTasks tab (tasks tab t) ?st0"
    let ?A = "checked ?st2 - checked ?st0" and ?B = "checked (checkTasks tab ts ?st2) - checked ?st2"
    have e: "checkTasks tab ((f, t) # ts) st = checkTasks tab ts ?st2" using False by (simp add: checkTasks.simps Let_def)
    have m: "checked ?st0 \<subseteq> checked ?st2" "checked ?st2 \<subseteq> checked (checkTasks tab ts ?st2)" by (rule checkTasks_mono)+
    have A: "finite ?A" "errorCount ?st2 = errorCount ?st0 + badFields tab t + sum (badFields tab) ?A"
      using 2(2) [OF refl] False by (simp_all add: badFields_def)
    have B: "finite ?B" "errorCount (checkTasks tab ts ?st2) = errorCount ?st2 + lowers ts + sum (badFields tab) ?B"
      using 2(3) [OF refl] False by simp_all
    have split: "checked (checkTasks tab ts ?st2) - checked st = insert t (?A \<union> ?B)" using m False by auto
    have "t \<notin> ?A \<union> ?B" "?A \<inter> ?B = {}" using m(1) by auto
    with A(1) B(1) have "sum (badFields tab) (insert t (?A \<union> ?B)) = badFields tab t + sum (badFields tab) ?A + sum (badFields tab) ?B"
      by (simp add: sum.union_disjoint)
    then show ?thesis
      unfolding e split using A B by simp
  qed
qed (simp add: checkTasks.simps)

text \<open>
  C34. \<open>checkType\<close> ends on every table of types, recursive ones included: it adds exactly the types that can be
  reached from the one it is given to the checked ones, and counts each lower-case field of a type it
  adds once, however often the type occurs.
\<close>

theorem checkType_counts:
  assumes "\<And>u v. u \<in> checked st \<Longrightarrow> refers tab u v \<Longrightarrow> v \<in> checked st"
  shows "checked (checkType tab t st) = checked st \<union> {u. (refers tab)\<^sup>*\<^sup>* t u} \<and>
    errorCount (checkType tab t st) =
      errorCount st + sum (badFields tab) ({u. (refers tab)\<^sup>*\<^sup>* t u} - checked st)"
proof -
  let ?C = "checked (checkTasks tab [(None, t)] st)"
  have cl: "v \<in> ?C" if "u \<in> ?C" "refers tab u v" for u v
    using that assms checkTasks_closes [of u tab "[(None, t)]" st v] checkTasks_mono [of st tab "[(None, t)]"]
    by (cases "u \<in> checked st") auto
  have "u \<in> ?C" if "(refers tab)\<^sup>*\<^sup>* t u" for u
    using that
  proof (induction rule: rtranclp_induct)
    case base
    show ?case using checkTasks_covers [of "[(None, t)]" tab st] by simp
  next
    case (step u v)
    then show ?case by (blast intro: cl)
  qed
  then have "?C = checked st \<union> {u. (refers tab)\<^sup>*\<^sup>* t u}"
    using checkTasks_reached [of _ tab "[(None, t)]" st] checkTasks_mono [of st tab "[(None, t)]"] by auto
  moreover from this have "?C - checked st = {u. (refers tab)\<^sup>*\<^sup>* t u} - checked st" by auto
  ultimately show ?thesis
    using checkTasks_counts [of tab "[(None, t)]" st] by (simp add: checkType_def lowerField_def)
qed

text \<open>A list node with a lower-case link to itself and an exported value.\<close>

definition node_table :: type_table where
  "node_table = [Struct ''Node'' [(''next'', 1), (''Value'', 2)], Ptr 0, OtherKind]"

theorem checkType_counts_witness:
  "checked (checkType node_table 1 gob_init) = {u. (refers node_table)\<^sup>*\<^sup>* 1 u} \<and>
   errorCount (checkType node_table 1 gob_init) = 1"
proof -
  have "errorCount (checkType node_table 1 gob_init) = 1"
    by (simp add: checkType_def checkTasks.simps tasks_def complain_def capital_def gob_init_def node_table_def)
  moreover have "checked (checkType node_table 1 gob_init) = {u. (refers node_table)\<^sup>*\<^sup>* 1 u}"
    using checkType_counts [of gob_init node_table 1] by (simp add: gob_init_def)
  ultimately show ?thesis by blast
qed

section \<open>\<open>checkDefault\<close> warns once\<close>

text \<open>The fields at most three levels deep that are not zero.\<close>

fun nonDefault :: "nat \<Rightarrow> gval \<Rightarrow> nat" where
  "nonDefault depth v =
     (if depth > 3 then 0
      else
        case v of
          VStruct fs \<Rightarrow> sum_list (map (\<lambda>(f, u). nonDefault (depth + 1) u) fs)
        | VPtr None \<Rightarrow> 0
        | VPtr (Some u) \<Rightarrow> nonDefault (depth + 1) u
        | VBasic tname zero \<Rightarrow> if zero then 0 else 1
        | VOther \<Rightarrow> 0)"

declare nonDefault.simps [simp del]

text \<open>\<open>n\<close> values were found that are not zero: all of them are counted, and one is printed if nothing was counted before.\<close>

definition warned :: "nat \<Rightarrow> gob_state \<Rightarrow> gob_state \<Rightarrow> bool" where
  "warned n st st' \<longleftrightarrow> checked st' = checked st \<and> errorCount st' = errorCount st + int n \<and>
     (if n = 0 \<or> 1 \<le> errorCount st then printed st' = printed st
      else \<exists>what. printed st' = printed st @ [NonDefault what])"

lemma warned_trans: "0 \<le> errorCount st \<Longrightarrow> warned n st st1 \<Longrightarrow> warned m st1 st2 \<Longrightarrow> warned (n + m) st st2"
  by (auto simp: warned_def split: if_splits)

lemma warned_zero [simp]: "warned 0 st st"
  by (simp add: warned_def)

lemma checkDefault1_warned:
  "0 \<le> errorCount st \<Longrightarrow> warned (nonDefault depth v) st (checkDefault1 depth name v st)"
proof (induction depth name v st rule: checkDefault1.induct)
  case (1 depth name v st)
  show ?case
  proof (cases "depth > 3")
    case True
    then show ?thesis by (simp add: checkDefault1.simps [of depth] nonDefault.simps [of depth])
  next
    case shallow: False
    show ?thesis
    proof (cases v)
      case (VStruct fs)
      have "warned (sum_list (map (\<lambda>(f, u). nonDefault (depth + 1) u) gs)) s
          (fold (\<lambda>(f, u) s. checkDefault1 (depth + 1) (dotted name f) u s) gs s)"
        if "set gs \<subseteq> set fs" "0 \<le> errorCount s" for gs s
        using that
      proof (induction gs arbitrary: s)
        case (Cons g gs)
        obtain f u where g: "g = (f, u)" by fastforce
        let ?s = "checkDefault1 (depth + 1) (dotted name f) u s"
        have w: "warned (nonDefault (depth + 1) u) s ?s"
          using Cons.prems g by (intro "1.IH"(1) [OF shallow VStruct, of g]) simp_all
        then have "0 \<le> errorCount ?s" using Cons.prems by (simp add: warned_def)
        with Cons g have "warned (sum_list (map (\<lambda>(f, u). nonDefault (depth + 1) u) gs)) ?s
            (fold (\<lambda>(f, u) s. checkDefault1 (depth + 1) (dotted name f) u s) gs ?s)" by simp
        with w Cons.prems g show ?case by (auto intro: warned_trans)
      qed simp
      from this [of fs st] "1.prems" shallow VStruct show ?thesis
        by (simp add: checkDefault1.simps [of depth] nonDefault.simps [of depth])
    next
      case (VPtr p)
      have "warned (nonDefault (depth + 1) u) st (checkDefault1 (depth + 1) name u st)" if "p = Some u" for u
        using "1.IH"(2) [OF shallow VPtr that "1.prems"] .
      with VPtr shallow show ?thesis
        by (cases p) (simp_all add: checkDefault1.simps [of depth] nonDefault.simps [of depth])
    next
      case (VBasic tname zero)
      then show ?thesis using "1.prems" shallow
        by (simp add: checkDefault1.simps [of depth] nonDefault.simps [of depth] warned_def warn_def Let_def)
    next
      case VOther
      then show ?thesis by (simp add: checkDefault1.simps [of depth] nonDefault.simps [of depth])
    qed
  qed
qed

end
