(* ===== verification/Services.thy ===== *)
theory Services
  imports Prelude
begin

text \<open>
  What the services of labs 1 and 2 share: the messages of \<^verbatim>\<open>user_service.proto\<close>,
  \<^verbatim>\<open>video_service.proto\<close> and \<^verbatim>\<open>failure_injection.proto\<close> as records, the status codes and the outcome
  of a remote call, decimal printing (\<open>%d\<close>), and the pseudo-random sources.  \<open>math/rand\<close> is a
  sequence of raw draws with a position; \<open>Intn n\<close> reduces the next draw below \<open>n\<close> and panics for
  \<open>n \<le> 0\<close>.  The generator behind a seed and the \<open>gofakeit\<close> package are parameters.
\<close>

section \<open>Messages\<close>

text \<open>\<open>map<int32, uint64>\<close>: feature to coefficient.\<close>

type_synonym coeffs = "int \<rightharpoonup> u64"

record UserInfo =
  ui_UserId :: u64
  Username :: string
  Email :: string
  ProfileUrl :: string
  SubscribedTo :: "u64 list"
  UserCoefficients :: coeffs
  LikedVideos :: "u64 list"

record VideoInfo =
  vi_VideoId :: u64
  Title :: string
  Author :: string
  Url :: string
  VideoCoefficients :: coeffs

datatype code = Internal | InvalidArgument | NotFound | DeadlineExceeded | Unavailable | Unknown | FailedPrecondition

record status =
  Code :: code
  Message :: string

text \<open>The outcome of a handler: it never returns, it returns an error, or it returns a response.\<close>

datatype 'a rpc = Hang | Fail status | Reply 'a

definition fail_with :: "code \<Rightarrow> string \<Rightarrow> 'a rpc" where
  "fail_with c m = Fail \<lparr>Code = c, Message = m\<rparr>"

section \<open>Decimal printing\<close>

definition digit :: "nat \<Rightarrow> char" where
  "digit d = char_of (48 + d)"

fun show_nat :: "nat \<Rightarrow> string" where
  "show_nat n = (if n < 10 then [digit n] else show_nat (n div 10) @ [digit (n mod 10)])"

declare show_nat.simps [simp del]

definition show_int :: "int \<Rightarrow> string" where
  "show_int i = (if i < 0 then CHR ''-'' # show_nat (nat (- i)) else show_nat (nat i))"

definition show_u64 :: "u64 \<Rightarrow> string" where
  "show_u64 w = show_nat (unat w)"

definition is_digit :: "char \<Rightarrow> bool" where
  "is_digit c \<longleftrightarrow> 48 \<le> (of_char c :: nat) \<and> (of_char c :: nat) \<le> 57"

definition digit_val :: "char \<Rightarrow> nat" where
  "digit_val c = of_char c - 48"

definition read_digits :: "string \<Rightarrow> nat" where
  "read_digits s = foldl (\<lambda>n c. 10 * n + digit_val c) 0 s"

lemma of_char_digit: "d < 10 \<Longrightarrow> (of_char (digit d) :: nat) = 48 + d"
  by (simp add: digit_def)

lemma is_digit_digit [simp]: "d < 10 \<Longrightarrow> is_digit (digit d)"
  by (simp add: is_digit_def of_char_digit)

lemma digit_val_digit [simp]: "d < 10 \<Longrightarrow> digit_val (digit d) = d"
  by (simp add: digit_val_def of_char_digit)

lemma show_nat_digits: "list_all is_digit (show_nat n)"
proof (induction n rule: show_nat.induct)
  case (1 n)
  show ?case
  proof (cases "n < 10")
    case True
    then show ?thesis by (subst show_nat.simps) simp
  next
    case False
    with 1 show ?thesis by (subst show_nat.simps) simp
  qed
qed

lemma show_nat_nonempty: "show_nat n \<noteq> []"
  by (subst show_nat.simps) simp

text \<open>Reading back what \<open>%d\<close> printed.\<close>

lemma read_show_nat [simp]: "read_digits (show_nat n) = n"
proof (induction n rule: show_nat.induct)
  case (1 n)
  show ?case
  proof (cases "n < 10")
    case True
    then show ?thesis by (subst show_nat.simps) (simp add: read_digits_def)
  next
    case False
    with 1 have "read_digits (show_nat (n div 10)) = n div 10" by simp
    with False show ?thesis by (subst show_nat.simps) (simp add: read_digits_def)
  qed
qed

lemma show_nat_inject: "show_nat m = show_nat n \<longleftrightarrow> m = n"
  by (metis read_show_nat)

section \<open>Random sources\<close>

record 'g world =
  draws :: "nat \<Rightarrow> nat"
  pos :: nat
  fake :: 'g

type_synonym ('g, 'a) gen = "'g world \<Rightarrow> ('a \<times> 'g world) go"

definition gret :: "'a \<Rightarrow> ('g, 'a) gen" where
  "gret x w = Inr (x, w)"

definition gbind :: "('g, 'a) gen \<Rightarrow> ('a \<Rightarrow> ('g, 'b) gen) \<Rightarrow> ('g, 'b) gen" where
  "gbind m k w = go_bind (m w) (\<lambda>(x, w'). k x w')"

definition Intn :: "int \<Rightarrow> ('g, nat) gen" where
  "Intn n w = (if n \<le> 0 then Inl RandPanic
               else Inr (draws w (pos w) mod nat n, w\<lparr>pos := Suc (pos w)\<rparr>))"

definition liftFake :: "('g \<Rightarrow> string \<times> 'g) \<Rightarrow> ('g, string) gen" where
  "liftFake f w = (case f (fake w) of (s, g) \<Rightarrow> Inr (s, w\<lparr>fake := g\<rparr>))"

text \<open>\<open>for i := 0; i < n; i++\<close> with a body that extends an accumulator.\<close>

fun loop :: "nat \<Rightarrow> ('a \<Rightarrow> ('g, 'a) gen) \<Rightarrow> 'a \<Rightarrow> ('g, 'a) gen" where
  "loop 0 body acc = gret acc"
| "loop (Suc n) body acc = gbind (body acc) (loop n body)"

text \<open>A generator that never panics and whose results all satisfy \<open>P\<close>: the specification from
  which the properties of the random databases are composed.\<close>

definition yields :: "('g, 'a) gen \<Rightarrow> ('a \<Rightarrow> bool) \<Rightarrow> bool" where
  "yields m P \<longleftrightarrow> (\<forall>w. \<exists>x w'. m w = Inr (x, w') \<and> P x)"

named_theorems gen_rules \<open>composition rules for generators\<close>

lemma yields_ret [gen_rules]: "P x \<Longrightarrow> yields (gret x) P"
  by (simp add: yields_def gret_def)

lemma yields_bind [gen_rules]: "yields m Q \<Longrightarrow> (\<And>x. Q x \<Longrightarrow> yields (k x) P) \<Longrightarrow> yields (gbind m k) P"
  unfolding yields_def gbind_def by (metis (mono_tags, lifting) case_prod_conv go_bind_simps(2))

lemma yields_Intn [gen_rules]: "0 < n \<Longrightarrow> yields (Intn n) (\<lambda>k. int k < n)"
  by (auto simp: yields_def Intn_def zless_nat_eq_int_zless [symmetric])

lemma yields_fake [gen_rules]: "yields (liftFake f) (\<lambda>_. True)"
  by (simp add: yields_def liftFake_def split: prod.split)

lemma yields_mono: "yields m P \<Longrightarrow> (\<And>x. P x \<Longrightarrow> Q x) \<Longrightarrow> yields m Q"
  unfolding yields_def by blast

lemma yields_loop:
  "I acc \<Longrightarrow> (\<And>a. I a \<Longrightarrow> yields (body a) I) \<Longrightarrow> yields (loop n body acc) I"
  by (induction n arbitrary: acc) (auto intro: yields_ret yields_bind)

end
