(* ===== verification/FailureInjection.thy ===== *)
theory FailureInjection
  imports Services
begin

text \<open>
  \<^verbatim>\<open>lab1/failure_injection/failure_injection.go\<close>: the injector every backend consults at the
  start of a request.  \<open>Config\<close> holds a pointer, so a request without a config can make it nil
  (\<open>None\<close>), and reading a field of it is then a nil dereference.  The sleep has no effect on
  the state; it is kept as the amount of time the call takes.
\<close>

record InjectionConfig =
  SleepNs :: int
  FailureRate :: int
  ResponseOmissionRate :: int

record FailureInjector =
  Config :: "InjectionConfig option"

definition SetInjectionConfig :: "int \<Rightarrow> int \<Rightarrow> int \<Rightarrow> FailureInjector \<Rightarrow> FailureInjector" where
  "SetInjectionConfig sleepNs failureRate responseOmissionRate fi =
     fi\<lparr>Config := Some \<lparr>SleepNs = sleepNs, FailureRate = failureRate, ResponseOmissionRate = responseOmissionRate\<rparr>\<rparr>"

definition MakeFailureInjector :: FailureInjector where
  "MakeFailureInjector = \<lparr>Config = Some \<lparr>SleepNs = 0, FailureRate = 0, ResponseOmissionRate = 0\<rparr>\<rparr>"

definition ClearInjectionConfig :: "FailureInjector \<Rightarrow> FailureInjector" where
  "ClearInjectionConfig fi = SetInjectionConfig 0 0 0 fi"

definition SetInjectionConfigPb :: "InjectionConfig option \<Rightarrow> FailureInjector \<Rightarrow> FailureInjector" where
  "SetInjectionConfigPb config fi = fi\<lparr>Config := config\<rparr>"

definition GetInjectionConfig :: "FailureInjector \<Rightarrow> InjectionConfig option" where
  "GetInjectionConfig fi = Config fi"

text \<open>\<open>rand.Int63n\<close> panics for a negative argument; 0 is handled before.\<close>

definition oneIn :: "int \<Rightarrow> ('g, bool) gen" where
  "oneIn n = (if n = 0 then gret False else gbind (Intn n) (\<lambda>k. gret (k = 0)))"

text \<open>\<open>None\<close>: the call blocks forever.  The two draws are made in this order, the second one also
  when the first said to fail.\<close>

definition MaybeInject :: "FailureInjector \<Rightarrow> ('g, bool option) gen" where
  "MaybeInject fi =
     (case GetInjectionConfig fi of
        None \<Rightarrow> (\<lambda>w. Inl NilDeref)
      | Some config \<Rightarrow>
          gbind (oneIn (FailureRate config)) (\<lambda>shouldError.
          gbind (oneIn (ResponseOmissionRate config)) (\<lambda>shouldOmitResponse.
            gret (if shouldOmitResponse then None else Some shouldError))))"

text \<open>The request handler of both backends around it: store the pointer, then log its fields.\<close>

definition SetInjectionConfig_handler :: "InjectionConfig option \<Rightarrow> FailureInjector \<Rightarrow> FailureInjector \<times> unit go" where
  "SetInjectionConfig_handler config fi =
     (SetInjectionConfigPb config fi, case config of None \<Rightarrow> Inl NilDeref | Some c \<Rightarrow> Inr ())"

section \<open>Behaviour\<close>

lemma oneIn_zero [simp]: "oneIn 0 = gret False"
  by (simp add: oneIn_def)

lemma oneIn_one: "oneIn 1 w = Inr (True, w\<lparr>pos := Suc (pos w)\<rparr>)"
  by (simp add: oneIn_def gbind_def Intn_def gret_def)

lemma oneIn_pos:
  "0 < n \<Longrightarrow> oneIn n w = Inr (draws w (pos w) mod nat n = 0, w\<lparr>pos := Suc (pos w)\<rparr>)"
  by (simp add: oneIn_def gbind_def Intn_def gret_def)

lemma oneIn_negative: "n < 0 \<Longrightarrow> oneIn n w = Inl RandPanic"
  by (simp add: oneIn_def gbind_def Intn_def)

lemma GetInjectionConfig_Set:
  "GetInjectionConfig (SetInjectionConfig s f r fi) =
     Some \<lparr>SleepNs = s, FailureRate = f, ResponseOmissionRate = r\<rparr>"
  by (simp add: GetInjectionConfig_def SetInjectionConfig_def)

lemma MaybeInject_clear: "MaybeInject (SetInjectionConfig s 0 0 fi) w = Inr (Some False, w)"
  by (simp add: MaybeInject_def GetInjectionConfig_Set gbind_def gret_def)

text \<open>The contract of an injector for its clients: after the configuration is set, a request with
  the two rates 0 is let through, and with failure rate 1 and no omission it always fails.\<close>

locale injector =
  fixes set_config :: "int \<Rightarrow> int \<Rightarrow> int \<Rightarrow> 'i \<Rightarrow> 'i" and inject :: "'i \<Rightarrow> ('g, bool option) gen"
  assumes off: "inject (set_config s 0 0 i) w = Inr (Some False, w)"
    and always: "\<exists>w'. inject (set_config s 1 0 i) w = Inr (Some True, w')"
    and omit: "0 \<le> f \<Longrightarrow> \<exists>w'. inject (set_config s f 1 i) w = Inr (None, w')"
begin

lemma off_reconfigured: "inject (set_config s 0 0 (set_config s' f r i)) w = Inr (Some False, w)"
  by (rule off)

end

lemma MaybeInject_always: "\<exists>w'. MaybeInject (SetInjectionConfig s 1 0 fi) w = Inr (Some True, w')"
  by (simp add: MaybeInject_def GetInjectionConfig_Set gbind_def gret_def oneIn_one)

lemma MaybeInject_omit: "0 \<le> f \<Longrightarrow> \<exists>w'. MaybeInject (SetInjectionConfig s f 1 fi) w = Inr (None, w')"
  by (cases "f = 0") (simp_all add: MaybeInject_def GetInjectionConfig_Set gbind_def gret_def oneIn_one oneIn_pos)

interpretation fi: injector SetInjectionConfig MaybeInject
  by unfold_locales (auto simp: MaybeInject_clear intro: MaybeInject_always MaybeInject_omit)

text \<open>
  What a request experiences for every configuration: without a config it dereferences nil; a
  negative rate panics; otherwise the request hangs exactly when the omission draw is 0, and
  fails exactly when it does not hang and the failure draw is 0 (a rate of 0 draws nothing and
  never fires).
\<close>

theorem MaybeInject_cases:
  "MaybeInject fi w =
     (case Config fi of
        None \<Rightarrow> Inl NilDeref
      | Some c \<Rightarrow>
          if FailureRate c < 0 \<or> ResponseOmissionRate c < 0 then Inl RandPanic
          else
            let p1 = (if FailureRate c = 0 then pos w else Suc (pos w));
                p2 = (if ResponseOmissionRate c = 0 then p1 else Suc p1);
                fails = (FailureRate c \<noteq> 0 \<and> draws w (pos w) mod nat (FailureRate c) = 0);
                omits = (ResponseOmissionRate c \<noteq> 0 \<and> draws w p1 mod nat (ResponseOmissionRate c) = 0)
            in Inr (if omits then None else Some fails, w\<lparr>pos := p2\<rparr>))"
proof (cases "Config fi")
  case None
  then show ?thesis by (simp add: MaybeInject_def GetInjectionConfig_def)
next
  case (Some c)
  have one: "oneIn n w = (if n < 0 then Inl RandPanic else if n = 0 then Inr (False, w)
      else Inr (draws w (pos w) mod nat n = 0, w\<lparr>pos := Suc (pos w)\<rparr>))" for n and w :: "'a world"
    using oneIn_pos [of n w] oneIn_negative [of n w] by (auto simp: gret_def)
  show ?thesis
    using Some by (auto simp: MaybeInject_def GetInjectionConfig_def gbind_def one gret_def Let_def)
qed

end
