(* ===== verification/UserService.thy ===== *)
theory UserService
  imports FailureInjection
begin

text \<open>
  \<^verbatim>\<open>lab1/user_service/server_lib/server_lib.go\<close> and its mock client: the random user database, the
  batch lookup \<open>GetUser\<close> with its checks in the order of the code, and the injection handler.
\<close>

record UserServiceOptions =
  us_Seed :: int
  us_SleepNs :: int
  us_FailureRate :: int
  us_ResponseOmissionRate :: int
  us_MaxBatchSize :: int

definition DefaultUserServiceOptions :: UserServiceOptions where
  "DefaultUserServiceOptions = \<lparr>us_Seed = 42, us_SleepNs = 0, us_FailureRate = 0,
     us_ResponseOmissionRate = 0, us_MaxBatchSize = 50\<rparr>"

definition USER_ID_OFFSET :: int where "USER_ID_OFFSET = 200000"
definition VIDEO_ID_OFFSET :: int where "VIDEO_ID_OFFSET = 1000"

text \<open>The part of \<open>gofakeit\<close> the two services use.\<close>

record 'g gofakeit =
  fk_Email :: "'g \<Rightarrow> string \<times> 'g"
  fk_Username :: "'g \<Rightarrow> string \<times> 'g"
  fk_AdjectiveDescriptive :: "'g \<Rightarrow> string \<times> 'g"
  fk_Vegetable :: "'g \<Rightarrow> string \<times> 'g"
  fk_Animal :: "'g \<Rightarrow> string \<times> 'g"
  fk_NounUncountable :: "'g \<Rightarrow> string \<times> 'g"
  fk_AppName :: "'g \<Rightarrow> string \<times> 'g"
  fk_HackerVerb :: "'g \<Rightarrow> string \<times> 'g"
  fk_AdverbPlace :: "'g \<Rightarrow> string \<times> 'g"
  fk_Name :: "'g \<Rightarrow> string \<times> 'g"

text \<open>The coefficient loop, the same in both services.\<close>

definition randomCoeffs :: "('g, coeffs) gen" where
  "randomCoeffs =
     gbind (Intn 10) (\<lambda>c.
       loop (c + 10) (\<lambda>m. gbind (Intn 20) (\<lambda>f. gbind (Intn 500) (\<lambda>v. gret (m(int f \<mapsto> of_nat v))))) Map.empty)"

definition makeRandomUser :: "'g gofakeit \<Rightarrow> u64 \<Rightarrow> int \<Rightarrow> int \<Rightarrow> ('g, UserInfo) gen" where
  "makeRandomUser fk userId maxUsers maxVideos =
     gbind (liftFake (fk_Email fk)) (\<lambda>email.
     gbind (liftFake (fk_Username fk)) (\<lambda>username.
     gbind randomCoeffs (\<lambda>coeffs.
     gbind (Intn 50) (\<lambda>subscribeCount.
     gbind (loop (subscribeCount + 10) (\<lambda>subs. gbind (Intn maxUsers) (\<lambda>k.
              let subscribed = word_of_int (int k + USER_ID_OFFSET) in
              gret (if subscribed \<noteq> userId then subs @ [subscribed] else subs))) []) (\<lambda>subs.
     gbind (Intn 20) (\<lambda>likeCount.
     gbind (loop (likeCount + 5) (\<lambda>likes. gbind (Intn maxVideos) (\<lambda>k.
              gret (likes @ [word_of_int (int k + VIDEO_ID_OFFSET)]))) []) (\<lambda>likes.
       gret \<lparr>ui_UserId = userId, Username = username, Email = email,
             ProfileUrl = ''https://user-service.localhost/profile/'' @ show_u64 userId,
             SubscribedTo = subs, UserCoefficients = coeffs, LikedVideos = likes\<rparr>)))))))"

text \<open>The loop over the user ids, from \<open>USER_ID_OFFSET\<close> upwards.\<close>

fun fillUsers :: "'g gofakeit \<Rightarrow> int \<Rightarrow> int \<Rightarrow> int \<Rightarrow> nat \<Rightarrow> (u64 \<rightharpoonup> UserInfo) \<Rightarrow> ('g, u64 \<rightharpoonup> UserInfo) gen" where
  "fillUsers fk maxUsers maxVideos userId 0 users = gret users"
| "fillUsers fk maxUsers maxVideos userId (Suc n) users =
     gbind (makeRandomUser fk (word_of_int userId) maxUsers maxVideos) (\<lambda>u.
       fillUsers fk maxUsers maxVideos (userId + 1) n (users(word_of_int userId \<mapsto> u)))"

definition makeRandomUsers :: "'g gofakeit \<Rightarrow> ('g, u64 \<rightharpoonup> UserInfo) gen" where
  "makeRandomUsers fk =
     gbind (Intn 500) (\<lambda>vc.
     gbind (Intn 5000) (\<lambda>uc.
       fillUsers fk (int uc + 5000) (int vc + 100) USER_ID_OFFSET (uc + 5000) Map.empty))"

record UserServiceServer =
  us_options :: UserServiceOptions
  us_fi :: FailureInjector
  users :: "u64 \<rightharpoonup> UserInfo"

text \<open>\<open>rand.Seed\<close> and \<open>gofakeit.Seed\<close> start both generators anew: \<open>src\<close> and \<open>fsrc\<close> give the
  sequences behind a seed.\<close>

definition seeded :: "(int \<Rightarrow> nat \<Rightarrow> nat) \<Rightarrow> (int \<Rightarrow> 'g) \<Rightarrow> int \<Rightarrow> 'g world" where
  "seeded src fsrc seed = \<lparr>draws = src seed, pos = 0, fake = fsrc seed\<rparr>"

definition MakeUserServiceServer :: "(int \<Rightarrow> nat \<Rightarrow> nat) \<Rightarrow> (int \<Rightarrow> 'g) \<Rightarrow> 'g gofakeit \<Rightarrow> UserServiceOptions
    \<Rightarrow> (UserServiceServer \<times> 'g world) go" where
  "MakeUserServiceServer src fsrc fk options =
     (let fi = SetInjectionConfig (us_SleepNs options) (us_FailureRate options) (us_ResponseOmissionRate options)
                 MakeFailureInjector in
      go_bind (makeRandomUsers fk (seeded src fsrc (us_Seed options))) (\<lambda>(us, w).
        Inr (\<lparr>us_options = options, us_fi = fi, users = us\<rparr>, w)))"

fun lookupAll :: "('k \<Rightarrow> string) \<Rightarrow> ('k \<rightharpoonup> 'v) \<Rightarrow> 'k list \<Rightarrow> 'v list rpc" where
  "lookupAll notFound db [] = Reply []"
| "lookupAll notFound db (k # ks) =
     (case db k of
        None \<Rightarrow> fail_with NotFound (notFound k)
      | Some v \<Rightarrow> (case lookupAll notFound db ks of Reply vs \<Rightarrow> Reply (v # vs) | r \<Rightarrow> r))"

definition userNotFound :: "u64 \<Rightarrow> string" where
  "userNotFound userId = ''UserService: user '' @ show_u64 userId @
     '' cannot be found, it may have been deleted or never existed in the first place.''"

definition userBatchMsg :: "int \<Rightarrow> string" where
  "userBatchMsg n = ''UserService: user_ids exceeded the max batch size '' @ show_int n"

definition GetUser :: "UserServiceServer \<Rightarrow> u64 list \<Rightarrow> ('g, UserInfo list rpc) gen" where
  "GetUser db userIds =
     gbind (MaybeInject (us_fi db)) (\<lambda>inj.
       gret (case inj of
          None \<Rightarrow> Hang
        | Some True \<Rightarrow> fail_with Internal ''UserService: (injected) internal error!''
        | Some False \<Rightarrow>
            if userIds = [] then
              fail_with InvalidArgument ''UserService: user_ids in GetUserRequest should not be empty''
            else if int (length userIds) > us_MaxBatchSize (us_options db) then
              fail_with InvalidArgument (userBatchMsg (us_MaxBatchSize (us_options db)))
            else lookupAll userNotFound (users db) userIds))"

definition UserService_SetInjectionConfig :: "InjectionConfig option \<Rightarrow> UserServiceServer
    \<Rightarrow> UserServiceServer \<times> unit go" where
  "UserService_SetInjectionConfig config db =
     (case SetInjectionConfig_handler config (us_fi db) of (fi, r) \<Rightarrow> (db\<lparr>us_fi := fi\<rparr>, r))"

text \<open>The mock client calls the in-memory server.\<close>

record MockUserServiceClient =
  us_inMemServer :: UserServiceServer

definition MakeMockUserServiceClient :: "(int \<Rightarrow> nat \<Rightarrow> nat) \<Rightarrow> (int \<Rightarrow> 'g) \<Rightarrow> 'g gofakeit \<Rightarrow> UserServiceOptions
    \<Rightarrow> (MockUserServiceClient \<times> 'g world) go" where
  "MakeMockUserServiceClient src fsrc fk options =
     go_bind (MakeUserServiceServer src fsrc fk options) (\<lambda>(s, w). Inr (\<lparr>us_inMemServer = s\<rparr>, w))"

definition mock_GetUser :: "MockUserServiceClient \<Rightarrow> u64 list \<Rightarrow> ('g, UserInfo list rpc) gen" where
  "mock_GetUser client req = GetUser (us_inMemServer client) req"

definition mock_UserService_SetInjectionConfig :: "InjectionConfig option \<Rightarrow> MockUserServiceClient
    \<Rightarrow> MockUserServiceClient \<times> unit go" where
  "mock_UserService_SetInjectionConfig config client =
     (case UserService_SetInjectionConfig config (us_inMemServer client) of (s, r) \<Rightarrow> (client\<lparr>us_inMemServer := s\<rparr>, r))"

section \<open>The random database\<close>

definition idRange :: "int \<Rightarrow> int \<Rightarrow> u64 set" where
  "idRange off m = word_of_int ` {off..<off + m}"

lemma idRange_add: "int k < m \<Longrightarrow> word_of_nat k + word_of_int off \<in> idRange off m"
  unfolding idRange_def by (rule image_eqI [of _ _ "int k + off"]) auto

lemma idRange_Suc: "idRange i (int (Suc n)) = insert (word_of_int i) (idRange (i + 1) (int n))"
proof -
  have "{i..<i + int (Suc n)} = insert i {i + 1..<i + 1 + int n}" by auto
  then show ?thesis by (simp add: idRange_def)
qed

definition user_ok :: "int \<Rightarrow> int \<Rightarrow> u64 \<Rightarrow> UserInfo \<Rightarrow> bool" where
  "user_ok maxUsers maxVideos userId u \<longleftrightarrow> ui_UserId u = userId \<and> 5 \<le> length (LikedVideos u) \<and>
     userId \<notin> set (SubscribedTo u) \<and>
     set (SubscribedTo u) \<subseteq> idRange USER_ID_OFFSET maxUsers \<and>
     set (LikedVideos u) \<subseteq> idRange VIDEO_ID_OFFSET maxVideos"

lemma yields_coeffs [gen_rules]: "yields randomCoeffs (\<lambda>_. True)"
  unfolding randomCoeffs_def
  by (intro yields_bind [OF yields_Intn] yields_loop) (auto intro!: yields_bind [OF yields_Intn] yields_ret)

lemma yields_subs:
  assumes "0 < m"
  shows "yields (loop n (\<lambda>subs. gbind (Intn m) (\<lambda>k. let s = word_of_int (int k + USER_ID_OFFSET) in
             gret (if s \<noteq> userId then subs @ [s] else subs))) [])
    (\<lambda>subs. userId \<notin> set subs \<and> set subs \<subseteq> idRange USER_ID_OFFSET m)"
  using assms by (intro yields_loop) (auto intro!: yields_bind [OF yields_Intn] yields_ret simp: Let_def idRange_add split: if_splits)

lemma loop_gains:
  assumes "\<And>l. yields (body l) (\<lambda>l'. length l' = Suc (length l) \<and> (P l \<longrightarrow> P l'))" and "P acc"
  shows "yields (loop n body acc) (\<lambda>l. length l = length acc + n \<and> P l)"
  using assms(2)
proof (induction n arbitrary: acc)
  case 0
  then show ?case by (simp add: yields_ret)
next
  case (Suc n)
  show ?case unfolding loop.simps
  proof (rule yields_bind [OF assms(1)])
    fix l assume l: "length l = Suc (length acc) \<and> (P acc \<longrightarrow> P l)"
    then have "P l" using Suc.prems by blast
    from Suc.IH [OF this] show "yields (loop n body l) (\<lambda>l. length l = length acc + Suc n \<and> P l)"
      by (rule yields_mono) (use l in auto)
  qed
qed

lemma yields_likes:
  assumes "0 < m"
  shows "yields (loop n (\<lambda>likes. gbind (Intn m) (\<lambda>k. gret (likes @ [word_of_int (int k + VIDEO_ID_OFFSET)]))) [])
    (\<lambda>likes. length likes = length ([] :: u64 list) + n \<and>
       set likes \<subseteq> idRange VIDEO_ID_OFFSET m)"
  using assms by (intro loop_gains yields_bind [OF yields_Intn] yields_ret) (auto simp: idRange_add)

lemma makeRandomUser_ok:
  "0 < maxUsers \<Longrightarrow> 0 < maxVideos \<Longrightarrow>
   yields (makeRandomUser fk userId maxUsers maxVideos) (user_ok maxUsers maxVideos userId)"
  unfolding makeRandomUser_def
  by (intro yields_bind [OF yields_fake] yields_bind [OF yields_coeffs] yields_bind [OF yields_Intn]
      yields_bind [OF yields_subs] yields_bind [OF yields_likes] yields_ret) (auto simp: user_ok_def)

text \<open>User ids stay below \<open>2\<^sup>6\<^sup>4\<close>, so distinct numbers are distinct keys.\<close>

lemma u64_inj: "inj_on (word_of_int :: int \<Rightarrow> u64) {0..<2 ^ 64}"
  by (rule inj_onI) (auto simp: word_of_int_eq_iff take_bit_int_eq_self)

definition users_ok :: "int \<Rightarrow> int \<Rightarrow> u64 set \<Rightarrow> (u64 \<rightharpoonup> UserInfo) \<Rightarrow> bool" where
  "users_ok maxUsers maxVideos ids m \<longleftrightarrow>
     dom m = ids \<and> (\<forall>i u. m i = Some u \<longrightarrow> user_ok maxUsers maxVideos i u)"

lemma fillUsers_ok:
  assumes "0 < maxUsers" and "0 < maxVideos"
  shows "users_ok maxUsers maxVideos ids m \<Longrightarrow>
    yields (fillUsers fk maxUsers maxVideos i n m)
      (users_ok maxUsers maxVideos (ids \<union> idRange i (int n)))"
proof (induction n arbitrary: i m ids)
  case 0
  then show ?case by (auto intro: yields_ret simp: idRange_def)
next
  case (Suc n)
  have eq: "ids \<union> idRange i (int (Suc n)) = insert (word_of_int i) ids \<union> idRange (i + 1) (int n)"
    by (simp only: idRange_Suc) auto
  show ?case unfolding fillUsers.simps eq
  proof (rule yields_bind [OF makeRandomUser_ok [OF assms]])
    fix u assume "user_ok maxUsers maxVideos (word_of_int i) u"
    with Suc.prems have "users_ok maxUsers maxVideos (insert (word_of_int i) ids) (m(word_of_int i \<mapsto> u))"
      by (auto simp: users_ok_def)
    from Suc.IH [OF this, of "i + 1"] show
      "yields (fillUsers fk maxUsers maxVideos (i + 1) n (m(word_of_int i \<mapsto> u)))
         (users_ok maxUsers maxVideos (insert (word_of_int i) ids \<union> idRange (i + 1) (int n)))" .
  qed
qed

text \<open>The first draw after seeding fixes the number of videos the likes range over.\<close>

definition videoCount :: "(int \<Rightarrow> nat \<Rightarrow> nat) \<Rightarrow> int \<Rightarrow> int" where
  "videoCount src seed = int (src seed 0 mod 500) + 100"

lemma MakeUserServiceServer_ok:
  "\<exists>s w n. MakeUserServiceServer src fsrc fk options = Inr (s, w) \<and> us_options s = options \<and>
     us_fi s = SetInjectionConfig (us_SleepNs options) (us_FailureRate options) (us_ResponseOmissionRate options)
                 MakeFailureInjector \<and>
     5000 \<le> n \<and> n < 10000 \<and>
     users_ok n (videoCount src (us_Seed options)) (idRange USER_ID_OFFSET n) (users s)"
proof -
  let ?w = "seeded src fsrc (us_Seed options)" and ?v = "videoCount src (us_Seed options)"
  define uc where "uc = src (us_Seed options) 1 mod 5000"
  define w2 where "w2 = ?w\<lparr>pos := 2\<rparr>"
  have "yields (fillUsers fk (int uc + 5000) ?v USER_ID_OFFSET (uc + 5000) Map.empty)
      (users_ok (int uc + 5000) ?v ({} \<union> idRange USER_ID_OFFSET (int (uc + 5000))))"
    by (rule fillUsers_ok) (auto simp: users_ok_def videoCount_def)
  then obtain us w where us: "fillUsers fk (int uc + 5000) ?v USER_ID_OFFSET (uc + 5000) Map.empty w2 = Inr (us, w)"
    "users_ok (int uc + 5000) ?v (idRange USER_ID_OFFSET (int uc + 5000)) us"
    unfolding yields_def by (metis (no_types, lifting) Un_empty_left of_nat_add of_nat_numeral)
  have "makeRandomUsers fk ?w = Inr (us, w)"
    using us(1) by (simp add: makeRandomUsers_def gbind_def Intn_def seeded_def videoCount_def uc_def w2_def numeral_2_eq_2)
  then show ?thesis
    using us(2) by (auto simp: MakeUserServiceServer_def Let_def uc_def intro!: exI [of _ "int uc + 5000"])
qed

section \<open>Batch lookup\<close>

lemma lookupAll_eq:
  "lookupAll nf db ks = (case find (\<lambda>k. db k = None) ks of
     None \<Rightarrow> Reply (map (\<lambda>k. the (db k)) ks) | Some k \<Rightarrow> fail_with NotFound (nf k))"
  by (induction ks) (auto simp: fail_with_def split: option.split)

lemma lookupAll_Reply_iff:
  "lookupAll nf db ks = Reply vs \<longleftrightarrow> set ks \<subseteq> dom db \<and> vs = map (\<lambda>k. the (db k)) ks"
proof (induction ks arbitrary: vs)
  case (Cons k ks)
  show ?case
  proof (cases "db k")
    case (Some v)
    with Cons.IH show ?thesis by (cases "lookupAll nf db ks") (auto simp: domIff)
  qed (auto simp: fail_with_def)
qed auto

lemma lookupAll_missing:
  "\<not> set ks \<subseteq> dom db \<Longrightarrow> \<exists>k \<in> set ks. db k = None \<and> lookupAll nf db ks = fail_with NotFound (nf k)"
proof (induction ks)
  case (Cons k ks)
  show ?case
  proof (cases "db k")
    case (Some v)
    with Cons have "\<exists>k \<in> set ks. db k = None \<and> lookupAll nf db ks = fail_with NotFound (nf k)" by auto
    with Some show ?thesis by (auto simp: fail_with_def)
  qed auto
qed simp

text \<open>
  C32. \<open>GetUser\<close> when nothing is injected: the answer is a list of users exactly when the request is
  not empty, not longer than the configured batch size and names only known users, and then it
  holds the record of each requested id, in order; the three kinds of bad request give
  \<open>InvalidArgument\<close>, \<open>InvalidArgument\<close> and \<open>NotFound\<close>, tested in this order.
\<close>

theorem GetUser_spec:
  assumes "MaybeInject (us_fi db) w = Inr (Some False, w')"
  shows "\<exists>r. GetUser db ids w = Inr (r, w') \<and>
    (\<forall>us. r = Reply us \<longleftrightarrow> ids \<noteq> [] \<and> int (length ids) \<le> us_MaxBatchSize (us_options db) \<and>
            set ids \<subseteq> dom (users db) \<and> us = map (\<lambda>i. the (users db i)) ids) \<and>
    (ids = [] \<or> int (length ids) > us_MaxBatchSize (us_options db) \<longrightarrow> (\<exists>m. r = fail_with InvalidArgument m)) \<and>
    (ids \<noteq> [] \<and> int (length ids) \<le> us_MaxBatchSize (us_options db) \<and> \<not> set ids \<subseteq> dom (users db) \<longrightarrow>
       (\<exists>i \<in> set ids. users db i = None \<and> r = fail_with NotFound (userNotFound i))) \<and> r \<noteq> Hang"
proof -
  let ?r = "if ids = [] then fail_with InvalidArgument ''UserService: user_ids in GetUserRequest should not be empty''
      else if int (length ids) > us_MaxBatchSize (us_options db) then
        fail_with InvalidArgument (userBatchMsg (us_MaxBatchSize (us_options db)))
      else lookupAll userNotFound (users db) ids"
  have e: "GetUser db ids w = Inr (?r, w')" using assms by (simp add: GetUser_def gbind_def gret_def)
  have nf: "\<exists>i \<in> set ids. users db i = None \<and> lookupAll userNotFound (users db) ids = fail_with NotFound (userNotFound i)"
    if "\<not> set ids \<subseteq> dom (users db)"
    using that by (rule lookupAll_missing)
  have nh: "lookupAll userNotFound (users db) ids \<noteq> Hang"
    by (simp add: lookupAll_eq fail_with_def split: option.split)
  show ?thesis
    by (rule exI [of _ ?r]) (use e nf nh in \<open>auto simp: fail_with_def lookupAll_Reply_iff\<close>)
qed

definition tiny_db :: UserServiceServer where
  "tiny_db = \<lparr>us_options = DefaultUserServiceOptions, us_fi = MakeFailureInjector, users =
     [200000 \<mapsto> \<lparr>ui_UserId = 200000, Username = ''ada'', Email = ''a@b'', ProfileUrl = '''', SubscribedTo = [],
                UserCoefficients = [0 \<mapsto> 3], LikedVideos = [1000, 1001]\<rparr>]\<rparr>"

theorem GetUser_spec_witness:
  "\<exists>u. GetUser tiny_db [200000] \<lparr>draws = (\<lambda>_. 0), pos = 0, fake = ()\<rparr> =
     Inr (Reply [u], \<lparr>draws = (\<lambda>_. 0), pos = 0, fake = ()\<rparr>) \<and> Username u = ''ada''"
proof -
  let ?w = "\<lparr>draws = (\<lambda>_. 0), pos = 0, fake = ()\<rparr>"
  have "MaybeInject (us_fi tiny_db) ?w = Inr (Some False, ?w)"
    using fi.off [of 0 MakeFailureInjector ?w]
    by (simp add: tiny_db_def SetInjectionConfig_def MakeFailureInjector_def)
  from GetUser_spec [OF this, of "[200000]"] show ?thesis
    by (auto simp: tiny_db_def DefaultUserServiceOptions_def)
qed

end
