(* ===== verification/VideoService.thy ===== *)
theory VideoService
  imports UserService
begin

text \<open>
  \<^verbatim>\<open>lab1/video_service/server_lib/server_lib.go\<close> and its mock client: the random video catalogue,
  batch lookup with the duplicate check, the trending list with its expiration time, and the
  injection handler.
\<close>

record VideoServiceOptions =
  vs_Seed :: int
  vs_TtlSeconds :: int
  vs_SleepNs :: int
  vs_FailureRate :: int
  vs_ResponseOmissionRate :: int
  vs_MaxBatchSize :: int

definition DefaultVideoServiceOptions :: VideoServiceOptions where
  "DefaultVideoServiceOptions = \<lparr>vs_Seed = 42, vs_TtlSeconds = 60, vs_SleepNs = 0, vs_FailureRate = 0,
     vs_ResponseOmissionRate = 0, vs_MaxBatchSize = 50\<rparr>"

text \<open>The four forms of a title.\<close>

definition randomTitle :: "'g gofakeit \<Rightarrow> nat \<Rightarrow> ('g, string) gen" where
  "randomTitle fk titleCase =
     (if titleCase = 0 then
        gbind (liftFake (fk_AdjectiveDescriptive fk)) (\<lambda>a. gbind (liftFake (fk_Vegetable fk)) (\<lambda>v.
          gret (a @ '' '' @ v)))
      else if titleCase = 1 then
        gbind (liftFake (fk_AdjectiveDescriptive fk)) (\<lambda>a. gbind (liftFake (fk_Animal fk)) (\<lambda>m.
        gbind (liftFake (fk_NounUncountable fk)) (\<lambda>n.
          gret (''The '' @ a @ '' '' @ m @ [CHR 0x27] @ ''s '' @ n))))
      else if titleCase = 2 then
        gbind (liftFake (fk_AppName fk)) (\<lambda>a. gbind (liftFake (fk_HackerVerb fk)) (\<lambda>h. gret (a @ '': '' @ h)))
      else
        gbind (liftFake (fk_AdjectiveDescriptive fk)) (\<lambda>a. gbind (liftFake (fk_AdverbPlace fk)) (\<lambda>p.
          gret (a @ '' '' @ p))))"

definition makeRandomVideo :: "'g gofakeit \<Rightarrow> u64 \<Rightarrow> ('g, VideoInfo) gen" where
  "makeRandomVideo fk videoId =
     gbind (Intn 4) (\<lambda>titleCase.
     gbind (randomTitle fk titleCase) (\<lambda>title.
     gbind (liftFake (fk_Name fk)) (\<lambda>author.
     gbind randomCoeffs (\<lambda>coeffs.
       gret \<lparr>vi_VideoId = videoId, Title = title, Author = author,
             Url = ''https://video-data.localhost/blob/'' @ show_u64 videoId, VideoCoefficients = coeffs\<rparr>))))"

text \<open>\<open>deduplicateIds\<close> keeps the first occurrence of each id: the loop state is the set seen so far
  and the list built.\<close>

fun dedupLoop :: "u64 list \<Rightarrow> u64 set \<Rightarrow> u64 list \<Rightarrow> u64 list" where
  "dedupLoop [] seen deduped = deduped"
| "dedupLoop (i # is) seen deduped =
     (if i \<notin> seen then dedupLoop is (insert i seen) (deduped @ [i]) else dedupLoop is seen deduped)"

definition deduplicateIds :: "u64 list \<Rightarrow> u64 list" where
  "deduplicateIds ids = dedupLoop ids {} []"

fun fillVideos :: "'g gofakeit \<Rightarrow> int \<Rightarrow> nat \<Rightarrow> (u64 \<rightharpoonup> VideoInfo) \<Rightarrow> ('g, u64 \<rightharpoonup> VideoInfo) gen" where
  "fillVideos fk videoId 0 videos = gret videos"
| "fillVideos fk videoId (Suc n) videos =
     gbind (makeRandomVideo fk (word_of_int videoId)) (\<lambda>v.
       fillVideos fk (videoId + 1) n (videos(word_of_int videoId \<mapsto> v)))"

definition makeRandomVideos :: "'g gofakeit \<Rightarrow> ('g, (u64 \<rightharpoonup> VideoInfo) \<times> u64 list) gen" where
  "makeRandomVideos fk =
     gbind (Intn 500) (\<lambda>vc.
     gbind (fillVideos fk VIDEO_ID_OFFSET (vc + 100) Map.empty) (\<lambda>videos.
     gbind (Intn 10) (\<lambda>tc.
     gbind (loop (tc + 10) (\<lambda>top. gbind (Intn (int vc + 100)) (\<lambda>k.
              gret (top @ [word_of_int (int k + VIDEO_ID_OFFSET)]))) []) (\<lambda>topVideos.
       gret (videos, deduplicateIds topVideos)))))"

record VideoServiceServer =
  vs_options :: VideoServiceOptions
  vs_fi :: FailureInjector
  videos :: "u64 \<rightharpoonup> VideoInfo"
  topVideos :: "u64 list"

definition MakeVideoServiceServer :: "(int \<Rightarrow> nat \<Rightarrow> nat) \<Rightarrow> (int \<Rightarrow> 'g) \<Rightarrow> 'g gofakeit \<Rightarrow> VideoServiceOptions
    \<Rightarrow> (VideoServiceServer \<times> 'g world) go" where
  "MakeVideoServiceServer src fsrc fk options =
     (let fi = SetInjectionConfig (vs_SleepNs options) (vs_FailureRate options) (vs_ResponseOmissionRate options)
                 MakeFailureInjector in
      go_bind (makeRandomVideos fk (seeded src fsrc (vs_Seed options))) (\<lambda>((vs, top), w).
        Inr (\<lparr>vs_options = options, vs_fi = fi, videos = vs, topVideos = top\<rparr>, w)))"

definition videoNotFound :: "u64 \<Rightarrow> string" where
  "videoNotFound videoId = ''VideoService: video '' @ show_u64 videoId @
     '' cannot be found, it may have been deleted or never existed in the first place.''"

definition videoBatchMsg :: "int \<Rightarrow> string" where
  "videoBatchMsg n = ''VideoService: video_ids exceeded the max batch size '' @ show_int n"

definition videoInjected :: "'a rpc" where
  "videoInjected = fail_with Internal ''VideoService: (injected) internal error!''"

definition GetVideo :: "VideoServiceServer \<Rightarrow> u64 list \<Rightarrow> ('g, VideoInfo list rpc) gen" where
  "GetVideo db videoIds =
     gbind (MaybeInject (vs_fi db)) (\<lambda>inj.
       gret (case inj of
          None \<Rightarrow> Hang
        | Some True \<Rightarrow> videoInjected
        | Some False \<Rightarrow>
            if videoIds = [] then
              fail_with InvalidArgument ''VideoService: video_ids in GetVideoRequest should not be empty''
            else if int (length videoIds) > vs_MaxBatchSize (vs_options db) then
              fail_with InvalidArgument (videoBatchMsg (vs_MaxBatchSize (vs_options db)))
            else if length (deduplicateIds videoIds) \<noteq> length videoIds then
              fail_with InvalidArgument ''VideoService: duplicate IDs found in video_ids''
            else lookupAll videoNotFound (videos db) videoIds))"

record GetTrendingVideosResponse =
  Videos :: "u64 list"
  ExpirationTimeS :: u64

text \<open>\<open>now\<close> is \<open>time.Now().Unix()\<close>; the sum is converted to \<open>uint64\<close>.\<close>

definition GetTrendingVideos :: "int \<Rightarrow> VideoServiceServer \<Rightarrow> ('g, GetTrendingVideosResponse rpc) gen" where
  "GetTrendingVideos now db =
     gbind (MaybeInject (vs_fi db)) (\<lambda>inj.
       gret (case inj of
          None \<Rightarrow> Hang
        | Some True \<Rightarrow> videoInjected
        | Some False \<Rightarrow> Reply \<lparr>Videos = topVideos db,
                               ExpirationTimeS = word_of_int (now + vs_TtlSeconds (vs_options db))\<rparr>))"

definition VideoService_SetInjectionConfig :: "InjectionConfig option \<Rightarrow> VideoServiceServer
    \<Rightarrow> VideoServiceServer \<times> unit go" where
  "VideoService_SetInjectionConfig config db =
     (case SetInjectionConfig_handler config (vs_fi db) of (fi, r) \<Rightarrow> (db\<lparr>vs_fi := fi\<rparr>, r))"

record MockVideoServiceClient =
  vs_inMemServer :: VideoServiceServer

definition MakeMockVideoServiceClient :: "(int \<Rightarrow> nat \<Rightarrow> nat) \<Rightarrow> (int \<Rightarrow> 'g) \<Rightarrow> 'g gofakeit \<Rightarrow> VideoServiceOptions
    \<Rightarrow> (MockVideoServiceClient \<times> 'g world) go" where
  "MakeMockVideoServiceClient src fsrc fk options =
     go_bind (MakeVideoServiceServer src fsrc fk options) (\<lambda>(s, w). Inr (\<lparr>vs_inMemServer = s\<rparr>, w))"

definition mock_GetVideo :: "MockVideoServiceClient \<Rightarrow> u64 list \<Rightarrow> ('g, VideoInfo list rpc) gen" where
  "mock_GetVideo client req = GetVideo (vs_inMemServer client) req"

definition mock_GetTrendingVideos :: "int \<Rightarrow> MockVideoServiceClient \<Rightarrow> ('g, GetTrendingVideosResponse rpc) gen" where
  "mock_GetTrendingVideos now client = GetTrendingVideos now (vs_inMemServer client)"

definition mock_VideoService_SetInjectionConfig :: "InjectionConfig option \<Rightarrow> MockVideoServiceClient
    \<Rightarrow> MockVideoServiceClient \<times> unit go" where
  "mock_VideoService_SetInjectionConfig config client =
     (case VideoService_SetInjectionConfig config (vs_inMemServer client) of (s, r) \<Rightarrow> (client\<lparr>vs_inMemServer := s\<rparr>, r))"

section \<open>Deduplication\<close>

lemma dedupLoop_append: "dedupLoop is seen d = d @ dedupLoop is seen []"
proof (induction "is" arbitrary: seen d)
  case (Cons i "is")
  show ?case
    using Cons [of "insert i seen" "d @ [i]"] Cons [of "insert i seen" "[i]"] Cons [of seen d] by simp
qed simp

lemma dedupLoop_set: "set (dedupLoop is seen []) = set is - seen"
  by (induction "is" arbitrary: seen) (auto simp: dedupLoop_append [of _ _ "[_]"])

lemma dedupLoop_distinct: "distinct (dedupLoop is seen [])"
  by (induction "is" arbitrary: seen) (auto simp: dedupLoop_append [of _ _ "[_]"] dedupLoop_set)

lemma dedupLoop_id: "distinct is \<Longrightarrow> set is \<inter> seen = {} \<Longrightarrow> dedupLoop is seen [] = is"
  by (induction "is" arbitrary: seen) (auto simp: dedupLoop_append [of _ _ "[_]"])

lemma dedupLoop_length: "length (dedupLoop is seen []) \<le> length is"
  by (induction "is" arbitrary: seen) (auto simp: dedupLoop_append [of _ _ "[_]"] le_SucI)

lemma dedup_set: "set (deduplicateIds ids) = set ids"
  by (simp add: deduplicateIds_def dedupLoop_set)

lemma dedup_distinct: "distinct (deduplicateIds ids)"
  by (simp add: deduplicateIds_def dedupLoop_distinct)

lemma dedup_id: "distinct ids \<Longrightarrow> deduplicateIds ids = ids"
  by (simp add: deduplicateIds_def dedupLoop_id)

text \<open>The duplicate check of \<open>GetVideo\<close> compares lengths.\<close>

lemma dedup_length_iff: "length (deduplicateIds ids) = length ids \<longleftrightarrow> distinct ids"
proof
  assume "length (deduplicateIds ids) = length ids"
  then have "card (set ids) = length ids"
    using distinct_card [OF dedup_distinct, of ids] by (simp add: dedup_set)
  then show "distinct ids" by (rule card_distinct)
next
  assume "distinct ids"
  then show "length (deduplicateIds ids) = length ids" by (simp add: dedup_id)
qed

section \<open>The random catalogue\<close>

lemma yields_title [gen_rules]: "yields (randomTitle fk c) (\<lambda>_. True)"
  unfolding randomTitle_def by (auto intro!: yields_bind [OF yields_fake] yields_ret)

lemma makeRandomVideo_ok: "yields (makeRandomVideo fk i) (\<lambda>v. vi_VideoId v = i)"
  unfolding makeRandomVideo_def
  by (intro yields_bind [OF yields_Intn] yields_bind [OF yields_title] yields_bind [OF yields_fake]
      yields_bind [OF yields_coeffs] yields_ret) auto

definition videos_ok :: "u64 set \<Rightarrow> (u64 \<rightharpoonup> VideoInfo) \<Rightarrow> bool" where
  "videos_ok ids m \<longleftrightarrow> dom m = ids \<and> (\<forall>i v. m i = Some v \<longrightarrow> vi_VideoId v = i)"

lemma fillVideos_ok:
  "videos_ok ids m \<Longrightarrow> yields (fillVideos fk i n m) (videos_ok (ids \<union> idRange i (int n)))"
proof (induction n arbitrary: i m ids)
  case 0
  then show ?case by (auto intro: yields_ret simp: idRange_def)
next
  case (Suc n)
  have eq: "ids \<union> idRange i (int (Suc n)) = insert (word_of_int i) ids \<union> idRange (i + 1) (int n)"
    by (simp only: idRange_Suc) auto
  show ?case unfolding fillVideos.simps eq
  proof (rule yields_bind [OF makeRandomVideo_ok])
    fix v :: VideoInfo assume "vi_VideoId v = word_of_int i"
    with Suc.prems have "videos_ok (insert (word_of_int i) ids) (m(word_of_int i \<mapsto> v))"
      by (auto simp: videos_ok_def)
    from Suc.IH [OF this, of "i + 1"] show "yields (fillVideos fk (i + 1) n (m(word_of_int i \<mapsto> v)))
         (videos_ok (insert (word_of_int i) ids \<union> idRange (i + 1) (int n)))" .
  qed
qed

definition catalogue_ok :: "int \<Rightarrow> (u64 \<rightharpoonup> VideoInfo) \<times> u64 list \<Rightarrow> bool" where
  "catalogue_ok n c \<longleftrightarrow> videos_ok (idRange VIDEO_ID_OFFSET n) (fst c) \<and> distinct (snd c) \<and> snd c \<noteq> [] \<and>
     set (snd c) \<subseteq> idRange VIDEO_ID_OFFSET n"

lemma catalogue_rest_ok:
  "yields (gbind (fillVideos fk VIDEO_ID_OFFSET (vc + 100) Map.empty) (\<lambda>videos.
     gbind (Intn 10) (\<lambda>tc.
     gbind (loop (tc + 10) (\<lambda>top. gbind (Intn (int vc + 100)) (\<lambda>k.
              gret (top @ [word_of_int (int k + VIDEO_ID_OFFSET)]))) []) (\<lambda>topVideos.
       gret (videos, deduplicateIds topVideos))))) (catalogue_ok (int vc + 100))"
proof (rule yields_bind [OF fillVideos_ok [of "{}"]])
  show "videos_ok {} Map.empty" by (simp add: videos_ok_def)
next
  fix vs assume v: "videos_ok ({} \<union> idRange VIDEO_ID_OFFSET (int (vc + 100))) vs"
  have d: "deduplicateIds top = [] \<longleftrightarrow> length top = 0" for top :: "u64 list"
    using dedup_set [of top] by auto
  show "yields (gbind (Intn 10) (\<lambda>tc.
     gbind (loop (tc + 10) (\<lambda>top. gbind (Intn (int vc + 100)) (\<lambda>k.
              gret (top @ [word_of_int (int k + VIDEO_ID_OFFSET)]))) []) (\<lambda>topVideos.
       gret (vs, deduplicateIds topVideos)))) (catalogue_ok (int vc + 100))"
    by (intro yields_bind [OF yields_Intn] yields_bind [OF yields_likes] yields_ret)
      (use v d in \<open>auto simp: catalogue_ok_def dedup_distinct dedup_set add.commute\<close>)
qed

lemma MakeVideoServiceServer_ok:
  "\<exists>s w. MakeVideoServiceServer src fsrc fk options = Inr (s, w) \<and> vs_options s = options \<and>
     vs_fi s = SetInjectionConfig (vs_SleepNs options) (vs_FailureRate options) (vs_ResponseOmissionRate options)
                 MakeFailureInjector \<and>
     catalogue_ok (videoCount src (vs_Seed options)) (videos s, topVideos s)"
proof -
  let ?w = "seeded src fsrc (vs_Seed options)"
  define vc where "vc = src (vs_Seed options) 0 mod 500"
  from catalogue_rest_ok [of fk vc, unfolded yields_def, rule_format, of "?w\<lparr>pos := 1\<rparr>"]
  obtain vs top w where r: "gbind (fillVideos fk VIDEO_ID_OFFSET (vc + 100) Map.empty) (\<lambda>videos.
     gbind (Intn 10) (\<lambda>tc.
     gbind (loop (tc + 10) (\<lambda>top. gbind (Intn (int vc + 100)) (\<lambda>k.
              gret (top @ [word_of_int (int k + VIDEO_ID_OFFSET)]))) []) (\<lambda>topVideos.
       gret (videos, deduplicateIds topVideos)))) (?w\<lparr>pos := 1\<rparr>) = Inr ((vs, top), w)"
    "catalogue_ok (int vc + 100) (vs, top)" by auto
  have "Intn 500 ?w = Inr (vc, ?w\<lparr>pos := 1\<rparr>)" by (simp add: Intn_def seeded_def vc_def)
  then have "makeRandomVideos fk ?w = Inr ((vs, top), w)"
    unfolding makeRandomVideos_def gbind_def [of "Intn 500"] by (simp only: go_bind_simps case_prod_conv r(1))
  then show ?thesis
    using r(2) by (simp add: MakeVideoServiceServer_def Let_def videoCount_def vc_def)
qed

section \<open>Properties\<close>

text \<open>
  \<open>GetVideo\<close> when nothing is injected: the answer is a list of videos exactly when the request
  is not empty, within the batch size, free of duplicates and names only known videos, and it
  holds the record of each requested id in order; every other request is an \<open>InvalidArgument\<close> or
  a \<open>NotFound\<close> error.
\<close>

theorem GetVideo_spec:
  assumes "MaybeInject (vs_fi db) w = Inr (Some False, w')"
  shows "\<exists>r. GetVideo db ids w = Inr (r, w') \<and>
    (\<forall>vs. r = Reply vs \<longleftrightarrow> ids \<noteq> [] \<and> int (length ids) \<le> vs_MaxBatchSize (vs_options db) \<and> distinct ids \<and>
            set ids \<subseteq> dom (videos db) \<and> vs = map (\<lambda>i. the (videos db i)) ids) \<and>
    (ids = [] \<or> int (length ids) > vs_MaxBatchSize (vs_options db) \<or> \<not> distinct ids \<longrightarrow>
       (\<exists>m. r = fail_with InvalidArgument m)) \<and>
    (ids \<noteq> [] \<and> int (length ids) \<le> vs_MaxBatchSize (vs_options db) \<and> distinct ids \<and> \<not> set ids \<subseteq> dom (videos db) \<longrightarrow>
       (\<exists>i \<in> set ids. videos db i = None \<and> r = fail_with NotFound (videoNotFound i)))"
proof -
  let ?r = "if ids = [] then fail_with InvalidArgument ''VideoService: video_ids in GetVideoRequest should not be empty''
      else if int (length ids) > vs_MaxBatchSize (vs_options db) then
        fail_with InvalidArgument (videoBatchMsg (vs_MaxBatchSize (vs_options db)))
      else if \<not> distinct ids then fail_with InvalidArgument ''VideoService: duplicate IDs found in video_ids''
      else lookupAll videoNotFound (videos db) ids"
  have e: "GetVideo db ids w = Inr (?r, w')"
    using assms by (simp add: GetVideo_def gbind_def gret_def dedup_length_iff)
  have nf: "\<exists>i \<in> set ids. videos db i = None \<and> lookupAll videoNotFound (videos db) ids = fail_with NotFound (videoNotFound i)"
    if "\<not> set ids \<subseteq> dom (videos db)"
    using that by (rule lookupAll_missing)
  show ?thesis
    by (rule exI [of _ ?r]) (use e nf in \<open>auto simp: fail_with_def lookupAll_Reply_iff\<close>)
qed

definition tiny_catalogue :: VideoServiceServer where
  "tiny_catalogue = \<lparr>vs_options = DefaultVideoServiceOptions, vs_fi = MakeFailureInjector, videos =
     [1000 \<mapsto> \<lparr>vi_VideoId = 1000, Title = ''one'', Author = ''x'', Url = '''', VideoCoefficients = [0 \<mapsto> 2]\<rparr>,
      1001 \<mapsto> \<lparr>vi_VideoId = 1001, Title = ''two'', Author = ''y'', Url = '''', VideoCoefficients = [0 \<mapsto> 5]\<rparr>],
     topVideos = [1001]\<rparr>"

theorem GetVideo_spec_witness:
  "\<exists>a b. GetVideo tiny_catalogue [1001, 1000] \<lparr>draws = (\<lambda>_. 0), pos = 0, fake = ()\<rparr> =
     Inr (Reply [a, b], \<lparr>draws = (\<lambda>_. 0), pos = 0, fake = ()\<rparr>) \<and> Title a = ''two'' \<and> Title b = ''one''"
proof -
  let ?w = "\<lparr>draws = (\<lambda>_. 0), pos = 0, fake = ()\<rparr>"
  have "MaybeInject (vs_fi tiny_catalogue) ?w = Inr (Some False, ?w)"
    using fi.off [of 0 MakeFailureInjector ?w]
    by (simp add: tiny_catalogue_def SetInjectionConfig_def MakeFailureInjector_def)
  from GetVideo_spec [OF this, of "[1001, 1000]"] show ?thesis
    by (auto simp: tiny_catalogue_def DefaultVideoServiceOptions_def)
qed

text \<open>
  Backends started from the same seed agree: both constructors finish without a panic for every
  random source and every fake-data generator, the users have the ids from
  \<open>USER_ID_OFFSET\<close> on, and every video a user likes and every trending video is in the catalogue of
  the video service.
\<close>

theorem same_seed_likes_known:
  "\<exists>us w vs w' n. MakeUserServiceServer src fsrc fk uo = Inr (us, w) \<and>
     MakeVideoServiceServer src fsrc' fk' (vo\<lparr>vs_Seed := us_Seed uo\<rparr>) = Inr (vs, w') \<and>
     5000 \<le> n \<and> n < 10000 \<and> dom (users us) = word_of_int ` {200000..<200000 + n} \<and>
     (\<Union>u \<in> ran (users us). set (LikedVideos u)) \<subseteq> dom (videos vs) \<and>
     topVideos vs \<noteq> [] \<and> distinct (topVideos vs) \<and> set (topVideos vs) \<subseteq> dom (videos vs)"
proof -
  from MakeUserServiceServer_ok [of src fsrc fk uo] obtain us w n where
    u: "MakeUserServiceServer src fsrc fk uo = Inr (us, w)" "5000 \<le> n" "n < 10000"
      "users_ok n (videoCount src (us_Seed uo)) (idRange USER_ID_OFFSET n) (users us)" by blast
  from MakeVideoServiceServer_ok [of src fsrc' fk' "vo\<lparr>vs_Seed := us_Seed uo\<rparr>"] obtain vs w' where
    v: "MakeVideoServiceServer src fsrc' fk' (vo\<lparr>vs_Seed := us_Seed uo\<rparr>) = Inr (vs, w')"
      "catalogue_ok (videoCount src (us_Seed uo)) (videos vs, topVideos vs)" by auto
  have "dom (users us) = word_of_int ` {200000..<200000 + n}"
    using u(4) by (simp add: users_ok_def idRange_def USER_ID_OFFSET_def)
  moreover have "(\<Union>u \<in> ran (users us). set (LikedVideos u)) \<subseteq> dom (videos vs)"
    using u(4) v(2) by (fastforce simp: users_ok_def user_ok_def catalogue_ok_def videos_ok_def ran_def)
  moreover have "topVideos vs \<noteq> []" "distinct (topVideos vs)" "set (topVideos vs) \<subseteq> dom (videos vs)"
    using v(2) by (auto simp: catalogue_ok_def videos_ok_def)
  ultimately show ?thesis using u(1-3) v(1) by blast
qed

end
