(* ===== verification/DetBcrypt.thy ===== *)
theory DetBcrypt
  imports Services
begin

unbundle bit_operations_syntax

text \<open>
  \<^verbatim>\<open>lab1/det_bcrypt/det_bcrypt.go\<close>: bcrypt with a fixed salt.  Modelled are the base64 codec of
  the package (the standard library's \<open>Encoding\<close> with the bcrypt alphabet, and the two wrappers that
  strip and restore the padding), the textual format of a hash and its parser, and the
  public functions.  Blowfish (\<open>golang.org/x/crypto/blowfish\<close>) is a parameter: \<open>nsc\<close> is
  \<open>NewSaltedCipher\<close>, \<open>ek\<close> is \<open>ExpandKey\<close>, \<open>enc\<close> encrypts one 8-byte block.
\<close>

type_synonym byte = "8 word"

section \<open>Base64 with the bcrypt alphabet\<close>

definition byte_of :: "char \<Rightarrow> byte" where
  "byte_of c = of_nat (of_char c)"

definition bytes_of :: "string \<Rightarrow> byte list" where
  "bytes_of s = map byte_of s"

definition alphabet :: "byte list" where
  "alphabet = bytes_of ''./ABCDEFGHIJKLMNOPQRSTUVWXYZabcdefghijklmnopqrstuvwxyz0123456789''"

definition pad :: byte where "pad = byte_of (CHR ''='')"

text \<open>The sextets of a group of one, two or three bytes.\<close>

definition sextets3 :: "byte \<Rightarrow> byte \<Rightarrow> byte \<Rightarrow> nat list" where
  "sextets3 a b c = (let v = unat a * 65536 + unat b * 256 + unat c in
     [v div 262144, (v div 4096) mod 64, (v div 64) mod 64, v mod 64])"

fun Encode :: "byte list \<Rightarrow> byte list" where
  "Encode (a # b # c # rest) = map (\<lambda>s. alphabet ! s) (sextets3 a b c) @ Encode rest"
| "Encode [a, b] = map (\<lambda>s. alphabet ! s) (take 3 (sextets3 a b 0)) @ [pad]"
| "Encode [a] = map (\<lambda>s. alphabet ! s) (take 2 (sextets3 a 0 0)) @ [pad, pad]"
| "Encode [] = []"

text \<open>Position in the alphabet (the decode map).\<close>

fun position :: "'a \<Rightarrow> 'a list \<Rightarrow> nat option" where
  "position x [] = None"
| "position x (y # ys) = (if x = y then Some 0 else map_option Suc (position x ys))"

definition sextet :: "byte \<Rightarrow> nat option" where
  "sextet b = position b alphabet"

definition unpack :: "nat \<Rightarrow> nat \<Rightarrow> nat \<Rightarrow> nat \<Rightarrow> byte list" where
  "unpack p q r s = (let v = p * 262144 + q * 4096 + r * 64 + s in
     [of_nat (v div 65536), of_nat ((v div 256) mod 256), of_nat (v mod 256)])"

text \<open>\<open>Encoding.Decode\<close>: line breaks are skipped, padding ends the input; \<open>None\<close> is a
  \<open>CorruptInputError\<close>.\<close>

fun decodeQuanta :: "byte list \<Rightarrow> byte list option" where
  "decodeQuanta [] = Some []"
| "decodeQuanta (a # b # c # d # rest) =
     (case (sextet a, sextet b) of
        (Some p, Some q) \<Rightarrow>
          (case sextet c of
             None \<Rightarrow> if c = pad \<and> d = pad \<and> rest = [] then Some (take 1 (unpack p q 0 0)) else None
           | Some r \<Rightarrow>
               (case sextet d of
                  None \<Rightarrow> if d = pad \<and> rest = [] then Some (take 2 (unpack p q r 0)) else None
                | Some s \<Rightarrow> map_option (\<lambda>bs. unpack p q r s @ bs) (decodeQuanta rest)))
      | _ \<Rightarrow> None)"
| "decodeQuanta _ = None"

definition Decode :: "byte list \<Rightarrow> byte list option" where
  "Decode src = decodeQuanta (filter (\<lambda>b. b \<noteq> 10 \<and> b \<noteq> 13) src)"

text \<open>\<open>for dst[n-1] == '=' { n-- }\<close>: on an empty input \<open>dst[-1]\<close> is out of range.\<close>

definition base64Encode :: "byte list \<Rightarrow> byte list go" where
  "base64Encode src =
     (let kept = rev (dropWhile (\<lambda>b. b = pad) (rev (Encode src)))
      in if kept = [] then Inl IndexOutOfRange else Inr kept)"

definition base64Decode :: "byte list \<Rightarrow> byte list option" where
  "base64Decode src = Decode (src @ replicate (4 - length src mod 4) pad)"

section \<open>Hashes\<close>

definition MinCost :: int where "MinCost = 1"
definition MaxCost :: int where "MaxCost = 31"
definition DefaultCost :: int where "DefaultCost = 10"
definition majorVersion :: byte where "majorVersion = byte_of (CHR ''2'')"
definition minorVersion :: byte where "minorVersion = byte_of (CHR ''a'')"
definition maxSaltSize :: nat where "maxSaltSize = 16"
definition maxCryptedHashSize :: nat where "maxCryptedHashSize = 23"
definition encodedSaltSize :: nat where "encodedSaltSize = 22"
definition encodedHashSize :: nat where "encodedHashSize = 31"
definition minHashSize :: nat where "minHashSize = 59"

datatype bcrypt_error =
    ErrMismatchedHashAndPassword
  | ErrHashTooShort
  | HashVersionTooNewError byte
  | InvalidHashPrefixError byte
  | InvalidCostError int
  | AtoiError "byte list"
  | CorruptInputError
  | CipherError string
  | Panic go_panic

type_synonym 'a res = "bcrypt_error + 'a"

definition magicCipherData :: "byte list" where
  "magicCipherData =
     [0x4f, 0x72, 0x70, 0x68, 0x65, 0x61, 0x6e, 0x42, 0x65, 0x68, 0x6f, 0x6c,
      0x64, 0x65, 0x72, 0x53, 0x63, 0x72, 0x79, 0x44, 0x6f, 0x75, 0x62, 0x74]"

record hashed =
  hash :: "byte list"
  salt :: "byte list"
  cost :: int
  major :: byte
  minor :: byte

definition rbind :: "'a res \<Rightarrow> ('a \<Rightarrow> 'b res) \<Rightarrow> 'b res" where
  "rbind m f = (case m of Inl e \<Rightarrow> Inl e | Inr a \<Rightarrow> f a)"

lemma rbind_simps [simp]: "rbind (Inl e) f = Inl e" "rbind (Inr a) f = f a"
  by (simp_all add: rbind_def)

lemma rbind_Inr_iff: "rbind m f = Inr b \<longleftrightarrow> (\<exists>a. m = Inr a \<and> f a = Inr b)"
  by (cases m) auto

definition panics :: "'a go \<Rightarrow> 'a res" where
  "panics m = (case m of Inl e \<Rightarrow> Inl (Panic e) | Inr a \<Rightarrow> Inr a)"

lemma panics_simps [simp]: "panics (Inl e) = Inl (Panic e)" "panics (Inr a) = Inr a"
  by (simp_all add: panics_def)

definition checkCost :: "int \<Rightarrow> unit res" where
  "checkCost c = (if c < MinCost \<or> c > MaxCost then Inl (InvalidCostError c) else Inr ())"

section \<open>The cipher\<close>

definition expensiveBlowfishSetup :: "(byte list \<Rightarrow> byte list \<Rightarrow> string + 'c) \<Rightarrow> (byte list \<Rightarrow> 'c \<Rightarrow> 'c)
    \<Rightarrow> byte list \<Rightarrow> int \<Rightarrow> byte list \<Rightarrow> 'c res" where
  "expensiveBlowfishSetup nsc ek key cst slt =
     (case base64Decode slt of
        None \<Rightarrow> Inl CorruptInputError
      | Some csalt \<Rightarrow>
          let ckey = key @ [0] in
          (case nsc ckey csalt of
             Inl e \<Rightarrow> Inl (CipherError e)
           | Inr c \<Rightarrow> Inr (((\<lambda>c. ek csalt (ek ckey c)) ^^ (2 ^ nat cst)) c)))"

text \<open>64 encryptions of each 8-byte block of the magic text, in place.\<close>

definition encryptBlock :: "('c \<Rightarrow> byte list \<Rightarrow> byte list) \<Rightarrow> 'c \<Rightarrow> nat \<Rightarrow> byte list \<Rightarrow> byte list" where
  "encryptBlock enc c i d = take i d @ (enc c ^^ 64) (take 8 (drop i d)) @ drop (i + 8) d"

definition bcrypt :: "(byte list \<Rightarrow> byte list \<Rightarrow> string + 'c) \<Rightarrow> (byte list \<Rightarrow> 'c \<Rightarrow> 'c)
    \<Rightarrow> ('c \<Rightarrow> byte list \<Rightarrow> byte list) \<Rightarrow> byte list \<Rightarrow> int \<Rightarrow> byte list \<Rightarrow> byte list res" where
  "bcrypt nsc ek enc password cst slt =
     rbind (expensiveBlowfishSetup nsc ek password cst slt) (\<lambda>c.
       let cipherData = fold (encryptBlock enc c) [0, 8, 16] magicCipherData
       in panics (base64Encode (take maxCryptedHashSize cipherData)))"

definition newFromPassword :: "(byte list \<Rightarrow> byte list \<Rightarrow> string + 'c) \<Rightarrow> (byte list \<Rightarrow> 'c \<Rightarrow> 'c)
    \<Rightarrow> ('c \<Rightarrow> byte list \<Rightarrow> byte list) \<Rightarrow> byte list \<Rightarrow> int \<Rightarrow> hashed res" where
  "newFromPassword nsc ek enc password cst0 =
     (let cst = (if cst0 < MinCost then DefaultCost else cst0) in
      rbind (checkCost cst) (\<lambda>_.
      rbind (panics (base64Encode (replicate maxSaltSize (byte_of (CHR ''a''))))) (\<lambda>slt.
      rbind (bcrypt nsc ek enc password cst slt) (\<lambda>h.
        Inr \<lparr>hash = h, salt = slt, cost = cst, major = majorVersion, minor = minorVersion\<rparr>))))"

section \<open>The textual form\<close>

text \<open>\<open>copy(arr[n:], src)\<close>.\<close>

definition copy_at :: "nat \<Rightarrow> byte list \<Rightarrow> byte list \<Rightarrow> byte list" where
  "copy_at n src arr = take n arr @ take (length arr - n) src @ drop (n + length src) arr"

definition show2 :: "int \<Rightarrow> string" where
  "show2 i = (let s = show_int i in replicate (2 - length s) (CHR ''0'') @ s)"

definition Hash :: "hashed \<Rightarrow> byte list" where
  "Hash p =
     (let dollar = byte_of (CHR ''$'');
          arr = (replicate 60 0)[0 := dollar, 1 := major p];
          (arr, n) = (if minor p \<noteq> 0 then (arr[2 := minor p], 3) else (arr, 2));
          arr = arr[n := dollar]; n = n + 1;
          arr = copy_at n (bytes_of (show2 (cost p))) arr; n = n + 2;
          arr = arr[n := dollar]; n = n + 1;
          arr = copy_at n (salt p) arr; n = n + encodedSaltSize;
          arr = copy_at n (hash p) arr; n = n + encodedHashSize
      in take n arr)"

text \<open>\<open>strconv.Atoi\<close> of two bytes: an optional sign followed by digits.\<close>

definition atoi :: "byte list \<Rightarrow> int res" where
  "atoi bs =
     (let s = map (\<lambda>b. char_of (unat b)) bs;
          (neg, ds) = (case s of c # cs \<Rightarrow> (if c = CHR ''-'' then (True, cs) else if c = CHR ''+'' then (False, cs)
                                           else (False, s)) | [] \<Rightarrow> (False, s))
      in if ds \<noteq> [] \<and> list_all is_digit ds
         then Inr (if neg then - int (read_digits ds) else int (read_digits ds)) else Inl (AtoiError bs))"

definition decodeVersion :: "byte list \<Rightarrow> hashed \<Rightarrow> (hashed \<times> nat) res" where
  "decodeVersion sbytes p =
     (if sbytes ! 0 \<noteq> byte_of (CHR ''$'') then Inl (InvalidHashPrefixError (sbytes ! 0))
      else if sbytes ! 1 > majorVersion then Inl (HashVersionTooNewError (sbytes ! 1))
      else let p1 = p\<lparr>major := sbytes ! 1\<rparr> in
           if sbytes ! 2 \<noteq> byte_of (CHR ''$'') then Inr (p1\<lparr>minor := sbytes ! 2\<rparr>, 4) else Inr (p1, 3))"

definition decodeCost :: "byte list \<Rightarrow> hashed \<Rightarrow> (hashed \<times> nat) res" where
  "decodeCost sbytes p =
     rbind (atoi (take 2 sbytes)) (\<lambda>c.
     rbind (checkCost c) (\<lambda>_. Inr (p\<lparr>cost := c\<rparr>, 3)))"

text \<open>A hash of at least 59 bytes is long enough for every index and slice below.\<close>

definition newFromHash :: "byte list \<Rightarrow> hashed res" where
  "newFromHash hashedSecret =
     (if length hashedSecret < minHashSize then Inl ErrHashTooShort
      else
        rbind (decodeVersion hashedSecret \<lparr>hash = [], salt = [], cost = 0, major = 0, minor = 0\<rparr>) (\<lambda>(p, n).
        let s1 = drop n hashedSecret in
        rbind (decodeCost s1 p) (\<lambda>(p, n).
        let s2 = drop n s1 in
          Inr (p\<lparr>salt := take encodedSaltSize s2, hash := drop encodedSaltSize s2\<rparr>))))"

section \<open>Public functions\<close>

definition GenerateFromPassword :: "(byte list \<Rightarrow> byte list \<Rightarrow> string + 'c) \<Rightarrow> (byte list \<Rightarrow> 'c \<Rightarrow> 'c)
    \<Rightarrow> ('c \<Rightarrow> byte list \<Rightarrow> byte list) \<Rightarrow> byte list \<Rightarrow> int \<Rightarrow> byte list res" where
  "GenerateFromPassword nsc ek enc password cst =
     rbind (newFromPassword nsc ek enc password cst) (\<lambda>p. Inr (Hash p))"

definition CompareHashAndPassword :: "(byte list \<Rightarrow> byte list \<Rightarrow> string + 'c) \<Rightarrow> (byte list \<Rightarrow> 'c \<Rightarrow> 'c)
    \<Rightarrow> ('c \<Rightarrow> byte list \<Rightarrow> byte list) \<Rightarrow> byte list \<Rightarrow> byte list \<Rightarrow> unit res" where
  "CompareHashAndPassword nsc ek enc hashedPassword password =
     rbind (newFromHash hashedPassword) (\<lambda>p.
     rbind (bcrypt nsc ek enc password (cost p) (salt p)) (\<lambda>otherHash.
       if Hash p = Hash (p\<lparr>hash := otherHash\<rparr>) then Inr () else Inl ErrMismatchedHashAndPassword))"

definition Cost :: "byte list \<Rightarrow> int res" where
  "Cost hashedPassword = rbind (newFromHash hashedPassword) (\<lambda>p. Inr (cost p))"

section \<open>Base64: the codec is a round trip\<close>

lemma alphabet_length [simp]: "length alphabet = 64"
  by (simp add: alphabet_def bytes_of_def)

lemma alphabet_distinct: "distinct alphabet"
  by (simp add: alphabet_def bytes_of_def byte_of_def)

lemma pad_notin: "pad \<notin> set alphabet"
  by (simp add: alphabet_def bytes_of_def byte_of_def pad_def)

lemma breaks_notin: "10 \<notin> set alphabet" "13 \<notin> set alphabet"
  by (simp_all add: alphabet_def bytes_of_def byte_of_def)

lemma position_nth: "distinct xs \<Longrightarrow> i < length xs \<Longrightarrow> position (xs ! i) xs = Some i"
proof (induction xs arbitrary: i)
  case (Cons x xs)
  then show ?case by (cases i) auto
qed simp

lemma position_None: "x \<notin> set xs \<Longrightarrow> position x xs = None"
  by (induction xs) auto

lemma sextet_alphabet [simp]: "i < 64 \<Longrightarrow> sextet (alphabet ! i) = Some i"
  by (simp add: sextet_def position_nth alphabet_distinct)

lemma sextet_pad [simp]: "sextet pad = None"
  by (simp add: sextet_def position_None pad_notin)

lemma byte_less: "unat (a :: byte) < 256"
  using unsigned_less [of a, where ?'a = nat] by simp

lemma sextets3_bound: "s \<in> set (sextets3 a b c) \<Longrightarrow> s < 64"
proof -
  have "unat a * 65536 + unat b * 256 + unat c < 256 * 65536"
    using byte_less [of a] byte_less [of b] byte_less [of c] by linarith
  then show "s \<in> set (sextets3 a b c) \<Longrightarrow> s < 64"
    by (auto simp: sextets3_def Let_def less_mult_imp_div_less)
qed

lemma sextets_value:
  fixes v :: nat
  shows "v div 262144 * 262144 + v div 4096 mod 64 * 4096 + v div 64 mod 64 * 64 + v mod 64 = v"
proof -
  have "v div 262144 = v div 4096 div 64" "v div 4096 = v div 64 div 64" by (simp_all add: div_mult2_eq [symmetric])
  then show ?thesis
    using div_mult_mod_eq [of "v div 4096" 64] div_mult_mod_eq [of "v div 64" 64] div_mult_mod_eq [of v 64] by linarith
qed

lemma unpack_bytes:
  assumes "p * 262144 + q * 4096 + r * 64 + s = unat a * 65536 + unat b * 256 + unat c"
  shows "unpack p q r s = [a, b, c]"
proof -
  have a: "(unat a * 65536 + unat b * 256 + unat c) div 65536 = unat a"
    using byte_less [of b] byte_less [of c] by simp
  have "(unat a * 65536 + unat b * 256 + unat c) div 256 = unat a * 256 + unat b"
    using byte_less [of c] by simp
  then have b: "(unat a * 65536 + unat b * 256 + unat c) div 256 mod 256 = unat b"
    using byte_less [of b] by simp
  have "unat a * 65536 + unat b * 256 + unat c = unat c + 256 * (unat a * 256 + unat b)" by simp
  then have c: "(unat a * 65536 + unat b * 256 + unat c) mod 256 = unat c"
    using byte_less [of c] by (simp only: mod_mult_self2 mod_less)
  show ?thesis unfolding unpack_def assms Let_def a b c by simp
qed

text \<open>The code without its padding, which is what the wrappers pass on.\<close>

fun EncodeRaw :: "byte list \<Rightarrow> byte list" where
  "EncodeRaw (a # b # c # rest) = map (\<lambda>s. alphabet ! s) (sextets3 a b c) @ EncodeRaw rest"
| "EncodeRaw [a, b] = map (\<lambda>s. alphabet ! s) (take 3 (sextets3 a b 0))"
| "EncodeRaw [a] = map (\<lambda>s. alphabet ! s) (take 2 (sextets3 a 0 0))"
| "EncodeRaw [] = []"

lemma sextets3_length [simp]: "length (sextets3 a b c) = 4"
  by (simp add: sextets3_def Let_def)

lemma EncodeRaw_alphabet: "set (EncodeRaw xs) \<subseteq> set alphabet"
  by (induction xs rule: EncodeRaw.induct)
    (auto dest!: in_set_takeD dest: sextets3_bound intro!: nth_mem)

lemma Encode_raw: "\<exists>k. Encode xs = EncodeRaw xs @ replicate k pad"
proof (induction xs rule: EncodeRaw.induct)
  case (1 a b c rest)
  then show ?case by auto
next
  case (2 a b)
  show ?case by (intro exI [of _ 1]) simp
next
  case (3 a)
  show ?case by (intro exI [of _ 2]) (simp add: numeral_2_eq_2)
next
  case 4
  show ?case by (intro exI [of _ 0]) simp
qed

lemma dropWhile_all: "P x \<Longrightarrow> dropWhile P (replicate k x @ ys) = dropWhile P ys"
  by (induction k) auto

lemma base64Encode_raw: "src \<noteq> [] \<Longrightarrow> base64Encode src = Inr (EncodeRaw src)"
proof -
  assume "src \<noteq> []"
  from Encode_raw obtain k where k: "Encode src = EncodeRaw src @ replicate k pad" by blast
  have ne: "EncodeRaw src \<noteq> []"
    using \<open>src \<noteq> []\<close> by (cases src rule: EncodeRaw.cases) (auto simp: sextets3_def Let_def)
  have "pad \<notin> set (EncodeRaw src)" using EncodeRaw_alphabet pad_notin by blast
  then have "dropWhile (\<lambda>b. b = pad) (rev (EncodeRaw src)) = rev (EncodeRaw src)"
    by (simp add: dropWhile_eq_self_iff ne) (metis ne last_in_set hd_rev)
  then show ?thesis using ne by (simp add: base64Encode_def k dropWhile_all Let_def)
qed

lemma EncodeRaw_length:
  "length (EncodeRaw xs) = 4 * (length xs div 3) + (if length xs mod 3 = 0 then 0 else length xs mod 3 + 1)"
proof (induction xs rule: EncodeRaw.induct)
  case (1 a b c rest)
  have "length (a # b # c # rest) div 3 = Suc (length rest div 3)" "length (a # b # c # rest) mod 3 = length rest mod 3"
    by simp_all
  with 1 show ?case by (simp only: EncodeRaw.simps length_append length_map sextets3_length) simp
qed auto

text \<open>Decoding what was encoded, with \<open>k\<close> padding characters restored.\<close>

lemma decode_group:
  "decodeQuanta (map (\<lambda>s. alphabet ! s) (sextets3 a b c) @ rest) = map_option (\<lambda>bs. a # b # c # bs) (decodeQuanta rest)"
proof -
  obtain p q r s where e: "sextets3 a b c = [p, q, r, s]" by (simp add: sextets3_def Let_def)
  then have l: "p < 64" "q < 64" "r < 64" "s < 64" using sextets3_bound [of _ a b c] by auto
  have "p * 262144 + q * 4096 + r * 64 + s = unat a * 65536 + unat b * 256 + unat c"
    using e sextets_value [of "unat a * 65536 + unat b * 256 + unat c"] by (auto simp: sextets3_def Let_def)
  then have "unpack p q r s = [a, b, c]" by (rule unpack_bytes)
  then have "(\<lambda>bs. unpack p q r s @ bs) = (\<lambda>bs. a # b # c # bs)" by auto
  then show ?thesis using l by (simp add: e)
qed

lemma decode_two:
  "decodeQuanta (map (\<lambda>s. alphabet ! s) (take 3 (sextets3 a b 0)) @ [pad]) = Some [a, b]"
proof -
  define v where "v = unat a * 65536 + unat b * 256"
  obtain p q r s where e: "sextets3 a b 0 = [p, q, r, s]" by (simp add: sextets3_def Let_def)
  then have l: "p < 64" "q < 64" "r < 64" using sextets3_bound [of _ a b 0] by auto
  have "s = v mod 64" using e by (simp add: sextets3_def Let_def v_def)
  moreover have "v = 64 * (unat a * 1024 + unat b * 4)" by (simp add: v_def)
  ultimately have "s = 0" by simp
  moreover have "p * 262144 + q * 4096 + r * 64 + s = unat a * 65536 + unat b * 256 + unat (0 :: byte)"
    using e sextets_value [of "unat a * 65536 + unat b * 256 + unat (0 :: byte)"] by (auto simp: sextets3_def Let_def)
  ultimately have "unpack p q r 0 = [a, b, 0]" using unpack_bytes by blast
  then show ?thesis using l by (simp add: e numeral_3_eq_3)
qed

lemma decode_one:
  "decodeQuanta (map (\<lambda>s. alphabet ! s) (take 2 (sextets3 a 0 0)) @ [pad, pad]) = Some [a]"
proof -
  define v where "v = unat a * 65536"
  obtain p q r s where e: "sextets3 a 0 0 = [p, q, r, s]" by (simp add: sextets3_def Let_def)
  then have l: "p < 64" "q < 64" using sextets3_bound [of _ a 0 0] by auto
  have rs: "r = v div 64 mod 64" "s = v mod 64" using e by (auto simp: sextets3_def Let_def v_def)
  have "v = 64 * (unat a * 1024)" "unat a * 1024 = 64 * (unat a * 16)" by (simp_all add: v_def)
  then have "r = 0" "s = 0" unfolding rs by simp_all
  moreover have "p * 262144 + q * 4096 + r * 64 + s = unat a * 65536 + unat (0 :: byte) * 256 + unat (0 :: byte)"
    using e sextets_value [of "unat a * 65536 + unat (0 :: byte) * 256 + unat (0 :: byte)"]
    by (auto simp: sextets3_def Let_def)
  ultimately have "unpack p q 0 0 = [a, 0, 0]" using unpack_bytes by blast
  then show ?thesis using l by (simp add: e numeral_2_eq_2)
qed

lemma decode_raw:
  "length xs mod 3 \<noteq> 0 \<Longrightarrow>
   decodeQuanta (EncodeRaw xs @ replicate (4 - length (EncodeRaw xs) mod 4) pad) = Some xs"
proof (induction xs rule: EncodeRaw.induct)
  case (1 a b c rest)
  then have "length rest mod 3 \<noteq> 0" by simp
  with 1 show ?case by (simp add: decode_group)
next
  case (2 a b)
  then show ?case using decode_two [of a b] by simp
next
  case (3 a)
  then show ?case using decode_one [of a] by (simp add: numeral_2_eq_2)
qed simp

lemma decode_raw_full:
  "length xs mod 3 = 0 \<Longrightarrow> decodeQuanta (EncodeRaw xs @ replicate 4 pad) = None"
proof (induction xs rule: EncodeRaw.induct)
  case (1 a b c rest)
  then have "length rest mod 3 = 0" by simp
  with 1 show ?case by (simp add: decode_group)
next
  case 4
  have "replicate 4 pad = [pad, pad, pad, pad]" by (simp add: numeral_eq_Suc)
  then show ?case by simp
qed auto

lemma no_breaks: "filter (\<lambda>b. b \<noteq> 10 \<and> b \<noteq> 13) (EncodeRaw xs @ replicate k pad) = EncodeRaw xs @ replicate k pad"
proof -
  have "pad \<noteq> 10" "pad \<noteq> 13" by (simp_all add: pad_def byte_of_def)
  moreover have "b \<noteq> 10 \<and> b \<noteq> 13" if "b \<in> set (EncodeRaw xs)" for b
    using that EncodeRaw_alphabet breaks_notin by blast
  ultimately show ?thesis by (intro filter_True) auto
qed

text \<open>
  C29. The base64 wrappers: decoding what \<open>base64Encode\<close> produced gives the input back when its
  length is not a multiple of 3.  For a multiple of 3 the wrapper appends four padding characters
  to an already complete code and the decoder reports corrupt input.
\<close>

theorem base64_roundtrip:
  assumes "src \<noteq> []"
  shows "\<exists>code. base64Encode src = Inr code \<and>
    base64Decode code = (if length src mod 3 = 0 then None else Some src)"
proof -
  have m: "length (EncodeRaw src) mod 4 = 0" if "length src mod 3 = 0"
    using that by (simp add: EncodeRaw_length)
  show ?thesis
    by (rule exI [of _ "EncodeRaw src"])
      (use assms m in \<open>simp add: base64Encode_raw base64Decode_def Decode_def no_breaks decode_raw decode_raw_full
         del: filter_append\<close>)
qed

theorem base64_roundtrip_witness:
  "\<exists>code. base64Encode [1, 2, 3, 255] = Inr code \<and> base64Decode code = Some [1, 2, 3, 255 :: byte]"
  using base64_roundtrip [of "[1, 2, 3, 255]"] by simp

section \<open>The textual form of a hash\<close>

lemma copy_at_split:
  "length ys = length src \<Longrightarrow> length xs = n \<Longrightarrow> copy_at n src (xs @ ys @ zs) = xs @ src @ zs"
  by (simp add: copy_at_def)

lemma cost_digits:
  assumes "1 \<le> c" and "c \<le> 31"
  shows "length (bytes_of (show2 c)) = 2" "atoi (bytes_of (show2 c)) = Inr c"
proof -
  have "list_all (\<lambda>c. length (bytes_of (show2 c)) = 2 \<and> atoi (bytes_of (show2 c)) = Inr c) [1..31]"
    by code_simp
  moreover have "c \<in> set [1..31]" using assms by simp
  ultimately show "length (bytes_of (show2 c)) = 2" "atoi (bytes_of (show2 c)) = Inr c"
    unfolding list_all_iff by blast+
qed

lemma zeros60: "replicate 60 (0 :: byte) = [0, 0, 0, 0] @ replicate 2 0 @ [0] @ replicate 22 0 @ replicate 31 0"
  by (simp add: numeral_eq_Suc)

definition hash_ok :: "hashed \<Rightarrow> bool" where
  "hash_ok p \<longleftrightarrow> length (salt p) = 22 \<and> length (hash p) = 31 \<and> 1 \<le> cost p \<and> cost p \<le> 31 \<and>
     major p = majorVersion \<and> minor p = minorVersion"

lemma Hash_text:
  assumes "length (salt p) = 22" and "length (hash p) = 31" and "1 \<le> cost p" and "cost p \<le> 31" and "minor p \<noteq> 0"
  shows "Hash p = [byte_of (CHR ''$''), major p, minor p, byte_of (CHR ''$'')] @ bytes_of (show2 (cost p)) @
    [byte_of (CHR ''$'')] @ salt p @ hash p"
proof -
  define d where "d = byte_of (CHR ''$'')"
  define ds where "ds = bytes_of (show2 (cost p))"
  define a1 where "a1 = [d, major p, minor p, d] @ ds @ [0] @ replicate 22 0 @ replicate 31 (0 :: byte)"
  have ds: "length ds = 2" using assms(3,4) by (simp add: ds_def cost_digits)
  have s1: "copy_at 4 ds ([d, major p, minor p, d] @ replicate 2 0 @ [0] @ replicate 22 0 @ replicate 31 0) = a1"
    unfolding a1_def by (rule copy_at_split) (use ds in simp_all)
  have s2: "a1[6 := d] = ([d, major p, minor p, d] @ ds @ [d]) @ replicate 22 0 @ replicate 31 0"
    using ds by (simp add: a1_def list_update_append numeral_eq_Suc)
  have s3: "copy_at 7 (salt p) (a1[6 := d]) = ([d, major p, minor p, d] @ ds @ [d] @ salt p) @ replicate 31 0 @ []"
    unfolding s2 by (subst copy_at_split) (use ds assms(1) in simp_all)
  have s4: "copy_at 29 (hash p) (copy_at 7 (salt p) (a1[6 := d])) = [d, major p, minor p, d] @ ds @ [d] @ salt p @ hash p"
    unfolding s3 by (subst copy_at_split) (use ds assms(1,2) in simp_all)
  have s0: "(replicate 60 0)[0 := d, 1 := major p, 2 := minor p, 3 := d] =
      [d, major p, minor p, d] @ replicate 2 0 @ [0] @ replicate 22 0 @ replicate 31 0"
    unfolding zeros60 by simp
  show ?thesis
    unfolding Hash_def d_def [symmetric] ds_def [symmetric]
    using assms(1,2,5) s0 s1 s4 ds
    by (simp add: encodedSaltSize_def encodedHashSize_def Let_def)
qed

lemma version_bytes: "minorVersion \<noteq> 0" "minorVersion \<noteq> byte_of (CHR ''$'')" "\<not> majorVersion < majorVersion"
  by code_simp+

text \<open>Parsing the text of a hash gives the hash back.\<close>

lemma newFromHash_Hash: "hash_ok p \<Longrightarrow> newFromHash (Hash p) = Inr p"
proof -
  assume ok: "hash_ok p"
  define ds where "ds = bytes_of (show2 (cost p))"
  have c: "length ds = 2" "atoi ds = Inr (cost p)" using ok by (auto simp: ds_def hash_ok_def cost_digits)
  have h: "Hash p = [byte_of (CHR ''$''), majorVersion, minorVersion, byte_of (CHR ''$'')] @ ds @
      [byte_of (CHR ''$'')] @ salt p @ hash p"
    using Hash_text [of p] ok version_bytes(1) by (simp add: hash_ok_def ds_def)
  have l: "length (Hash p) = 60" using ok c by (simp add: h hash_ok_def)
  have v: "decodeVersion (Hash p) \<lparr>hash = [], salt = [], cost = 0, major = 0, minor = 0\<rparr> =
      Inr (\<lparr>hash = [], salt = [], cost = 0, major = majorVersion, minor = minorVersion\<rparr>, 4)"
    unfolding decodeVersion_def h using version_bytes by (simp add: numeral_2_eq_2)
  have k: "decodeCost (drop 4 (Hash p)) \<lparr>hash = [], salt = [], cost = 0, major = majorVersion, minor = minorVersion\<rparr> =
      Inr (\<lparr>hash = [], salt = [], cost = cost p, major = majorVersion, minor = minorVersion\<rparr>, 3)"
    using ok c by (simp add: decodeCost_def h checkCost_def hash_ok_def MinCost_def MaxCost_def numeral_eq_Suc)
  have d: "drop 3 (drop 4 (Hash p)) = salt p @ hash p" using c by (simp add: h numeral_eq_Suc)
  show ?thesis
    unfolding newFromHash_def v rbind_simps prod.case Let_def k d
    using ok l by (simp add: hash_ok_def encodedSaltSize_def minHashSize_def)
qed

lemma encryptBlock_length:
  assumes "\<forall>c b. length b = 8 \<longrightarrow> length (enc c b) = 8" and "i + 8 \<le> length d"
  shows "length (encryptBlock enc c i d) = length d"
proof -
  have "length ((enc c ^^ n) (take 8 (drop i d))) = 8" for n
    by (induction n) (use assms in auto)
  then show ?thesis using assms(2) by (simp add: encryptBlock_def)
qed

lemma bcrypt_length:
  assumes "\<forall>c b. length b = 8 \<longrightarrow> length (enc c b) = 8" and "bcrypt nsc ek enc pw cst slt = Inr h"
  shows "length h = 31"
proof -
  from assms(2) obtain c where c: "panics (base64Encode (take maxCryptedHashSize
      (fold (encryptBlock enc c) [0, 8, 16] magicCipherData))) = Inr h"
    by (auto simp: bcrypt_def rbind_Inr_iff Let_def)
  let ?d = "take maxCryptedHashSize (fold (encryptBlock enc c) [0, 8, 16] magicCipherData)"
  have l: "length ?d = 23"
    by (simp add: encryptBlock_length [OF assms(1)] magicCipherData_def maxCryptedHashSize_def)
  then have "?d \<noteq> []" by auto
  with c have "h = EncodeRaw ?d" by (simp add: base64Encode_raw)
  with l show ?thesis by (simp add: EncodeRaw_length)
qed

lemma newFromPassword_ok:
  assumes "\<forall>c b. length b = 8 \<longrightarrow> length (enc c b) = 8" and "newFromPassword nsc ek enc pw cst = Inr p"
  shows "hash_ok p \<and> cost p = (if cst < 1 then 10 else cst) \<and>
    bcrypt nsc ek enc pw (cost p) (salt p) = Inr (hash p)"
proof -
  let ?s = "replicate maxSaltSize (byte_of (CHR ''a''))"
  have "base64Encode ?s = Inr (EncodeRaw ?s)" by (rule base64Encode_raw) (simp add: maxSaltSize_def)
  moreover have "length (EncodeRaw ?s) = 22" by (simp add: EncodeRaw_length maxSaltSize_def)
  ultimately show ?thesis
    using assms bcrypt_length [OF assms(1)]
    by (auto simp: newFromPassword_def rbind_Inr_iff Let_def checkCost_def hash_ok_def MinCost_def MaxCost_def
        DefaultCost_def split: if_splits)
qed

text \<open>
  C28. Generate and verify: for any cipher whose block operation keeps the block size, a hash that
  \<open>GenerateFromPassword\<close> returns has 60 bytes, reports the cost it was made with (the default cost
  for a cost below the minimum), and \<open>CompareHashAndPassword\<close> accepts a password exactly when
  its raw hash at that cost and salt is the one the text holds; in particular it accepts the
  password the hash was made from.
\<close>

theorem GenerateFromPassword_verifies:
  assumes "\<forall>c b. length b = 8 \<longrightarrow> length (enc c b) = 8"
    and "GenerateFromPassword nsc ek enc pw cst = Inr h"
  shows "length h = 60 \<and> Cost h = Inr (if cst < 1 then 10 else cst) \<and>
    CompareHashAndPassword nsc ek enc h pw = Inr () \<and>
    (\<exists>p. newFromHash h = Inr p \<and> (\<forall>pw'. CompareHashAndPassword nsc ek enc h pw' = Inr () \<longleftrightarrow>
        bcrypt nsc ek enc pw' (cost p) (salt p) = Inr (hash p)))"
proof -
  from assms(2) obtain p where p: "newFromPassword nsc ek enc pw cst = Inr p" "h = Hash p"
    by (auto simp: GenerateFromPassword_def rbind_Inr_iff)
  from newFromPassword_ok [OF assms(1) p(1)] have ok: "hash_ok p" "cost p = (if cst < 1 then 10 else cst)"
    "bcrypt nsc ek enc pw (cost p) (salt p) = Inr (hash p)" by auto
  note parse = newFromHash_Hash [OF ok(1)]
  have eq: "Hash (p\<lparr>hash := h'\<rparr>) = Hash p \<longleftrightarrow> h' = hash p" if "length h' = 31" for h'
    using Hash_text [of p] Hash_text [of "p\<lparr>hash := h'\<rparr>"] ok(1) version_bytes that by (auto simp: hash_ok_def)
  have cmp: "CompareHashAndPassword nsc ek enc h pw' = Inr () \<longleftrightarrow>
      bcrypt nsc ek enc pw' (cost p) (salt p) = Inr (hash p)" for pw'
  proof (cases "bcrypt nsc ek enc pw' (cost p) (salt p)")
    case (Inr h')
    from bcrypt_length [OF assms(1) this] Inr parse eq [of h'] show ?thesis
      by (auto simp: CompareHashAndPassword_def p(2))
  qed (simp add: CompareHashAndPassword_def p(2) parse)
  have "length h = 60"
    using Hash_text [of p] ok(1) version_bytes by (simp add: p(2) hash_ok_def cost_digits)
  then show ?thesis using cmp parse ok by (auto simp: Cost_def p(2))
qed

lemma base64Decode_raw: "length xs mod 3 \<noteq> 0 \<Longrightarrow> base64Decode (EncodeRaw xs) = Some xs"
  by (simp add: base64Decode_def Decode_def no_breaks decode_raw del: filter_append)

text \<open>A cipher that is always created makes every hash, whatever the password, for every cost up to
  the maximum.\<close>

lemma GenerateFromPassword_total:
  assumes "\<forall>c b. length b = 8 \<longrightarrow> length (enc c b) = 8" and "\<forall>k s. \<exists>c. nsc k s = Inr c" and "cst \<le> 31"
  shows "\<exists>h. GenerateFromPassword nsc ek enc pw cst = Inr h"
proof -
  let ?s = "replicate maxSaltSize (byte_of (CHR ''a''))" and ?c = "if cst < MinCost then DefaultCost else cst"
  have s: "base64Encode ?s = Inr (EncodeRaw ?s)" "base64Decode (EncodeRaw ?s) = Some ?s"
    by (rule base64Encode_raw, simp add: maxSaltSize_def, rule base64Decode_raw, simp add: maxSaltSize_def)
  from assms(2) obtain c where "nsc (pw @ [0]) ?s = Inr c" by blast
  then obtain c' where c': "expensiveBlowfishSetup nsc ek pw ?c (EncodeRaw ?s) = Inr c'"
    by (simp add: expensiveBlowfishSetup_def s Let_def)
  have "take maxCryptedHashSize (fold (encryptBlock enc c') [0, 8, 16] magicCipherData) \<noteq> []"
    using encryptBlock_length [OF assms(1)] by (auto simp: magicCipherData_def maxCryptedHashSize_def
        dest!: arg_cong [of _ "[]" length])
  then obtain h where "bcrypt nsc ek enc pw ?c (EncodeRaw ?s) = Inr h"
    unfolding bcrypt_def c' by (simp add: base64Encode_raw Let_def)
  moreover have "checkCost ?c = Inr ()"
    using assms(3) by (simp add: checkCost_def MinCost_def MaxCost_def DefaultCost_def)
  ultimately show ?thesis
    by (simp add: GenerateFromPassword_def newFromPassword_def s Let_def)
qed

theorem GenerateFromPassword_verifies_witness:
  "\<exists>h. GenerateFromPassword (\<lambda>k s. Inr (k @ s)) (\<lambda>k c. c @ k) (\<lambda>c b. map (\<lambda>x. x + 1) b) (bytes_of ''secret'') 2 = Inr h \<and>
     Cost h = Inr 2 \<and>
     CompareHashAndPassword (\<lambda>k s. Inr (k @ s)) (\<lambda>k c. c @ k) (\<lambda>c b. map (\<lambda>x. x + 1) b) h (bytes_of ''secret'') = Inr ()"
proof -
  have e: "\<forall>c b. length b = 8 \<longrightarrow> length ((\<lambda>c. map (\<lambda>x :: byte. x + 1)) c b) = 8" by simp
  from GenerateFromPassword_total [OF e, of "\<lambda>k s. Inr (k @ s)" 2 "\<lambda>k c. c @ k" "bytes_of ''secret''"] obtain h where
    h: "GenerateFromPassword (\<lambda>k s. Inr (k @ s)) (\<lambda>k c. c @ k) (\<lambda>c b. map (\<lambda>x. x + 1) b) (bytes_of ''secret'') 2 = Inr h"
    by auto
  from GenerateFromPassword_verifies [OF e h] h show ?thesis by auto
qed

end
