(* ===== verification/Ranker.thy ===== *)
theory Ranker
  imports DetBcrypt "HOL-Library.Multiset"
begin

text \<open>
  \<^verbatim>\<open>lab1/ranker/ranker.go\<close>: the score of a video for a user.  The dot product of the two sparse
  coefficient vectors is taken modulo \<open>2\<^sup>6\<^sup>4\<close> in the iteration order of a Go map, which is
  unspecified and here a list \<open>order\<close> of the keys; it is printed, hashed with the deterministic
  bcrypt at a cost that depends on it, and hashed again with FNV-1.
\<close>

section \<open>FNV-1\<close>

definition fnv32 :: "byte list \<Rightarrow> 32 word" where
  "fnv32 bs = foldl (\<lambda>h b. (h * 16777619) XOR ucast b) 2166136261 bs"

definition fnv64 :: "byte list \<Rightarrow> u64" where
  "fnv64 bs = foldl (\<lambda>h b. (h * 1099511628211) XOR ucast b) 14695981039346656037 bs"

definition costHash :: "u64 \<Rightarrow> int" where
  "costHash i = uint (fnv32 (bytes_of (show_u64 i))) mod (4 - MinCost) + MinCost"

text \<open>\<open>%020d\<close>.\<close>

definition show20 :: "u64 \<Rightarrow> string" where
  "show20 w = (let s = show_u64 w in replicate (20 - length s) (CHR ''0'') @ s)"

definition dotProduct :: "int list \<Rightarrow> coeffs \<Rightarrow> coeffs \<Rightarrow> u64" where
  "dotProduct order user video =
     foldl (\<lambda>acc f. case (user f, video f) of
        (Some u, Some v) \<Rightarrow> acc + u * v
      | _ \<Rightarrow> acc) 0 order"

text \<open>The error of \<open>GenerateFromPassword\<close> is ignored, and its result is then nil.\<close>

definition BcryptRanker_Rank :: "(byte list \<Rightarrow> byte list \<Rightarrow> string + 'c) \<Rightarrow> (byte list \<Rightarrow> 'c \<Rightarrow> 'c)
    \<Rightarrow> ('c \<Rightarrow> byte list \<Rightarrow> byte list) \<Rightarrow> int list \<Rightarrow> coeffs \<Rightarrow> coeffs \<Rightarrow> u64" where
  "BcryptRanker_Rank nsc ek enc order user video =
     (let dp = dotProduct order user video;
          pw = bytes_of (show20 dp);
          bytes = (case GenerateFromPassword nsc ek enc pw (costHash dp) of Inl e \<Rightarrow> [] | Inr b \<Rightarrow> b)
      in fnv64 bytes)"

section \<open>Properties\<close>

lemma costHash_range: "1 \<le> costHash i \<and> costHash i \<le> 3"
  unfolding costHash_def MinCost_def by simp

lemma dotProduct_sum:
  "foldl (\<lambda>acc f. case (user f, video f) of (Some u, Some v) \<Rightarrow> acc + u * v | _ \<Rightarrow> acc) a order =
   a + (\<Sum>f \<leftarrow> order. case (user f, video f) of (Some u, Some v) \<Rightarrow> u * v | _ \<Rightarrow> (0 :: u64))"
  by (induction order arbitrary: a) (auto split: option.split)

lemma dotProduct_perm: "mset order = mset order' \<Longrightarrow> dotProduct order user video = dotProduct order' user video"
proof -
  let ?g = "\<lambda>f. case (user f, video f) of (Some u, Some v) \<Rightarrow> u * v | _ \<Rightarrow> (0 :: u64)"
  assume "mset order = mset order'"
  then have "sum_mset (mset (map ?g order)) = sum_mset (mset (map ?g order'))" by simp
  then show ?thesis unfolding dotProduct_def dotProduct_sum by (simp only: sum_mset_sum_list)
qed

text \<open>
  Ranking is deterministic: any two iteration orders of the user's coefficient map give the same
  score, namely the one of the sum of the products over the features both sides have, and the
  cost passed to bcrypt is 1, 2 or 3, so that with a cipher that can be created the hash is
  never missing.
\<close>

theorem Rank_deterministic:
  assumes "set order = dom user" and "distinct order" and "set order' = dom user" and "distinct order'"
  shows "BcryptRanker_Rank nsc ek enc order user video = BcryptRanker_Rank nsc ek enc order' user video \<and>
    dotProduct order user video = (\<Sum>f \<in> dom user \<inter> dom video. the (user f) * the (video f)) \<and>
    costHash (dotProduct order user video) \<in> {1..3}"
proof -
  have "mset order = mset order'" using assms by (metis set_eq_iff_mset_eq_distinct)
  then have dp: "dotProduct order user video = dotProduct order' user video" by (rule dotProduct_perm)
  have fin: "finite (dom user)" using assms(1) by (metis List.finite_set)
  let ?g = "\<lambda>f. case (user f, video f) of (Some u, Some v) \<Rightarrow> u * v | _ \<Rightarrow> (0 :: u64)"
  have "dotProduct order user video = (\<Sum>f \<in> dom user. ?g f)"
    unfolding dotProduct_def dotProduct_sum using assms(1,2) by (simp add: sum_list_distinct_conv_sum_set)
  also have "\<dots> = (\<Sum>f \<in> dom user \<inter> dom video. ?g f)"
    by (rule sum.mono_neutral_right) (use fin in \<open>auto split: option.split\<close>)
  also have "\<dots> = (\<Sum>f \<in> dom user \<inter> dom video. the (user f) * the (video f))"
    by (rule sum.cong) auto
  finally show ?thesis using dp costHash_range by (simp add: BcryptRanker_Rank_def)
qed

theorem Rank_deterministic_witness:
  "BcryptRanker_Rank (\<lambda>k s. Inr (k @ s)) (\<lambda>k c. c @ k) (\<lambda>c b. b) [1, 7] [1 \<mapsto> 2, 7 \<mapsto> 3] [7 \<mapsto> 5] =
   BcryptRanker_Rank (\<lambda>k s. Inr (k @ s)) (\<lambda>k c. c @ k) (\<lambda>c b. b) [7, 1] [1 \<mapsto> 2, 7 \<mapsto> 3] [7 \<mapsto> 5]"
  using Rank_deterministic [of "[1, 7]" "[1 \<mapsto> 2, 7 \<mapsto> 3]" "[7, 1]" "\<lambda>k s. Inr (k @ s)" "\<lambda>k c. c @ k" "\<lambda>c b. b" "[7 \<mapsto> 5]"]
  by auto

end
