(* ===== verification/VideoRec.thy ===== *)
theory VideoRec
  imports VideoService Ranker
begin

text \<open>
  \<^verbatim>\<open>lab1/video_rec_service/server_lib/server_lib.go\<close>: the recommendation service.  A definition
  takes the server record and an environment that answers every remote call, says which
  deadlines have passed when the code looks, and fixes the order in which the batch
  goroutines append their results and send on their channels and which ready case a \<open>select\<close>
  picks; the theorems quantify over all environments.  Counters are \<open>uint64\<close> and only ever
  added to, so a request is described by its increments.  The cache is refreshed while requests
  run, so the environment also says what every read of the cache finds; \<open>CacheLock\<close> models the
  lock around these reads.
\<close>

section \<open>State\<close>

record VideoRecServiceOptions =
  UserServiceAddr :: string
  VideoServiceAddr :: string
  MaxBatchSize :: int
  DisableFallback :: bool
  DisableRetry :: bool

text \<open>\<open>td\<close> is the list of latencies added to the t-digest; a nil cache is \<open>None\<close>.\<close>

record VideoRecServiceServer =
  options :: VideoRecServiceOptions
  UserServiceMaxBatchSize :: u64
  VideoServiceMaxBatchSize :: u64
  isMock :: bool
  TotalRequests :: u64
  TotalErrors :: u64
  ActiveRequests :: u64
  UserServiceErrors :: u64
  VideoServiceErrors :: u64
  TotalSumLatencyMs :: u64
  StaleResponses :: u64
  td :: "nat list"
  TrendingCache :: "VideoInfo list option"
  cacheExpirationTime :: int

definition newServer :: "VideoRecServiceOptions \<Rightarrow> bool \<Rightarrow> VideoRecServiceServer" where
  "newServer opts mock = \<lparr>options = opts, UserServiceMaxBatchSize = 1, VideoServiceMaxBatchSize = 1,
     isMock = mock, TotalRequests = 0, TotalErrors = 0, ActiveRequests = 0, UserServiceErrors = 0,
     VideoServiceErrors = 0, TotalSumLatencyMs = 0, StaleResponses = 0, td = [], TrendingCache = None,
     cacheExpirationTime = 0\<rparr>"

definition MakeVideoRecServiceServer :: "VideoRecServiceOptions \<Rightarrow> VideoRecServiceServer" where
  "MakeVideoRecServiceServer opts = newServer opts False"

definition MakeVideoRecServiceServerWithMocks :: "VideoRecServiceOptions \<Rightarrow> VideoRecServiceServer" where
  "MakeVideoRecServiceServerWithMocks opts = newServer opts True"

record GetTopVideosResponse =
  resp_Videos :: "VideoInfo list"
  StaleResponse :: bool

record GetTopVideosRequest =
  req_UserId :: u64
  req_Limit :: int

text \<open>A call: its result, and whether the context it was made with has exceeded its deadline when
  the caller looks afterwards.\<close>

record 'a call =
  res :: "status + 'a"
  late :: bool

datatype call_site = Subscriber nat | Batch nat nat

text \<open>Where a request reads the trending cache: at most once before it returns, and at most once
  in each of its batch goroutines.\<close>

datatype cache_read = AtReturn | UserBatch nat | VideoBatch nat

text \<open>\<open>e_expired\<close> is the deadline check at the start, \<open>e_dial\<close> the outcome of \<open>grpc.NewClient\<close>
  for an address and attempt; \<open>Batch i n\<close> is attempt \<open>n\<close> of batch \<open>i\<close>; \<open>e_cache\<close> is the cache
  that a read finds.  The cipher and the map
  iteration order are those of the ranker.\<close>

record 'c env =
  e_expired :: bool
  e_dial :: "string \<Rightarrow> nat \<Rightarrow> status option"
  e_getUser :: "call_site \<Rightarrow> u64 list \<Rightarrow> UserInfo list call"
  e_getVideo :: "call_site \<Rightarrow> u64 list \<Rightarrow> VideoInfo list call"
  e_trending :: "nat \<Rightarrow> status + GetTrendingVideosResponse"
  e_userAppends :: "nat list"
  e_userSends :: "nat list"
  e_userPickDone :: bool
  e_videoAppends :: "nat list"
  e_videoSends :: "nat list"
  e_videoPickDone :: bool
  e_cache :: "cache_read \<Rightarrow> VideoInfo list option"
  e_latency :: nat
  e_nsc :: "byte list \<Rightarrow> byte list \<Rightarrow> string + 'c"
  e_ek :: "byte list \<Rightarrow> 'c \<Rightarrow> 'c"
  e_enc :: "'c \<Rightarrow> byte list \<Rightarrow> byte list"
  e_order :: "coeffs \<Rightarrow> int list"

definition score :: "'c env \<Rightarrow> coeffs \<Rightarrow> VideoInfo \<Rightarrow> u64" where
  "score env user v = BcryptRanker_Rank (e_nsc env) (e_ek env) (e_enc env) (e_order env user) user (VideoCoefficients v)"

text \<open>\<open>fmt.Sprintf("%v", err)\<close> of a gRPC status error.\<close>

fun code_name :: "code \<Rightarrow> string" where
  "code_name Internal = ''Internal''"
| "code_name InvalidArgument = ''InvalidArgument''"
| "code_name NotFound = ''NotFound''"
| "code_name DeadlineExceeded = ''DeadlineExceeded''"
| "code_name Unavailable = ''Unavailable''"
| "code_name Unknown = ''Unknown''"
| "code_name FailedPrecondition = ''FailedPrecondition''"

definition err_text :: "status \<Rightarrow> string" where
  "err_text e = ''rpc error: code = '' @ code_name (Code e) @ '' desc = '' @ Message e"

definition mk_error :: "code \<Rightarrow> string \<Rightarrow> status" where
  "mk_error c m = \<lparr>Code = c, Message = m\<rparr>"

section \<open>Counters\<close>

definition addTotalErrors :: "nat \<Rightarrow> VideoRecServiceServer \<Rightarrow> VideoRecServiceServer" where
  "addTotalErrors n s = s\<lparr>TotalErrors := TotalErrors s + of_nat n\<rparr>"

definition addUserErrors :: "nat \<Rightarrow> VideoRecServiceServer \<Rightarrow> VideoRecServiceServer" where
  "addUserErrors n s = s\<lparr>UserServiceErrors := UserServiceErrors s + of_nat n\<rparr>"

definition addVideoErrors :: "nat \<Rightarrow> VideoRecServiceServer \<Rightarrow> VideoRecServiceServer" where
  "addVideoErrors n s = s\<lparr>VideoServiceErrors := VideoServiceErrors s + of_nat n\<rparr>"

definition addStale :: "nat \<Rightarrow> VideoRecServiceServer \<Rightarrow> VideoRecServiceServer" where
  "addStale n s = s\<lparr>StaleResponses := StaleResponses s + of_nat n\<rparr>"

section \<open>Connections\<close>

definition ConnectClient :: "VideoRecServiceServer \<Rightarrow> 'c env \<Rightarrow> nat \<Rightarrow> int \<Rightarrow> status option" where
  "ConnectClient server env attempt target =
     (if target = 0 then e_dial env (UserServiceAddr (options server)) attempt
      else if target = 1 then e_dial env (VideoServiceAddr (options server)) attempt
      else Some (mk_error InvalidArgument ''Invalid target argument''))"

section \<open>Batches\<close>

text \<open>The loops run \<open>i\<close> from 0 to \<open>len(ids)/max\<close> inclusive; the last one takes the rest, if any.\<close>

definition batchLoop :: "u64 list \<Rightarrow> nat \<Rightarrow> nat" where
  "batchLoop ids mx = length ids div mx"

definition batchSlice :: "u64 list \<Rightarrow> nat \<Rightarrow> nat \<Rightarrow> u64 list" where
  "batchSlice ids mx i = (if i = batchLoop ids mx then drop (i * mx) ids else take mx (drop (i * mx) ids))"

definition batchHasWork :: "u64 list \<Rightarrow> nat \<Rightarrow> nat \<Rightarrow> bool" where
  "batchHasWork ids mx i \<longleftrightarrow> i \<noteq> batchLoop ids mx \<or> length ids mod mx \<noteq> 0"

text \<open>What one batch goroutine leaves behind: the items it appended, its send on the error channel
  (\<open>Some None\<close> is \<open>nil\<close>), its send on the cache channel, and its increments.\<close>

record 'a worker =
  w_items :: "'a list"
  w_err :: "status option option"
  w_cache :: "VideoInfo list option"
  w_svc :: nat
  w_tot :: nat
  w_stale :: nat

definition wOk :: "'a list \<Rightarrow> nat \<Rightarrow> 'a worker" where
  "wOk items n = \<lparr>w_items = items, w_err = Some None, w_cache = None, w_svc = n, w_tot = 0, w_stale = 0\<rparr>"

definition wErr :: "status \<Rightarrow> nat \<Rightarrow> nat \<Rightarrow> 'a worker" where
  "wErr e n t = \<lparr>w_items = [], w_err = Some (Some e), w_cache = None, w_svc = n, w_tot = t, w_stale = 0\<rparr>"

definition wCache :: "VideoInfo list option \<Rightarrow> nat \<Rightarrow> nat \<Rightarrow> nat \<Rightarrow> 'a worker" where
  "wCache c n t st = \<lparr>w_items = [], w_err = None, w_cache = c, w_svc = n, w_tot = t, w_stale = st\<rparr>"

definition appended :: "(nat \<Rightarrow> 'a worker) \<Rightarrow> nat list \<Rightarrow> 'a list" where
  "appended w order = concat (map (\<lambda>i. w_items (w i)) order)"

definition errSends :: "(nat \<Rightarrow> 'a worker) \<Rightarrow> nat list \<Rightarrow> status option list" where
  "errSends w order = List.map_filter (\<lambda>i. w_err (w i)) order"

definition cacheSends :: "(nat \<Rightarrow> 'a worker) \<Rightarrow> nat list \<Rightarrow> VideoInfo list list" where
  "cacheSends w order = List.map_filter (\<lambda>i. w_cache (w i)) order"

definition total :: "('a worker \<Rightarrow> nat) \<Rightarrow> (nat \<Rightarrow> 'a worker) \<Rightarrow> nat \<Rightarrow> nat" where
  "total f w n = sum_list (map (\<lambda>i. f (w i)) [0..<Suc n])"

section \<open>The trending cache\<close>

definition GetCachedVideos :: "int \<Rightarrow> VideoRecServiceServer \<Rightarrow> VideoInfo list option" where
  "GetCachedVideos requestLimit server =
     (case TrendingCache server of
        None \<Rightarrow> None
      | Some vids \<Rightarrow> Some (if requestLimit > 0 \<and> requestLimit \<le> int (length vids)
                         then take (nat requestLimit) vids else vids))"

text \<open>The server as a read of a request finds it.\<close>

definition cacheAt :: "'c env \<Rightarrow> cache_read \<Rightarrow> VideoRecServiceServer \<Rightarrow> VideoRecServiceServer" where
  "cacheAt env site server = server\<lparr>TrendingCache := e_cache env site\<rparr>"

text \<open>The goroutine of \<open>UpdateCache\<close> for batch \<open>i\<close>.\<close>

definition cacheWorker :: "VideoRecServiceOptions \<Rightarrow> 'c env \<Rightarrow> u64 list \<Rightarrow> nat \<Rightarrow> nat \<Rightarrow> VideoInfo worker" where
  "cacheWorker opts env ids mx i =
     (if \<not> batchHasWork ids mx i then wOk [] 0
      else
        let failed = (\<lambda>e n. wErr (mk_error Unavailable (''GetTopVideos: GetVideo failed: '' @ err_text e)) n 1) in
        case res (e_getVideo env (Batch i 1) (batchSlice ids mx i)) of
          Inr vs \<Rightarrow> wOk vs 0
        | Inl e \<Rightarrow>
            if \<not> DisableRetry opts then
              (case res (e_getVideo env (Batch i 2) (batchSlice ids mx i)) of
                 Inr vs \<Rightarrow> wOk vs 1
               | Inl e2 \<Rightarrow> failed e2 2)
            else failed e 1)"

definition nonnil :: "'a list \<Rightarrow> 'a list option" where
  "nonnil xs = (if xs = [] then None else Some xs)"

text \<open>The part of \<open>UpdateCache\<close> after the trending list has arrived.\<close>

definition installTrending :: "VideoRecServiceServer \<Rightarrow> 'c env \<Rightarrow> nat \<Rightarrow> GetTrendingVideosResponse
    \<Rightarrow> (VideoRecServiceServer \<times> status option) go" where
  "installTrending server env maxBatchSize r =
     (if maxBatchSize = 0 then Inl DivideByZero
      else
        let ids = Videos r;
            expirationTime = sint (ExpirationTimeS r);
            w = cacheWorker (options server) env ids maxBatchSize;
            n = batchLoop ids maxBatchSize;
            videosInfo = appended w (e_videoAppends env);
            s1 = addVideoErrors (total w_svc w n) (addTotalErrors (total w_tot w n) server)
        in case List.map_filter id (errSends w (e_videoSends env)) of
             err # _ \<Rightarrow>
               Inr (if TrendingCache s1 = None \<and> videosInfo \<noteq> [] then s1\<lparr>TrendingCache := Some videosInfo\<rparr> else s1,
                    Some err)
           | [] \<Rightarrow>
               Inr (if expirationTime > cacheExpirationTime s1
                    then s1\<lparr>TrendingCache := nonnil videosInfo, cacheExpirationTime := expirationTime\<rparr> else s1,
                    None))"

definition UpdateCache :: "VideoRecServiceServer \<Rightarrow> 'c env \<Rightarrow> nat \<Rightarrow> (VideoRecServiceServer \<times> status option) go" where
  "UpdateCache server env maxBatchSize =
     (let unavailable = Some (mk_error Unavailable ''fail to fetch video ids for trending videos'') in
      case e_trending env 1 of
        Inr r \<Rightarrow> installTrending server env maxBatchSize r
      | Inl e \<Rightarrow>
          let s1 = addVideoErrors 1 server in
          if \<not> DisableRetry (options server) then
            (case e_trending env 2 of
               Inr r \<Rightarrow> installTrending s1 env maxBatchSize r
             | Inl e2 \<Rightarrow> Inr (addVideoErrors 1 (addTotalErrors 1 s1), unavailable))
          else Inr (addTotalErrors 1 s1, unavailable))"

text \<open>One iteration of \<open>ContinuallyRefreshCache\<close>: the connection (once made it is kept), the refresh
  when the cache expires within 30 seconds, and the nanoseconds the loop sleeps afterwards.
  \<open>now\<close> and \<open>now'\<close> are the clock in seconds before and after the refresh.\<close>

definition connectVideo :: "VideoRecServiceServer \<Rightarrow> 'c env \<Rightarrow> VideoRecServiceServer \<times> status option" where
  "connectVideo server env =
     (if isMock server then (server, None)
      else
        case ConnectClient server env 1 1 of
          None \<Rightarrow> (server, None)
        | Some e \<Rightarrow>
            let s1 = addVideoErrors 1 server in
            if \<not> DisableRetry (options server) then
              (case ConnectClient server env 2 1 of
                 None \<Rightarrow> (s1, None)
               | Some e2 \<Rightarrow> (addVideoErrors 1 (addTotalErrors 1 s1), Some e2))
            else (addTotalErrors 1 s1, Some e))"

definition refreshStep :: "int \<Rightarrow> int \<Rightarrow> bool \<Rightarrow> VideoRecServiceServer \<Rightarrow> 'c env
    \<Rightarrow> (VideoRecServiceServer \<times> bool \<times> int) go" where
  "refreshStep now now' connected server env =
     (let (s1, err) = (if connected then (server, None) else connectVideo server env) in
      if connected \<or> err = None then
        let timeUntilExpiration = (cacheExpirationTime s1 - now) * 1000000 in
        if timeUntilExpiration < 30 * 1000000 then
          go_bind (UpdateCache s1 env (unat (VideoServiceMaxBatchSize s1))) (\<lambda>(s2, err2).
            case err2 of
              None \<Rightarrow>
                let sleepDuration = ((cacheExpirationTime s2 - now') * 1000000 - 100) * 10
                in Inr (s2, True, \<bar>sleepDuration\<bar>)
            | Some e \<Rightarrow> Inr (s2, True, 10 * 1000000000))
        else
          let sleepDuration = (timeUntilExpiration - 100) * 10
          in Inr (s1, True, max 0 sleepDuration)
      else Inr (s1, False, 10 * 1000000000))"

definition ContinuallyRefreshCache :: "int \<Rightarrow> int \<Rightarrow> bool \<Rightarrow> VideoRecServiceServer \<Rightarrow> 'c env
    \<Rightarrow> (VideoRecServiceServer \<times> bool \<times> int) option go" where
  "ContinuallyRefreshCache now now' connected server env =
     (if DisableFallback (options server) then Inr None
      else go_bind (refreshStep now now' connected server env) (\<lambda>r. Inr (Some r)))"

section \<open>Finding the batch size of the backends\<close>

text \<open>\<open>fmt.Sscanf(message, prefix + "%d", &n)\<close>: the literal prefix, then an optional sign and the longest
  run of digits; what follows is left unread.\<close>

fun strip_prefix :: "string \<Rightarrow> string \<Rightarrow> string option" where
  "strip_prefix [] s = Some s"
| "strip_prefix (c # cs) [] = None"
| "strip_prefix (c # cs) (d # ds) = (if c = d then strip_prefix cs ds else None)"

definition scan_int :: "string \<Rightarrow> int option" where
  "scan_int s =
     (let (neg, ds) = (case s of c # cs \<Rightarrow> (if c = CHR ''-'' then (True, cs) else if c = CHR ''+'' then (False, cs)
                                           else (False, s)) | [] \<Rightarrow> (False, s));
          digits = takeWhile is_digit ds
      in if digits = [] then None
         else Some (if neg then - int (read_digits digits) else int (read_digits digits)))"

definition Sscanf :: "string \<Rightarrow> string \<Rightarrow> int option" where
  "Sscanf prefix message = Option.bind (strip_prefix prefix message) scan_int"

text \<open>What one answer to the probing request means: keep asking (\<open>None\<close>), or stop and add so much to
  the batch size.\<close>

definition probeVerdict :: "string \<Rightarrow> int \<Rightarrow> (status + 'a) \<Rightarrow> nat option" where
  "probeVerdict prefix highestBatchSize r =
     (case r of
        Inr _ \<Rightarrow> Some (nat (max 0 (highestBatchSize - 1)))
      | Inl e \<Rightarrow>
          (case Code e of
             InvalidArgument \<Rightarrow>
               (case Sscanf prefix (Message e) of
                  Some lowestBatchSize \<Rightarrow> Some (nat (max 0 (lowestBatchSize - 1)))
                | None \<Rightarrow> Some 0)
           | NotFound \<Rightarrow> Some (nat (max 0 (highestBatchSize - 1)))
           | _ \<Rightarrow> None))"

text \<open>The loop; \<open>fuel\<close> bounds the attempts, and \<open>None\<close> means it is still running.\<close>

fun probeLoop :: "nat \<Rightarrow> (nat \<Rightarrow> nat option) \<Rightarrow> nat \<Rightarrow> nat option" where
  "probeLoop 0 verdict k = None"
| "probeLoop (Suc fuel) verdict k =
     (case verdict k of Some n \<Rightarrow> Some n | None \<Rightarrow> probeLoop fuel verdict (Suc k))"

definition userBatchPrefix :: string where
  "userBatchPrefix = ''UserService: user_ids exceeded the max batch size ''"

definition videoBatchPrefix :: string where
  "videoBatchPrefix = ''VideoService: video_ids exceeded the max batch size ''"

definition userProbe :: "int \<Rightarrow> u64 list" where
  "userProbe n = replicate (nat n) 204054"

definition videoProbe :: "int \<Rightarrow> u64 list" where
  "videoProbe n = map (\<lambda>i. 1300 + of_nat i) [0..<nat n]"

definition UpdateUserServiceMaxBatchSize :: "nat \<Rightarrow> (nat \<Rightarrow> u64 list \<Rightarrow> status + UserInfo list) \<Rightarrow> VideoRecServiceServer
    \<Rightarrow> VideoRecServiceServer option" where
  "UpdateUserServiceMaxBatchSize fuel ask server =
     (let highestBatchSize = MaxBatchSize (options server) in
      if highestBatchSize < 1 then Some server
      else
        map_option (\<lambda>n. server\<lparr>UserServiceMaxBatchSize := UserServiceMaxBatchSize server + of_nat n\<rparr>)
          (probeLoop fuel (\<lambda>k. probeVerdict userBatchPrefix highestBatchSize (ask k (userProbe highestBatchSize))) 0))"

definition UpdateVideoServiceMaxBatchSize :: "nat \<Rightarrow> (nat \<Rightarrow> u64 list \<Rightarrow> status + VideoInfo list) \<Rightarrow> VideoRecServiceServer
    \<Rightarrow> VideoRecServiceServer option" where
  "UpdateVideoServiceMaxBatchSize fuel ask server =
     (let highestBatchSize = MaxBatchSize (options server) in
      if highestBatchSize < 1 then Some server
      else
        map_option (\<lambda>n. server\<lparr>VideoServiceMaxBatchSize := VideoServiceMaxBatchSize server + of_nat n\<rparr>)
          (probeLoop fuel (\<lambda>k. probeVerdict videoBatchPrefix highestBatchSize (ask k (videoProbe highestBatchSize))) 0))"

section \<open>Ranking\<close>

text \<open>\<open>sort.SliceStable\<close> by decreasing score, then the limit.\<close>

definition rankVideos :: "'c env \<Rightarrow> coeffs \<Rightarrow> VideoInfo list \<Rightarrow> int \<Rightarrow> VideoInfo list" where
  "rankVideos env userCoeff vids limit =
     (let ranked = sort_key (\<lambda>v. - int (unat (score env userCoeff v))) vids
      in if limit > 0 \<and> limit \<le> int (length ranked) then take (nat limit) ranked else ranked)"

section \<open>\<open>GetTopVideos\<close>\<close>

datatype 'a outcome = Return "status + GetTopVideosResponse" | Continue 'a

definition stale :: "VideoInfo list \<Rightarrow> status + GetTopVideosResponse" where
  "stale vs = Inr \<lparr>resp_Videos = vs, StaleResponse = True\<rparr>"

definition fresh :: "VideoInfo list \<Rightarrow> status + GetTopVideosResponse" where
  "fresh vs = Inr \<lparr>resp_Videos = vs, StaleResponse = False\<rparr>"

text \<open>The recurring fallback: the cache if there is one, else the given answer; \<open>f\<close> is the ranking,
  where the code ranks.\<close>

definition fallback :: "'c env \<Rightarrow> cache_read \<Rightarrow> int \<Rightarrow> (VideoInfo list \<Rightarrow> VideoInfo list) \<Rightarrow> (status + GetTopVideosResponse)
    \<Rightarrow> VideoRecServiceServer \<Rightarrow> VideoRecServiceServer \<times> (status + GetTopVideosResponse)" where
  "fallback env site limit f otherwise server =
     (if \<not> DisableFallback (options server) then
        (case GetCachedVideos limit (cacheAt env site server) of
           Some vs \<Rightarrow> (addStale 1 server, stale (f vs))
         | None \<Rightarrow> (server, otherwise))
      else (server, otherwise))"

definition deadlineExc :: "'c env \<Rightarrow> cache_read \<Rightarrow> int \<Rightarrow> VideoRecServiceServer \<Rightarrow> VideoRecServiceServer \<times> (status + GetTopVideosResponse)" where
  "deadlineExc env site limit server =
     fallback env site limit id (Inl (mk_error DeadlineExceeded ''GetTopVideos: deadline exceeded'')) server"

definition returning :: "VideoRecServiceServer \<times> (status + GetTopVideosResponse) \<Rightarrow> VideoRecServiceServer \<times> 'a outcome" where
  "returning r = (case r of (s, x) \<Rightarrow> (s, Return x))"

text \<open>The connection to the user service.\<close>

definition connectUser :: "VideoRecServiceServer \<Rightarrow> 'c env \<Rightarrow> int \<Rightarrow> VideoRecServiceServer \<times> unit outcome" where
  "connectUser server env limit =
     (if isMock server then (server, Continue ())
      else
        case ConnectClient server env 1 0 of
          None \<Rightarrow> (server, Continue ())
        | Some e \<Rightarrow>
            let s1 = addUserErrors 1 server in
            if \<not> DisableRetry (options server) then
              (case ConnectClient server env 2 0 of
                 None \<Rightarrow> (s1, Continue ())
               | Some e2 \<Rightarrow> returning (fallback env AtReturn limit id (Inl e2) (addUserErrors 1 (addTotalErrors 1 s1))))
            else
              (case fallback env AtReturn limit id (Inl e) s1 of
                 (s2, Inl e') \<Rightarrow> (addTotalErrors 1 s2, Return (Inl e'))
               | (s2, Inr r) \<Rightarrow> (s2, Return (Inr r))))"

text \<open>Fetching the subscriber.\<close>

definition fetchSubscriber :: "VideoRecServiceServer \<Rightarrow> 'c env \<Rightarrow> int \<Rightarrow> u64 \<Rightarrow> VideoRecServiceServer \<times> UserInfo list outcome" where
  "fetchSubscriber server env limit uid =
     (let r1 = e_getUser env (Subscriber 1) [uid]; r2 = e_getUser env (Subscriber 2) [uid] in
      case res r1 of
        Inr us \<Rightarrow> (server, Continue us)
      | Inl e \<Rightarrow>
          let s1 = addUserErrors 1 server in
          if late r1 then returning (deadlineExc env AtReturn limit (addUserErrors 1 (addTotalErrors 1 s1)))
          else if \<not> DisableRetry (options server) then
            (case res r2 of
               Inr us \<Rightarrow> (s1, Continue us)
             | Inl e2 \<Rightarrow>
                 let s2 = addUserErrors 1 (addTotalErrors 1 s1) in
                 if late r2 then returning (deadlineExc env AtReturn limit (addUserErrors 1 (addTotalErrors 1 s2)))
                 else returning (fallback env AtReturn limit id (Inl e2) s2))
          else returning (fallback env AtReturn limit id (Inl e) (addTotalErrors 1 s1)))"

text \<open>A batch of subscribed users.\<close>

definition userWorker :: "VideoRecServiceServer \<Rightarrow> 'c env \<Rightarrow> int \<Rightarrow> u64 list \<Rightarrow> nat \<Rightarrow> nat \<Rightarrow> UserInfo worker" where
  "userWorker server env limit ids mx i =
     (if \<not> batchHasWork ids mx i then wOk [] 0
      else
        let failed = (\<lambda>e n. if \<not> DisableFallback (options server) then wCache (GetCachedVideos limit (cacheAt env (UserBatch i) server)) n 0 0
                            else wErr (mk_error Unavailable (''GetTopVideos: GetUser call failed: '' @ err_text e)) n 0) in
        case res (e_getUser env (Batch i 1) (batchSlice ids mx i)) of
          Inr us \<Rightarrow> wOk us 0
        | Inl e \<Rightarrow>
            if \<not> DisableRetry (options server) then
              (case res (e_getUser env (Batch i 2) (batchSlice ids mx i)) of
                 Inr us \<Rightarrow> wOk us 1
               | Inl e2 \<Rightarrow> failed e2 2)
            else failed e 1)"

text \<open>Joining the goroutines of a phase.  When the cache channel holds something both cases of the
  \<open>select\<close> may be ready and \<open>pickDone\<close> says which one runs; then the error channel is read once.\<close>

definition joinPhase :: "'c env \<Rightarrow> coeffs \<Rightarrow> int \<Rightarrow> (nat \<Rightarrow> 'a worker) \<Rightarrow> nat list \<Rightarrow> nat list \<Rightarrow> bool
    \<Rightarrow> VideoRecServiceServer \<Rightarrow> VideoRecServiceServer \<times> 'a list outcome" where
  "joinPhase env userCoeff limit w appends sends pickDone server =
     (if cacheSends w sends \<noteq> [] \<and> \<not> pickDone then
        (addTotalErrors 1 (addStale 1 server),
         Return (stale (rankVideos env userCoeff (hd (cacheSends w sends)) limit)))
      else
        (case errSends w sends of
           Some e # _ \<Rightarrow> (addTotalErrors 1 server, Return (Inl e))
         | _ \<Rightarrow> (server, Continue (appended w appends))))"

definition userPhase :: "VideoRecServiceServer \<Rightarrow> 'c env \<Rightarrow> coeffs \<Rightarrow> int \<Rightarrow> u64 list
    \<Rightarrow> (VideoRecServiceServer \<times> UserInfo list outcome) go" where
  "userPhase server env userCoeff limit subscribedTo =
     (let mx = unat (UserServiceMaxBatchSize server);
          w = userWorker server env limit subscribedTo mx in
      if mx = 0 then Inl DivideByZero
      else Inr (joinPhase env userCoeff limit w (e_userAppends env) (e_userSends env) (e_userPickDone env)
                 (addUserErrors (total w_svc w (batchLoop subscribedTo mx)) server)))"

text \<open>The loop that collects the liked videos without duplicates has the shape of \<open>deduplicateIds\<close>.\<close>

definition collectLiked :: "UserInfo list \<Rightarrow> u64 list" where
  "collectLiked us = dedupLoop (concat (map LikedVideos us)) {} []"

definition connectVideoClient :: "VideoRecServiceServer \<Rightarrow> 'c env \<Rightarrow> coeffs \<Rightarrow> int \<Rightarrow> VideoRecServiceServer \<times> unit outcome" where
  "connectVideoClient server env userCoeff limit =
     (case connectVideo server env of
        (s1, None) \<Rightarrow> (s1, Continue ())
      | (s1, Some e) \<Rightarrow> returning (fallback env AtReturn limit (\<lambda>vs. rankVideos env userCoeff vs limit) (Inl e) s1))"

text \<open>A batch of videos; each call has its own two-second context.  The deadline is looked at after
  the first call, and after the second one only by the goroutine of the last batch.\<close>

definition videoWorker :: "VideoRecServiceServer \<Rightarrow> 'c env \<Rightarrow> int \<Rightarrow> u64 list \<Rightarrow> nat \<Rightarrow> nat \<Rightarrow> VideoInfo worker" where
  "videoWorker server env limit ids mx i =
     (if \<not> batchHasWork ids mx i then wOk [] 0
      else
        let r1 = e_getVideo env (Batch i 1) (batchSlice ids mx i);
            r2 = e_getVideo env (Batch i 2) (batchSlice ids mx i);
            expired = (\<lambda>n. case deadlineExc env (VideoBatch i) limit server of
                (s, Inr r) \<Rightarrow> wCache (Some (resp_Videos r)) (n + 1) 1 1
              | (s, Inl e) \<Rightarrow> wCache (Some []) (n + 1) 1 0);
            failed = (\<lambda>e n. if \<not> DisableFallback (options server) then wCache (GetCachedVideos limit (cacheAt env (VideoBatch i) server)) n 0 0
                            else wErr (mk_error Unavailable (''GetTopVideos: GetVideo failed: '' @ err_text e)) n 0) in
        if late r1 then expired 0
        else
          case res r1 of
            Inr vs \<Rightarrow> wOk vs 0
          | Inl e \<Rightarrow>
              if \<not> DisableRetry (options server) then
                (if i = batchLoop ids mx \<and> late r2 then expired 1
                 else
                   case res r2 of
                     Inr vs \<Rightarrow> wOk vs 1
                   | Inl e2 \<Rightarrow> failed e2 2)
              else failed e 1)"

definition videoPhase :: "VideoRecServiceServer \<Rightarrow> 'c env \<Rightarrow> coeffs \<Rightarrow> int \<Rightarrow> u64 list
    \<Rightarrow> (VideoRecServiceServer \<times> VideoInfo list outcome) go" where
  "videoPhase server env userCoeff limit likedVideos =
     (let mx = unat (VideoServiceMaxBatchSize server);
          w = videoWorker server env limit likedVideos mx;
          n = batchLoop likedVideos mx in
      if mx = 0 then Inl DivideByZero
      else Inr (joinPhase env userCoeff limit w (e_videoAppends env) (e_videoSends env) (e_videoPickDone env)
                 (addStale (total w_stale w n) (addTotalErrors (total w_tot w n)
                   (addVideoErrors (total w_svc w n) server)))))"

definition andThen :: "('s \<times> 'a outcome) go
    \<Rightarrow> ('a \<Rightarrow> 's \<Rightarrow> ('s \<times> (status + GetTopVideosResponse)) go)
    \<Rightarrow> ('s \<times> (status + GetTopVideosResponse)) go" where
  "andThen m k = go_bind m (\<lambda>(s, oc). case oc of Return r \<Rightarrow> Inr (s, r) | Continue x \<Rightarrow> k x s)"

text \<open>The request from the point where the subscriber is known.\<close>

definition recommend :: "VideoRecServiceServer \<Rightarrow> 'c env \<Rightarrow> int \<Rightarrow> UserInfo
    \<Rightarrow> (VideoRecServiceServer \<times> (status + GetTopVideosResponse)) go" where
  "recommend server env limit u =
     (let cf = UserCoefficients u; ranked = (\<lambda>vs. rankVideos env cf vs limit) in
      if SubscribedTo u = [] then Inr (fallback env AtReturn limit ranked (fresh []) (addTotalErrors 1 server))
      else
        andThen (userPhase server env cf limit (SubscribedTo u)) (\<lambda>us s2.
          let likedVideos = collectLiked us in
          if likedVideos = [] then Inr (fallback env AtReturn limit ranked (fresh []) (addTotalErrors 1 s2))
          else
            andThen (Inr (connectVideoClient s2 env cf limit)) (\<lambda>_ s3.
            andThen (videoPhase s3 env cf limit likedVideos) (\<lambda>vs s4.
              Inr (s4, fresh (ranked vs))))))"

definition GetTopVideos_body :: "VideoRecServiceServer \<Rightarrow> 'c env \<Rightarrow> GetTopVideosRequest
    \<Rightarrow> (VideoRecServiceServer \<times> (status + GetTopVideosResponse)) go" where
  "GetTopVideos_body server env req =
     (let limit = req_Limit req in
      if limit < 0 then Inr (server, Inl (mk_error InvalidArgument ''GetTopVideos: invalid limit''))
      else if e_expired env then Inr (deadlineExc env AtReturn limit (addUserErrors 1 (addTotalErrors 1 server)))
      else
        andThen (Inr (connectUser server env limit)) (\<lambda>_ s1.
          if req_UserId req = 0 then
            Inr (fallback env AtReturn limit id (Inl (mk_error InvalidArgument ''GetTopVideos: invalid user ID'')) (addTotalErrors 1 s1))
          else
            andThen (Inr (fetchSubscriber s1 env limit (req_UserId req))) (\<lambda>us s2.
              go_bind (index us 0) (\<lambda>u. recommend s2 env limit u))))"

text \<open>The counters around the body; the deferred function runs on every return.\<close>

definition GetTopVideos :: "VideoRecServiceServer \<Rightarrow> 'c env \<Rightarrow> GetTopVideosRequest
    \<Rightarrow> (VideoRecServiceServer \<times> (status + GetTopVideosResponse)) go" where
  "GetTopVideos server env req =
     go_bind (GetTopVideos_body
                (server\<lparr>TotalRequests := TotalRequests server + 1, ActiveRequests := ActiveRequests server + 1\<rparr>) env req)
       (\<lambda>(s, r). Inr (s\<lparr>ActiveRequests := ActiveRequests s + NOT 0,
                       TotalSumLatencyMs := TotalSumLatencyMs s + of_nat (e_latency env),
                       td := td s @ [e_latency env]\<rparr>, r))"

record GetStatsResponse =
  gs_TotalRequests :: u64
  gs_TotalErrors :: u64
  gs_ActiveRequests :: u64
  gs_UserServiceErrors :: u64
  gs_VideoServiceErrors :: u64
  gs_AverageLatencyMs :: u64
  gs_P99LatencyMs :: nat
  gs_StaleResponses :: u64

text \<open>\<open>quantile\<close> is \<open>tdigest.Quantile\<close>; the averages are taken before the conversion to \<open>float32\<close>.\<close>

definition GetStats :: "(nat list \<Rightarrow> nat) \<Rightarrow> VideoRecServiceServer \<Rightarrow> GetStatsResponse" where
  "GetStats quantile s =
     \<lparr>gs_TotalRequests = TotalRequests s, gs_TotalErrors = TotalErrors s, gs_ActiveRequests = ActiveRequests s,
      gs_UserServiceErrors = UserServiceErrors s, gs_VideoServiceErrors = VideoServiceErrors s,
      gs_AverageLatencyMs = TotalSumLatencyMs s div max 1 (TotalRequests s),
      gs_P99LatencyMs = quantile (td s), gs_StaleResponses = StaleResponses s\<rparr>"

end
