(* ===== verification/VideoRecProps.thy ===== *)
theory VideoRecProps
  imports VideoRec
begin

text \<open>
  Properties of the recommendation service of lab 1: the batches, the counters, the probing of
  the batch size against the models of the two backends, the refresh of the cache, and what
  a fresh and a stale response contain.
\<close>

section \<open>Batches\<close>

lemma slices_prefix: "concat (map (\<lambda>i. take mx (drop (i * mx) ids)) [0..<n]) = take (n * mx) ids"
proof (induction n)
  case (Suc n)
  have "take (n * mx) ids @ take mx (drop (n * mx) ids) = take (n * mx + mx) ids" by (simp add: take_add)
  with Suc show ?case by (simp add: add.commute)
qed simp

lemma batchSlice_small: "i < batchLoop ids mx \<Longrightarrow> batchSlice ids mx i = take mx (drop (i * mx) ids)"
  by (simp add: batchSlice_def)

lemma batchSlice_last: "batchSlice ids mx (batchLoop ids mx) = drop (batchLoop ids mx * mx) ids"
  by (simp add: batchSlice_def)

lemma batches_concat: "concat (map (batchSlice ids mx) [0..<Suc (batchLoop ids mx)]) = ids"
proof -
  have "map (batchSlice ids mx) [0..<batchLoop ids mx] = map (\<lambda>i. take mx (drop (i * mx) ids)) [0..<batchLoop ids mx]"
    by (simp add: batchSlice_small)
  then have "concat (map (batchSlice ids mx) [0..<batchLoop ids mx]) = take (batchLoop ids mx * mx) ids"
    by (simp only: slices_prefix)
  then show ?thesis by (simp add: batchSlice_last)
qed

lemma batchSlice_length:
  assumes "0 < mx" and "i \<le> batchLoop ids mx"
  shows "length (batchSlice ids mx i) = (if i = batchLoop ids mx then length ids mod mx else mx)"
proof (cases "i = batchLoop ids mx")
  case True
  then show ?thesis by (simp add: batchSlice_def batchLoop_def minus_div_mult_eq_mod)
next
  case False
  with assms have "Suc i * mx \<le> length ids"
    by (metis batchLoop_def le_neq_implies_less Suc_leI div_times_less_eq_dividend le_trans mult_le_mono1)
  with False show ?thesis by (simp add: batchSlice_def algebra_simps)
qed

text \<open>
  Batching: for a positive batch size the goroutines with work send requests that are not empty
  and at most the batch size long, that together are the list of ids in order, and whose slice
  expressions are in range.
\<close>

theorem batches_cover:
  assumes "0 < mx"
  shows "concat (map (batchSlice ids mx) (filter (batchHasWork ids mx) [0..<Suc (batchLoop ids mx)])) = ids \<and>
    (\<forall>i \<le> batchLoop ids mx. batchHasWork ids mx i \<longrightarrow>
       0 < length (batchSlice ids mx i) \<and> length (batchSlice ids mx i) \<le> mx) \<and>
    (\<forall>i < batchLoop ids mx. slice ids (int (i * mx)) (int ((i + 1) * mx)) = Inr (batchSlice ids mx i)) \<and>
    slice_from ids (int (batchLoop ids mx * mx)) = Inr (batchSlice ids mx (batchLoop ids mx))"
proof -
  let ?n = "batchLoop ids mx"
  have le: "?n * mx \<le> length ids" by (simp add: batchLoop_def div_times_less_eq_dividend)
  have "filter (batchHasWork ids mx) [0..<?n] = [0..<?n]" by (simp add: batchHasWork_def filter_id_conv)
  moreover have "batchSlice ids mx ?n = []" if "\<not> batchHasWork ids mx ?n"
    using that batchSlice_length [OF assms, of ?n ids] by (auto simp: batchHasWork_def)
  ultimately have 1: "concat (map (batchSlice ids mx) (filter (batchHasWork ids mx) [0..<Suc ?n])) = ids"
    using batches_concat [of ids mx] by auto
  have 2: "\<forall>i \<le> ?n. batchHasWork ids mx i \<longrightarrow> 0 < length (batchSlice ids mx i) \<and> length (batchSlice ids mx i) \<le> mx"
    using assms batchSlice_length [OF assms] by (auto simp: batchHasWork_def less_imp_le)
  have 3: "slice ids (int (i * mx)) (int ((i + 1) * mx)) = Inr (batchSlice ids mx i)" if "i < ?n" for i
  proof -
    have "(i + 1) * mx \<le> length ids" using that le by (metis Suc_eq_plus1 Suc_leI le_trans mult_le_mono1)
    then have "slice ids (int (i * mx)) (int ((i + 1) * mx)) = Inr (take ((i + 1) * mx - i * mx) (drop (i * mx) ids))"
      by (intro slice_ok) simp_all
    with that show ?thesis by (simp add: batchSlice_small)
  qed
  have 4: "slice_from ids (int (?n * mx)) = Inr (batchSlice ids mx ?n)"
    using le by (simp only: slice_from_ok batchSlice_last)
  from 1 2 3 4 show ?thesis by blast
qed

theorem batches_cover_witness:
  "concat (map (batchSlice [7, 8, 9, 10, 11] 2) (filter (batchHasWork [7, 8, 9, 10, 11] 2)
     [0..<Suc (batchLoop [7, 8, 9, 10, 11] 2)])) = [7, 8, 9, 10, 11]"
  using batches_cover [of 2 "[7, 8, 9, 10, 11]"] by simp

section \<open>Counters\<close>

text \<open>The part of the server a request does not touch except through the four error counters.\<close>

definition core :: "VideoRecServiceServer \<Rightarrow> VideoRecServiceServer" where
  "core s = s\<lparr>TotalErrors := 0, UserServiceErrors := 0, VideoServiceErrors := 0, StaleResponses := 0\<rparr>"

lemma core_add [simp]:
  "core (addTotalErrors n s) = core s" "core (addUserErrors n s) = core s"
  "core (addVideoErrors n s) = core s" "core (addStale n s) = core s"
  by (simp_all add: core_def addTotalErrors_def addUserErrors_def addVideoErrors_def addStale_def)

lemma core_fields:
  assumes "core s = core t"
  shows "options s = options t" "UserServiceMaxBatchSize s = UserServiceMaxBatchSize t"
    "VideoServiceMaxBatchSize s = VideoServiceMaxBatchSize t" "isMock s = isMock t"
    "TotalRequests s = TotalRequests t" "ActiveRequests s = ActiveRequests t"
    "TotalSumLatencyMs s = TotalSumLatencyMs t" "td s = td t" "TrendingCache s = TrendingCache t"
    "cacheExpirationTime s = cacheExpirationTime t"
  using assms by (cases s; cases t; simp add: core_def)+

text \<open>A piece of the handler that finishes, touches only the error counters, and whose answer (or
  intermediate result) has a property: the logic the handler is verified with.\<close>

definition post :: "('s \<Rightarrow> 'k) \<Rightarrow> ('s \<times> (status + GetTopVideosResponse)) go \<Rightarrow> 's
    \<Rightarrow> (status + GetTopVideosResponse \<Rightarrow> bool) \<Rightarrow> bool" where
  "post cr m s P \<longleftrightarrow> (\<exists>s' r. m = Inr (s', r) \<and> cr s' = cr s \<and> P r)"

definition postO :: "('s \<Rightarrow> 'k) \<Rightarrow> ('s \<times> 'a outcome) go \<Rightarrow> 's
    \<Rightarrow> (status + GetTopVideosResponse \<Rightarrow> bool) \<Rightarrow> ('a \<Rightarrow> bool) \<Rightarrow> bool" where
  "postO cr m s P Q \<longleftrightarrow> (\<exists>s' oc. m = Inr (s', oc) \<and> cr s' = cr s \<and>
     (case oc of Return r \<Rightarrow> P r | Continue x \<Rightarrow> Q x))"

lemma post_andThen:
  assumes "postO cr m s P Q" and "\<And>x s'. cr s' = cr s \<Longrightarrow> Q x \<Longrightarrow> post cr (k x s') s P"
  shows "post cr (andThen m k) s P"
proof -
  from assms(1) obtain s' oc where m: "m = Inr (s', oc)" "cr s' = cr s"
    "case oc of Return r \<Rightarrow> P r | Continue x \<Rightarrow> Q x" by (auto simp: postO_def)
  show ?thesis
  proof (cases oc)
    case (Return r)
    with m show ?thesis by (simp add: andThen_def post_def)
  next
    case (Continue x)
    with m assms(2) [of s' x] show ?thesis by (simp add: andThen_def)
  qed
qed

lemma post_Inr: "cr (fst p) = cr s \<Longrightarrow> P (snd p) \<Longrightarrow> post cr (Inr p) s P"
  by (cases p) (simp add: post_def)

lemma postO_Inr:
  "cr (fst p) = cr s \<Longrightarrow> (case snd p of Return r \<Rightarrow> P r | Continue x \<Rightarrow> Q x) \<Longrightarrow> postO cr (Inr p) s P Q"
  by (cases p) (simp add: postO_def)

text \<open>A stale answer is part of what one of the request's reads of the cache found, so it never mixes two versions of
  the cache; fresh answers and errors are not restricted by this predicate.\<close>

definition from_cache :: "'c env \<Rightarrow> VideoInfo list \<Rightarrow> bool" where
  "from_cache env vs \<longleftrightarrow> vs = [] \<or> (\<exists>site c. e_cache env site = Some c \<and> set vs \<subseteq> set c)"

fun stale_ok :: "'c env \<Rightarrow> status + GetTopVideosResponse \<Rightarrow> bool" where
  "stale_ok env (Inl e) = True"
| "stale_ok env (Inr r) = (StaleResponse r \<longrightarrow> from_cache env (resp_Videos r))"

lemma from_cache_subset: "from_cache env vs \<Longrightarrow> set ws \<subseteq> set vs \<Longrightarrow> from_cache env ws"
  unfolding from_cache_def by (metis order_trans list.set(1) set_empty subset_empty)

lemma GetCachedVideos_from: "GetCachedVideos l (cacheAt env site s) = Some vs \<Longrightarrow> from_cache env vs"
  by (auto simp: GetCachedVideos_def cacheAt_def from_cache_def split: option.splits if_splits dest: in_set_takeD)

lemma rankVideos_subset: "set (rankVideos env cf vs l) \<subseteq> set vs"
  by (auto simp: rankVideos_def Let_def dest: in_set_takeD)

lemma fallback_post:
  assumes "core s' = core s" and "\<And>vs. set (f vs) \<subseteq> set vs" and "stale_ok env other"
  shows "core (fst (fallback env site l f other s')) = core s" "stale_ok env (snd (fallback env site l f other s'))"
  using assms GetCachedVideos_from [of l env site s', THEN from_cache_subset]
  by (auto simp: fallback_def stale_def split: option.split)

lemma stale_ok_fresh [simp]: "stale_ok env (fresh vs)"
  by (simp add: fresh_def)

lemma returning_eq [simp]: "fst (returning r) = fst r" "snd (returning r) = Return (snd r)"
  by (cases r; simp add: returning_def)+

lemma deadlineExc_post:
  "core s' = core s \<Longrightarrow> core (fst (deadlineExc env site l s')) = core s"
  "stale_ok env (snd (deadlineExc env site l s'))"
  by (simp_all add: deadlineExc_def fallback_post [OF refl] fallback_post)

lemmas fallback_rules = fallback_post deadlineExc_post rankVideos_subset

lemma connectUser_post: "core s' = core s \<Longrightarrow> postO core (Inr (connectUser s' env l)) s (stale_ok env) (\<lambda>_. True)"
proof (rule postO_Inr)
  assume c: "core s' = core s"
  have f: "core t = core s \<and> stale_ok env r" if "fallback env AtReturn l id (Inl e) (addUserErrors (Suc 0) s') = (t, r)" for e t r
    using fallback_post [of "addUserErrors (Suc 0) s'" s id env "Inl e" AtReturn l] c that by simp
  show "core (fst (connectUser s' env l)) = core s"
    using c by (auto simp: connectUser_def Let_def fallback_rules dest: f split: option.split prod.split sum.split)
  show "case snd (connectUser s' env l) of Return r \<Rightarrow> stale_ok env r | Continue x \<Rightarrow> True"
    using c by (auto simp: connectUser_def Let_def fallback_post [OF refl] simp del: stale_ok.simps(2) dest: f
        split: option.split prod.split sum.split)
qed

lemma fetchSubscriber_post:
  assumes "core s' = core s" and "\<forall>n us. res (e_getUser env (Subscriber n) [uid]) = Inr us \<longrightarrow> Q us"
  shows "postO core (Inr (fetchSubscriber s' env l uid)) s (stale_ok env) Q"
  by (rule postO_Inr)
    (use assms in \<open>auto simp: fetchSubscriber_def Let_def fallback_rules fallback_post(2) [OF refl] split: sum.split\<close>)

text \<open>The cache channel of a phase only ever receives parts of the cache.\<close>

definition cached_only :: "'c env \<Rightarrow> 'a worker \<Rightarrow> bool" where
  "cached_only env w \<longleftrightarrow> (case w_cache w of None \<Rightarrow> True | Some vs \<Rightarrow> from_cache env vs)"

lemma wWorker_cached [simp]:
  "cached_only env (wOk xs n)" "cached_only env (wErr e n t)"
  "cached_only env (wCache c n t st) \<longleftrightarrow> (case c of None \<Rightarrow> True | Some vs \<Rightarrow> from_cache env vs)"
  by (simp_all add: cached_only_def wOk_def wErr_def wCache_def)

lemma userWorker_cached: "cached_only env (userWorker s env l ids mx i)"
  by (auto simp: userWorker_def Let_def GetCachedVideos_from split: sum.split option.split)

lemma deadlineExc_from: "deadlineExc env site l s = (t, Inr r) \<Longrightarrow> from_cache env (resp_Videos r)"
  by (auto simp: deadlineExc_def fallback_def stale_def GetCachedVideos_from split: if_splits option.splits)

lemma videoWorker_cached: "cached_only env (videoWorker s env l ids mx i)"
proof -
  have "from_cache env []" by (simp add: from_cache_def)
  then show ?thesis
    by (auto simp: videoWorker_def Let_def GetCachedVideos_from deadlineExc_from split: sum.split option.split prod.split)
qed

lemma cacheSends_cached: "\<forall>i. cached_only env (w i) \<Longrightarrow> vs \<in> set (cacheSends w order) \<Longrightarrow> from_cache env vs"
proof -
  assume w: "\<forall>i. cached_only env (w i)" and "vs \<in> set (cacheSends w order)"
  then obtain i where "w_cache (w i) = Some vs" by (auto simp: cacheSends_def map_filter_def)
  with w show ?thesis by (metis cached_only_def option.simps(5))
qed

lemma joinPhase_post:
  assumes "core s' = core s" and "\<forall>i. cached_only env (w i)"
  shows "postO core (Inr (joinPhase env cf l w appends sends pick s')) s (stale_ok env) (\<lambda>_. True)"
proof -
  have "stale_ok env (stale (rankVideos env cf (hd (cacheSends w sends)) l))" if "cacheSends w sends \<noteq> []"
    using cacheSends_cached [OF assms(2), of "hd (cacheSends w sends)" sends, THEN from_cache_subset [OF _ rankVideos_subset]] that
    by (simp add: stale_def)
  then show ?thesis
    using assms(1) by (intro postO_Inr) (auto simp: joinPhase_def split: list.split option.split)
qed

lemma userPhase_post:
  assumes "core s' = core s" and "UserServiceMaxBatchSize s \<noteq> 0"
  shows "postO core (userPhase s' env cf l ids) s (stale_ok env) (\<lambda>_. True)"
proof -
  have "unat (UserServiceMaxBatchSize s') \<noteq> 0" using assms core_fields(2) [OF assms(1)] by (simp add: unat_eq_0)
  then show ?thesis
    using assms(1) by (simp add: userPhase_def Let_def joinPhase_post userWorker_cached)
qed

lemma videoPhase_post:
  assumes "core s' = core s" and "VideoServiceMaxBatchSize s \<noteq> 0"
  shows "postO core (videoPhase s' env cf l ids) s (stale_ok env) (\<lambda>_. True)"
proof -
  have "unat (VideoServiceMaxBatchSize s') \<noteq> 0" using assms core_fields(3) [OF assms(1)] by (simp add: unat_eq_0)
  then show ?thesis
    using assms(1) by (simp add: videoPhase_def Let_def joinPhase_post videoWorker_cached)
qed

lemma connectVideo_core: "core (fst (connectVideo s env)) = core s"
  by (simp add: connectVideo_def Let_def split: option.split)

lemma connectVideoClient_post:
  assumes "core s' = core s"
  shows "postO core (Inr (connectVideoClient s' env cf l)) s (stale_ok env) (\<lambda>_. True)"
proof (cases "connectVideo s' env")
  case (Pair s1 err)
  then have "core s1 = core s" using connectVideo_core [of s' env] assms by simp
  with Pair show ?thesis
    by (intro postO_Inr)
      (auto simp: connectVideoClient_def fallback_rules fallback_post(2) [OF refl] split: option.split)
qed

lemma recommend_post:
  assumes "core s' = core s" and "UserServiceMaxBatchSize s \<noteq> 0" and "VideoServiceMaxBatchSize s \<noteq> 0"
  shows "post core (recommend s' env l u) s (stale_ok env)"
proof (cases "SubscribedTo u = []")
  case True
  with assms show ?thesis
    by (auto simp: recommend_def Let_def fallback_rules fallback_post(2) [OF refl] intro!: post_Inr)
next
  case False
  then show ?thesis
    using assms unfolding recommend_def Let_def
    by (auto intro!: post_andThen [OF userPhase_post] post_andThen [OF connectVideoClient_post]
        post_andThen [OF videoPhase_post] post_Inr simp: fallback_rules fallback_post(2) [OF refl])
qed

lemma body_post:
  assumes "core s' = core s" and "UserServiceMaxBatchSize s \<noteq> 0" and "VideoServiceMaxBatchSize s \<noteq> 0"
    and "\<forall>n us. res (e_getUser env (Subscriber n) [req_UserId req]) = Inr us \<longrightarrow> us \<noteq> []"
  shows "post core (GetTopVideos_body s' env req) s (stale_ok env)"
proof -
  have k: "post core (go_bind (index us 0) (\<lambda>u. recommend t env l u)) s (stale_ok env)"
    if "core t = core s" "us \<noteq> []" for us t l
    using recommend_post [OF that(1) assms(2,3)] that(2) by (cases us) (simp_all add: index_def)
  show ?thesis
    unfolding GetTopVideos_body_def Let_def using assms
    by (auto intro!: post_andThen [OF connectUser_post] post_andThen [OF fetchSubscriber_post [where Q = "\<lambda>us. us \<noteq> []"]]
        post_Inr k simp: fallback_rules fallback_post(2) [OF refl])
qed


text \<open>
  Staleness: whatever the backends do and however often the cache is replaced while the request runs, a response
  marked stale is empty or made of videos of the cache as one read of the request found it.
\<close>

theorem GetTopVideos_stale:
  assumes "UserServiceMaxBatchSize s \<noteq> 0" and "VideoServiceMaxBatchSize s \<noteq> 0"
    and "\<forall>n us. res (e_getUser env (Subscriber n) [req_UserId req]) = Inr us \<longrightarrow> us \<noteq> []"
    and "GetTopVideos s env req = Inr (s', Inr r)" and "StaleResponse r"
  shows "resp_Videos r = [] \<or> (\<exists>site c. e_cache env site = Some c \<and> set (resp_Videos r) \<subseteq> set c)"
proof -
  let ?s1 = "s\<lparr>TotalRequests := TotalRequests s + 1, ActiveRequests := ActiveRequests s + 1\<rparr>"
  from body_post [of ?s1 ?s1 env req] assms(1-3) obtain s2 r2 where
    b: "GetTopVideos_body ?s1 env req = Inr (s2, r2)" "stale_ok env r2"
    by (auto simp: post_def)
  with assms(4) have "r2 = Inr r" by (auto simp: GetTopVideos_def)
  with b(2) assms(5) show ?thesis by (simp add: from_cache_def)
qed

section \<open>Fresh responses\<close>

text \<open>Backends that hold the maps \<open>us\<close> and \<open>vs\<close> and answer every valid request in time.\<close>

definition backends_up :: "(u64 \<rightharpoonup> UserInfo) \<Rightarrow> (u64 \<rightharpoonup> VideoInfo) \<Rightarrow> 'c env \<Rightarrow> bool" where
  "backends_up us vs env \<longleftrightarrow> \<not> e_expired env \<and> (\<forall>a k. e_dial env a k = None) \<and>
     (\<forall>site ids. set ids \<subseteq> dom us \<longrightarrow> e_getUser env site ids = \<lparr>res = Inr (map (\<lambda>i. the (us i)) ids), late = False\<rparr>) \<and>
     (\<forall>site ids. set ids \<subseteq> dom vs \<longrightarrow> e_getVideo env site ids = \<lparr>res = Inr (map (\<lambda>i. the (vs i)) ids), late = False\<rparr>)"

lemma batchSlice_set: "set (batchSlice ids mx i) \<subseteq> set ids"
  by (auto simp: batchSlice_def dest: in_set_takeD in_set_dropD)

lemma batchSlice_idle: "0 < mx \<Longrightarrow> \<not> batchHasWork ids mx i \<Longrightarrow> batchSlice ids mx i = []"
  using batchSlice_length [of mx i ids] by (auto simp: batchHasWork_def)

lemma userWorker_up:
  assumes "backends_up us vs env" and "set ids \<subseteq> dom us" and "0 < mx"
  shows "userWorker s env l ids mx i = wOk (map (\<lambda>i. the (us i)) (batchSlice ids mx i)) 0"
proof (cases "batchHasWork ids mx i")
  case True
  have "set (batchSlice ids mx i) \<subseteq> dom us" using assms(2) batchSlice_set by blast
  with True assms(1) show ?thesis by (simp add: userWorker_def Let_def backends_up_def)
qed (simp add: userWorker_def batchSlice_idle assms(3))

lemma videoWorker_up:
  assumes "backends_up us vs env" and "set ids \<subseteq> dom vs" and "0 < mx"
  shows "videoWorker s env l ids mx i = wOk (map (\<lambda>i. the (vs i)) (batchSlice ids mx i)) 0"
proof (cases "batchHasWork ids mx i")
  case True
  have "set (batchSlice ids mx i) \<subseteq> dom vs" using assms(2) batchSlice_set by blast
  with True assms(1) show ?thesis by (simp add: videoWorker_def Let_def backends_up_def)
qed (simp add: videoWorker_def batchSlice_idle assms(3))

lemma joinPhase_up:
  assumes "\<And>i. w i = wOk (g i) 0"
  shows "joinPhase env cf l w appends sends pick s = (s, Continue (concat (map g appends)))"
proof -
  have "cacheSends w sends = []" "errSends w sends = map (\<lambda>_. None) sends"
    by (induction sends) (simp_all add: cacheSends_def errSends_def map_filter_simps assms wOk_def)
  moreover have "appended w appends = concat (map g appends)" by (simp add: appended_def assms wOk_def)
  ultimately show ?thesis by (cases sends) (simp_all add: joinPhase_def)
qed

lemma userPhase_up:
  assumes "backends_up us vs env" and "set ids \<subseteq> dom us" and "0 < unat (UserServiceMaxBatchSize s)"
  shows "\<exists>s'. userPhase s env cf l ids = Inr (s', Continue
      (concat (map (\<lambda>i. map (\<lambda>i. the (us i)) (batchSlice ids (unat (UserServiceMaxBatchSize s)) i)) (e_userAppends env)))) \<and>
    core s' = core s"
  unfolding userPhase_def Let_def joinPhase_up [OF userWorker_up [OF assms]] using assms(3) by simp

lemma videoPhase_up:
  assumes "backends_up us vs env" and "set ids \<subseteq> dom vs" and "0 < unat (VideoServiceMaxBatchSize s)"
  shows "\<exists>s'. videoPhase s env cf l ids = Inr (s', Continue
      (concat (map (\<lambda>i. map (\<lambda>i. the (vs i)) (batchSlice ids (unat (VideoServiceMaxBatchSize s)) i)) (e_videoAppends env))))"
  unfolding videoPhase_def Let_def joinPhase_up [OF videoWorker_up [OF assms]] using assms(3) by simp

lemma mset_concat_perm: "mset xs = mset ys \<Longrightarrow> mset (concat (map f xs)) = mset (concat (map f ys))"
proof -
  have "mset (concat (map f zs)) = sum_mset (image_mset (\<lambda>x. mset (f x)) (mset zs))" for zs
    by (induction zs) auto
  then show "mset xs = mset ys \<Longrightarrow> ?thesis" by simp
qed

text \<open>All batches together, in whatever order they are appended.\<close>

lemma batches_mset:
  assumes "mset order = mset [0..<Suc (batchLoop ids mx)]"
  shows "mset (concat (map (\<lambda>i. map f (batchSlice ids mx i)) order)) = image_mset f (mset ids)"
proof -
  have "mset (concat (map (\<lambda>i. map f (batchSlice ids mx i)) order)) =
      mset (concat (map (\<lambda>i. map f (batchSlice ids mx i)) [0..<Suc (batchLoop ids mx)]))"
    using assms by (rule mset_concat_perm)
  also have "concat (map (\<lambda>i. map f (batchSlice ids mx i)) [0..<Suc (batchLoop ids mx)]) =
      map f (concat (map (batchSlice ids mx) [0..<Suc (batchLoop ids mx)]))"
    by (simp only: map_concat map_map o_def)
  finally show ?thesis by (simp only: batches_concat mset_map)
qed

lemma collectLiked_set: "set (collectLiked us) = (\<Union>u \<in> set us. set (LikedVideos u))"
  by (simp add: collectLiked_def dedupLoop_set)

lemma collectLiked_distinct: "distinct (collectLiked us)"
  by (simp add: collectLiked_def dedupLoop_distinct)

lemma rankVideos_sorted:
  "\<exists>all. mset all = mset vs \<and> sorted_wrt (\<lambda>a b. score env cf a \<ge> score env cf b) all \<and>
     rankVideos env cf vs limit = (if limit > 0 then take (nat limit) all else all)"
proof -
  let ?k = "\<lambda>v. - int (unat (score env cf v))" and ?all = "sort_key (\<lambda>v. - int (unat (score env cf v))) vs"
  have "sorted (map ?k ?all)" by (rule sorted_sort_key)
  then have "sorted_wrt (\<lambda>a b. score env cf a \<ge> score env cf b) ?all"
    by (simp add: sorted_map word_le_def)
  moreover have "rankVideos env cf vs limit = (if limit > 0 then take (nat limit) ?all else ?all)"
    by (auto simp: rankVideos_def Let_def)
  ultimately show ?thesis by (intro exI [of _ ?all]) simp
qed

text \<open>Whatever order the batches return in, the videos collected are the liked ones, each once.\<close>

lemma liked_collected:
  assumes "mset as = mset [0..<Suc (batchLoop ids mx)]"
  shows "set (collectLiked (concat (map (\<lambda>i. map (\<lambda>i. the (us i)) (batchSlice ids mx i)) as))) =
    (\<Union>w \<in> set ids. set (LikedVideos (the (us w))))"
proof -
  let ?us = "concat (map (\<lambda>i. map (\<lambda>i. the (us i)) (batchSlice ids mx i)) as)"
  have "set ?us = set_mset (mset ?us)" by simp
  also have "\<dots> = (\<lambda>i. the (us i)) ` set ids" unfolding batches_mset [OF assms] by simp
  finally show ?thesis by (simp add: collectLiked_set)
qed

lemma videos_collected:
  assumes "set (collectLiked ws) = liked" and "mset as = mset [0..<Suc (card liked div mx)]"
  shows "mset (concat (map (\<lambda>i. map (\<lambda>i. the (vs i)) (batchSlice (collectLiked ws) mx i)) as)) =
    image_mset (\<lambda>v. the (vs v)) (mset_set liked)"
proof -
  have "length (collectLiked ws) = card liked"
    using distinct_card [OF collectLiked_distinct, of ws] assms(1) by simp
  then have "mset as = mset [0..<Suc (batchLoop (collectLiked ws) mx)]" using assms(2) by (simp add: batchLoop_def)
  note batches_mset [OF this, of "\<lambda>v. the (vs v)"]
  also have "mset (collectLiked ws) = mset_set liked"
    using mset_set_set [OF collectLiked_distinct] assms(1) by metis
  finally show ?thesis .
qed

text \<open>
  C8. The recommendation is right when the backends answer: for a known user whose subscriptions and
  their liked videos are known to the backends, the response is fresh, and its videos are the
  videos liked by someone the user subscribes to, each once, sorted by decreasing score and cut
  at the limit, for every schedule of the batch goroutines and every batch size.
\<close>

theorem GetTopVideos_fresh:
  fixes liked :: "u64 set"
  assumes up: "backends_up us vs env"
    and req: "us (req_UserId req) = Some u" "req_UserId req \<noteq> 0" "0 \<le> req_Limit req"
    and sub: "SubscribedTo u \<noteq> []" "set (SubscribedTo u) \<subseteq> dom us"
    and liked: "liked = (\<Union>w \<in> set (SubscribedTo u). set (LikedVideos (the (us w))))" "liked \<noteq> {}" "liked \<subseteq> dom vs"
    and sizes: "UserServiceMaxBatchSize s \<noteq> 0" "VideoServiceMaxBatchSize s \<noteq> 0"
    and users_run: "mset (e_userAppends env) =
        mset [0..<Suc (batchLoop (SubscribedTo u) (unat (UserServiceMaxBatchSize s)))]"
    and videos_run: "mset (e_videoAppends env) = mset [0..<Suc (card liked div unat (VideoServiceMaxBatchSize s))]"
  shows "\<exists>s' all. GetTopVideos s env req =
      Inr (s', Inr \<lparr>resp_Videos = (if req_Limit req > 0 then take (nat (req_Limit req)) all else all), StaleResponse = False\<rparr>) \<and>
    mset all = image_mset (\<lambda>v. the (vs v)) (mset_set liked) \<and>
    sorted_wrt (\<lambda>a b. score env (UserCoefficients u) a \<ge> score env (UserCoefficients u) b) all"
proof -
  let ?umx = "unat (UserServiceMaxBatchSize s)" and ?vmx = "unat (VideoServiceMaxBatchSize s)"
    and ?cf = "UserCoefficients u" and ?l = "req_Limit req"
  have mx: "0 < ?umx" "0 < ?vmx" using sizes by (simp_all add: unat_gt_0)
  define s1 where "s1 = s\<lparr>TotalRequests := TotalRequests s + 1, ActiveRequests := ActiveRequests s + 1\<rparr>"
  define us' where "us' = concat (map (\<lambda>i. map (\<lambda>i. the (us i)) (batchSlice (SubscribedTo u) ?umx i)) (e_userAppends env))"
  have liked_eq: "set (collectLiked us') = liked" unfolding us'_def liked(1) by (rule liked_collected [OF users_run])
  define vs' where "vs' = concat (map (\<lambda>i. map (\<lambda>i. the (vs i)) (batchSlice (collectLiked us') ?vmx i)) (e_videoAppends env))"
  have vs': "mset vs' = image_mset (\<lambda>v. the (vs v)) (mset_set liked)"
    unfolding vs'_def by (rule videos_collected [OF liked_eq videos_run])
  have core1: "unat (UserServiceMaxBatchSize s1) = ?umx" "unat (VideoServiceMaxBatchSize s1) = ?vmx" by (simp_all add: s1_def)
  obtain s2 where p1: "userPhase s1 env ?cf ?l (SubscribedTo u) = Inr (s2, Continue us')" "core s2 = core s1"
    using userPhase_up [OF up sub(2), of s1] mx(1) unfolding core1 us'_def by blast
  have lk: "collectLiked us' \<noteq> []" "set (collectLiked us') \<subseteq> dom vs" using liked_eq liked by auto
  have c2: "connectVideoClient s2 env ?cf ?l = (s2, Continue ())"
    using up by (auto simp: connectVideoClient_def connectVideo_def ConnectClient_def backends_up_def)
  have vm2: "unat (VideoServiceMaxBatchSize s2) = ?vmx" using core_fields(3) [OF p1(2)] core1 by simp
  obtain s3 where p2: "videoPhase s2 env ?cf ?l (collectLiked us') = Inr (s3, Continue vs')"
    using videoPhase_up [OF up lk(2), of s2] mx(2) unfolding vm2 vs'_def by blast
  have rec: "recommend s1 env ?l u = Inr (s3, fresh (rankVideos env ?cf vs' ?l))"
    using sub(1) lk(1) p1(1) p2 c2 by (simp add: recommend_def andThen_def Let_def)
  have conn: "connectUser s1 env ?l = (s1, Continue ())"
    using up by (simp add: connectUser_def ConnectClient_def backends_up_def)
  have "set [req_UserId req] \<subseteq> dom us" using req(1) by auto
  then have "fetchSubscriber s1 env ?l (req_UserId req) = (s1, Continue [u])"
    using up req(1) by (simp add: fetchSubscriber_def backends_up_def Let_def)
  then have body: "GetTopVideos_body s1 env req = Inr (s3, fresh (rankVideos env ?cf vs' ?l))"
    using up req conn rec by (simp add: GetTopVideos_body_def andThen_def Let_def index_def backends_up_def)
  obtain s4 where g: "GetTopVideos s env req = Inr (s4, fresh (rankVideos env ?cf vs' ?l))"
    using body unfolding s1_def by (simp add: GetTopVideos_def)
  obtain all where "mset all = mset vs'" "sorted_wrt (\<lambda>a b. score env ?cf a \<ge> score env ?cf b) all"
    "rankVideos env ?cf vs' ?l = (if ?l > 0 then take (nat ?l) all else all)"
    using rankVideos_sorted by blast
  with g vs' show ?thesis by (auto simp: fresh_def)
qed

section \<open>Concrete runs\<close>

definition ex_user :: "u64 \<Rightarrow> u64 list \<Rightarrow> u64 list \<Rightarrow> UserInfo" where
  "ex_user i subs likes = \<lparr>ui_UserId = i, Username = ''u'', Email = '''', ProfileUrl = '''', SubscribedTo = subs,
     UserCoefficients = [0 \<mapsto> 3], LikedVideos = likes\<rparr>"

definition ex_video :: "u64 \<Rightarrow> VideoInfo" where
  "ex_video i = \<lparr>vi_VideoId = i, Title = ''v'', Author = '''', Url = '''', VideoCoefficients = [0 \<mapsto> i]\<rparr>"

definition ex_users :: "u64 \<rightharpoonup> UserInfo" where
  "ex_users = [200000 \<mapsto> ex_user 200000 [200001, 200002] [], 200001 \<mapsto> ex_user 200001 [] [1000],
     200002 \<mapsto> ex_user 200002 [] [1000, 1001]]"

definition ex_videos :: "u64 \<rightharpoonup> VideoInfo" where
  "ex_videos = [1000 \<mapsto> ex_video 1000, 1001 \<mapsto> ex_video 1001]"

definition ex_env :: "byte list env" where
  "ex_env = \<lparr>e_expired = False, e_dial = (\<lambda>_ _. None),
     e_getUser = (\<lambda>_ ids. \<lparr>res = Inr (map (\<lambda>i. the (ex_users i)) ids), late = False\<rparr>),
     e_getVideo = (\<lambda>_ ids. \<lparr>res = Inr (map (\<lambda>i. the (ex_videos i)) ids), late = False\<rparr>),
     e_trending = (\<lambda>_. Inr \<lparr>Videos = [1001], ExpirationTimeS = 60\<rparr>),
     e_userAppends = [2, 0, 1], e_userSends = [0, 1, 2], e_userPickDone = True,
     e_videoAppends = [1, 0, 2], e_videoSends = [2, 1, 0], e_videoPickDone = True, e_cache = (\<lambda>_. None), e_latency = 12,
     e_nsc = (\<lambda>k s. Inr (k @ s)), e_ek = (\<lambda>k c. c @ k), e_enc = (\<lambda>c b. b), e_order = (\<lambda>_. [0])\<rparr>"

definition ex_opts :: VideoRecServiceOptions where
  "ex_opts = \<lparr>UserServiceAddr = ''u'', VideoServiceAddr = ''v'', MaxBatchSize = 50, DisableFallback = False,
     DisableRetry = False\<rparr>"

definition ex_server :: VideoRecServiceServer where
  "ex_server = MakeVideoRecServiceServerWithMocks ex_opts"

definition ex_req :: GetTopVideosRequest where
  "ex_req = \<lparr>req_UserId = 200000, req_Limit = 0\<rparr>"

lemma ex_server_sizes: "UserServiceMaxBatchSize ex_server = 1" "VideoServiceMaxBatchSize ex_server = 1"
    "ActiveRequests ex_server = 0" "TotalRequests ex_server = 0" "TrendingCache ex_server = None" "isMock ex_server"
    "options ex_server = ex_opts"
  by (simp_all add: ex_server_def MakeVideoRecServiceServerWithMocks_def newServer_def)

text \<open>What evaluates a concrete request.\<close>

lemmas handler_defs = GetTopVideos_def GetTopVideos_body_def ex_req_def ex_env_def andThen_def Let_def connectUser_def
  ex_server_sizes fetchSubscriber_def index_def recommend_def ex_users_def ex_user_def userPhase_def joinPhase_def
  cacheSends_def errSends_def map_filter_simps userWorker_def batchHasWork_def batchLoop_def batchSlice_def wOk_def
  wErr_def wCache_def appended_def collectLiked_def connectVideoClient_def connectVideo_def videoPhase_def
  videoWorker_def rankVideos_def fresh_def stale_def returning_def deadlineExc_def fallback_def GetCachedVideos_def cacheAt_def
  ex_videos_def ex_opts_def addUserErrors_def addTotalErrors_def addVideoErrors_def addStale_def total_def upt_rec
  ex_server_def MakeVideoRecServiceServerWithMocks_def newServer_def


theorem GetTopVideos_fresh_witness:
  "\<exists>s vids. GetTopVideos ex_server ex_env ex_req = Inr (s, Inr \<lparr>resp_Videos = vids, StaleResponse = False\<rparr>) \<and>
     mset vids = {#ex_video 1000, ex_video 1001#}"
proof -
  have up: "backends_up ex_users ex_videos ex_env" by (simp add: backends_up_def ex_env_def)
  have u: "ex_users 200000 = Some (ex_user 200000 [200001, 200002] [])" by (simp add: ex_users_def)
  have l: "{1000, 1001} = (\<Union>w \<in> set (SubscribedTo (ex_user 200000 [200001, 200002] [])). set (LikedVideos (the (ex_users w))))"
    by (auto simp: ex_users_def ex_user_def)
  from GetTopVideos_fresh [OF up, of ex_req, OF _ _ _ _ _ l, of ex_server] u
  have "\<exists>s all. GetTopVideos ex_server ex_env ex_req = Inr (s, Inr \<lparr>resp_Videos = all, StaleResponse = False\<rparr>) \<and>
      mset all = image_mset (\<lambda>v. the (ex_videos v)) (mset_set {1000, 1001 :: u64})"
    by (auto simp: ex_req_def ex_users_def ex_videos_def ex_user_def ex_server_sizes ex_env_def batchLoop_def upt_rec)
  then show ?thesis by (simp add: ex_videos_def)
qed

definition down_env :: "byte list env" where
  "down_env = ex_env\<lparr>e_getUser := (\<lambda>_ _. \<lparr>res = Inl (mk_error Unavailable ''down''), late = False\<rparr>),
     e_cache := (\<lambda>_. Some [ex_video 1001])\<rparr>"

theorem GetTopVideos_stale_witness:
  "\<exists>s r. GetTopVideos ex_server down_env ex_req = Inr (s, Inr r) \<and>
     StaleResponse r \<and> set (resp_Videos r) \<subseteq> {ex_video 1001}"
proof -
  have "\<exists>s r. GetTopVideos ex_server down_env ex_req = Inr (s, Inr r) \<and> StaleResponse r"
    by (simp add: handler_defs down_env_def)
  then obtain s r where r: "GetTopVideos ex_server down_env ex_req = Inr (s, Inr r)" "StaleResponse r" by blast
  have "\<forall>n us. res (e_getUser down_env (Subscriber n) [req_UserId ex_req]) = Inr us \<longrightarrow> us \<noteq> []"
    by (simp add: down_env_def)
  from GetTopVideos_stale [OF _ _ this r] r show ?thesis by (auto simp: ex_server_sizes down_env_def)
qed

definition lossy_env :: "byte list env" where
  "lossy_env = ex_env\<lparr>e_getUser := (\<lambda>site ids.
     if ids = [200002] then \<lparr>res = Inl (mk_error Unavailable ''down''), late = False\<rparr> else e_getUser ex_env site ids),
     e_videoAppends := [0, 1], e_videoSends := [0, 1]\<rparr>"

text \<open>
  An error can be swallowed: with fallback disabled, the batch of one of the two subscribed users
  fails on both attempts, and still the answer is a fresh response without that user's videos,
  because the error channel is read only once and the first message in it was \<open>nil\<close>.
\<close>

theorem GetTopVideos_swallows_error:
  "\<exists>s. GetTopVideos (ex_server\<lparr>options := ex_opts\<lparr>DisableFallback := True\<rparr>\<rparr>) lossy_env ex_req =
       Inr (s, Inr \<lparr>resp_Videos = [ex_video 1000], StaleResponse = False\<rparr>) \<and>
     UserServiceErrors s = 2 \<and> TotalErrors s = 0 \<and> 1001 \<in> set (LikedVideos (the (ex_users 200002)))"
  by (simp add: handler_defs lossy_env_def)

definition slow_env :: "byte list env" where
  "slow_env = ex_env\<lparr>e_getVideo := (\<lambda>_ _. \<lparr>res = Inl (mk_error DeadlineExceeded ''late''), late = True\<rparr>),
     e_videoPickDone := False\<rparr>"

text \<open>
  A stale response although fallback is disabled: a video batch that exceeds its deadline sends
  the (missing) videos of the error answer on the cache channel, and the request is answered
  with an empty response marked stale instead of the deadline error.
\<close>

theorem GetTopVideos_stale_without_fallback:
  "\<exists>s. GetTopVideos (ex_server\<lparr>options := ex_opts\<lparr>DisableFallback := True\<rparr>\<rparr>) slow_env ex_req =
       Inr (s, Inr \<lparr>resp_Videos = [], StaleResponse = True\<rparr>)"
  by (simp add: handler_defs slow_env_def)

section \<open>Finding the batch size\<close>

lemma strip_prefix_append [simp]: "strip_prefix p (p @ s) = Some s"
  by (induction p) auto

lemma digit_not_sign: "is_digit c \<Longrightarrow> c \<noteq> CHR ''-'' \<and> c \<noteq> CHR ''+''"
  by (auto simp: is_digit_def)

lemma scan_show_int: "0 \<le> n \<Longrightarrow> scan_int (show_int n) = Some n"
proof -
  assume n: "0 \<le> n"
  define s where "s = show_nat (nat n)"
  have d: "list_all is_digit s" "s \<noteq> []" by (simp_all add: s_def show_nat_digits show_nat_nonempty)
  then obtain c cs where c: "s = c # cs" "is_digit c" by (cases s) auto
  have tw: "takeWhile is_digit cs = cs" using d(1) c(1) by (simp add: list_all_iff)
  have "read_digits s = nat n" by (simp add: s_def)
  with n c digit_not_sign [OF c(2)] show ?thesis
    by (simp add: scan_int_def show_int_def s_def [symmetric] Let_def tw)
qed

lemma Sscanf_user: "0 \<le> n \<Longrightarrow> Sscanf userBatchPrefix (userBatchMsg n) = Some n"
  unfolding Sscanf_def userBatchMsg_def userBatchPrefix_def strip_prefix_append by (simp add: scan_show_int)

lemma Sscanf_video: "0 \<le> n \<Longrightarrow> Sscanf videoBatchPrefix (videoBatchMsg n) = Some n"
  unfolding Sscanf_def videoBatchMsg_def videoBatchPrefix_def strip_prefix_append by (simp add: scan_show_int)

lemma probeLoop_first:
  "\<forall>j < k. verdict (i + j) = None \<Longrightarrow> verdict (i + k) = Some n \<Longrightarrow> k < fuel \<Longrightarrow> probeLoop fuel verdict i = Some n"
proof (induction k arbitrary: i fuel)
  case 0
  then show ?case by (cases fuel) auto
next
  case (Suc k)
  then obtain f where f: "fuel = Suc f" "k < f" by (cases fuel) auto
  have "verdict i = None" using Suc.prems(1) by (metis add_0_right zero_less_Suc)
  moreover have "probeLoop f verdict (Suc i) = Some n"
    using Suc.prems by (intro Suc.IH f) (auto dest: spec [of _ "Suc _"])
  ultimately show ?case using f by simp
qed

text \<open>How a client sees the outcome of a handler: a hanging handler ends in its deadline.\<close>

definition served :: "('a rpc \<times> 'g world) go \<Rightarrow> status + 'a" where
  "served m = (case m of
     Inr (Reply x, w) \<Rightarrow> Inr x
   | Inr (Fail e, w) \<Rightarrow> Inl e
   | Inr (Hang, w) \<Rightarrow> Inl (mk_error DeadlineExceeded ''context deadline exceeded'')
   | Inl p \<Rightarrow> Inl (mk_error Unavailable ''connection closed''))"

text \<open>A request the injector lets fail or hang does not end the probing.\<close>

definition let_through :: "FailureInjector \<Rightarrow> 'g world \<Rightarrow> bool" where
  "let_through i w \<longleftrightarrow> (\<exists>w'. MaybeInject i w = Inr (Some False, w'))"

definition injected :: "FailureInjector \<Rightarrow> 'g world \<Rightarrow> bool" where
  "injected i w \<longleftrightarrow> (\<exists>w'. MaybeInject i w = Inr (Some True, w') \<or> MaybeInject i w = Inr (None, w'))"

lemma probe_user_injected:
  "injected (us_fi db) w \<Longrightarrow> probeVerdict p m (served (GetUser db ids w)) = None"
  by (auto simp: injected_def GetUser_def gbind_def gret_def served_def fail_with_def probeVerdict_def mk_error_def)

lemma probe_video_injected:
  "injected (vs_fi db) w \<Longrightarrow> probeVerdict p m (served (GetVideo db ids w)) = None"
  by (auto simp: injected_def GetVideo_def gbind_def gret_def served_def fail_with_def probeVerdict_def mk_error_def
      videoInjected_def)

lemma probe_lookup:
  assumes "probeVerdict p m (served (Inr (lookupAll nf db ids, w))) = v"
  shows "v = Some (nat (max 0 (m - 1)))"
proof (cases "set ids \<subseteq> dom db")
  case True
  then have "lookupAll nf db ids = Reply (map (\<lambda>k. the (db k)) ids)" by (simp add: lookupAll_Reply_iff)
  with assms show ?thesis by (simp add: served_def probeVerdict_def)
next
  case False
  from lookupAll_missing [OF this, of nf] assms show ?thesis
    by (auto simp: served_def probeVerdict_def fail_with_def)
qed

lemma probe_user_answer:
  assumes "let_through (us_fi db) w" and "1 \<le> m" and "1 \<le> us_MaxBatchSize (us_options db)"
  shows "probeVerdict userBatchPrefix m (served (GetUser db (userProbe m) w)) =
    Some (nat (min m (us_MaxBatchSize (us_options db)) - 1))"
proof -
  let ?L = "us_MaxBatchSize (us_options db)"
  from assms(1) obtain w' where w': "MaybeInject (us_fi db) w = Inr (Some False, w')" by (auto simp: let_through_def)
  have g: "GetUser db (userProbe m) w = Inr (if m > ?L then fail_with InvalidArgument (userBatchMsg ?L)
      else lookupAll userNotFound (users db) (userProbe m), w')"
    using w' assms(2) by (simp add: GetUser_def gbind_def gret_def userProbe_def)
  show ?thesis
  proof (cases "m > ?L")
    case True
    then show ?thesis
      unfolding g using assms(3) by (simp add: served_def fail_with_def probeVerdict_def Sscanf_user max_def min_def)
  next
    case False
    from probe_lookup [of userBatchPrefix m userNotFound "users db" "userProbe m" w', OF refl] False assms(2)
    show ?thesis unfolding g by (simp add: max_def min_def)
  qed
qed

lemma videoProbe_distinct: "m \<le> 2 ^ 64 \<Longrightarrow> distinct (videoProbe m)"
proof -
  assume m: "m \<le> 2 ^ 64"
  have "inj_on (\<lambda>i. (1300 :: u64) + of_nat i) {0..<nat m}"
  proof (rule inj_onI)
    fix i j assume ij: "i \<in> {0..<nat m}" "j \<in> {0..<nat m}" "(1300 :: u64) + of_nat i = 1300 + of_nat j"
    then have "unat (of_nat i :: u64) = unat (of_nat j :: u64)" by simp
    moreover have "i < 2 ^ 64" "j < 2 ^ 64" using ij m by auto
    ultimately show "i = j" by (simp add: unat_of_nat)
  qed
  then show ?thesis by (simp add: videoProbe_def distinct_map)
qed

lemma probe_video_answer:
  assumes "let_through (vs_fi db) w" and "1 \<le> m" and "m \<le> 2 ^ 64" and "1 \<le> vs_MaxBatchSize (vs_options db)"
  shows "probeVerdict videoBatchPrefix m (served (GetVideo db (videoProbe m) w)) =
    Some (nat (min m (vs_MaxBatchSize (vs_options db)) - 1))"
proof -
  let ?L = "vs_MaxBatchSize (vs_options db)"
  from assms(1) obtain w' where w': "MaybeInject (vs_fi db) w = Inr (Some False, w')" by (auto simp: let_through_def)
  have ne: "videoProbe m \<noteq> []" "length (videoProbe m) = nat m" using assms(2) by (auto simp: videoProbe_def)
  have g: "GetVideo db (videoProbe m) w = Inr (if m > ?L then fail_with InvalidArgument (videoBatchMsg ?L)
      else lookupAll videoNotFound (videos db) (videoProbe m), w')"
    using w' assms(2) ne videoProbe_distinct [OF assms(3)]
    by (simp add: GetVideo_def gbind_def gret_def dedup_id)
  show ?thesis
  proof (cases "m > ?L")
    case True
    then show ?thesis
      unfolding g using assms(4) by (simp add: served_def fail_with_def probeVerdict_def Sscanf_video max_def min_def)
  next
    case False
    from probe_lookup [of videoBatchPrefix m videoNotFound "videos db" "videoProbe m" w', OF refl] False assms(2)
    show ?thesis unfolding g by (simp add: max_def min_def)
  qed
qed

lemma one_plus_nat: "1 \<le> n \<Longrightarrow> (1 :: u64) + of_nat (nat (n - 1)) = of_int n"
  by (simp add: of_nat_nat)



section \<open>The trending cache\<close>

lemma installTrending_cases:
  assumes "installTrending s env mx r = Inr (s', e)"
  shows "cacheExpirationTime s \<le> cacheExpirationTime s'"
    and "e \<noteq> None \<Longrightarrow> TrendingCache s \<noteq> None \<Longrightarrow> TrendingCache s' = TrendingCache s"
    and "cacheExpirationTime s < cacheExpirationTime s' \<Longrightarrow>
      cacheExpirationTime s' = sint (ExpirationTimeS r) \<and> e = None"
  using assms
  by (auto simp: installTrending_def Let_def addVideoErrors_def addTotalErrors_def split: if_splits list.splits)

text \<open>With a video service that answers, the new cache holds exactly the trending videos.\<close>

lemma cacheWorker_up:
  assumes "backends_up us vs env" and "set ids \<subseteq> dom vs" and "0 < mx"
  shows "cacheWorker opts env ids mx i = wOk (map (\<lambda>i. the (vs i)) (batchSlice ids mx i)) 0"
proof (cases "batchHasWork ids mx i")
  case True
  have "set (batchSlice ids mx i) \<subseteq> dom vs" using assms(2) batchSlice_set by blast
  with True assms(1) show ?thesis by (simp add: cacheWorker_def Let_def backends_up_def)
qed (simp add: cacheWorker_def batchSlice_idle assms(3))

text \<open>
  Refreshing the cache: if the trending list arrives and the video service knows and returns the
  videos in it, then \<open>UpdateCache\<close> succeeds, and with a newer expiration time the cache
  becomes exactly the trending videos, each once, whatever the order of the batches.
\<close>

theorem UpdateCache_installs:
  assumes up: "backends_up us vs env" and t: "e_trending env 1 = Inr r" "Videos r \<noteq> []" "set (Videos r) \<subseteq> dom vs"
    and mx: "0 < mx" and run: "mset (e_videoAppends env) = mset [0..<Suc (batchLoop (Videos r) mx)]"
    and newer: "cacheExpirationTime s < sint (ExpirationTimeS r)"
  shows "\<exists>s' c. UpdateCache s env mx = Inr (s', None) \<and> TrendingCache s' = Some c \<and>
    mset c = image_mset (\<lambda>v. the (vs v)) (mset (Videos r)) \<and> cacheExpirationTime s' = sint (ExpirationTimeS r)"
proof -
  let ?g = "\<lambda>i. map (\<lambda>v. the (vs v)) (batchSlice (Videos r) mx i)"
  let ?w = "cacheWorker (options s) env (Videos r) mx"
  have w: "?w i = wOk (?g i) 0" for i by (rule cacheWorker_up [OF up t(3) mx])
  have es: "List.map_filter id (errSends ?w xs) = []" for xs
    by (induction xs) (simp_all add: errSends_def map_filter_simps w wOk_def)
  have ap: "appended ?w xs = concat (map ?g xs)" for xs by (simp add: appended_def w wOk_def)
  have m: "mset (concat (map ?g (e_videoAppends env))) = image_mset (\<lambda>v. the (vs v)) (mset (Videos r))"
    using run by (rule batches_mset)
  then have "concat (map ?g (e_videoAppends env)) \<noteq> []" using t(2) by (metis image_mset_is_empty_iff mset_zero_iff)
  then have "nonnil (concat (map ?g (e_videoAppends env))) = Some (concat (map ?g (e_videoAppends env)))"
    by (simp only: nonnil_def if_False)
  with m mx newer t(1) show ?thesis
    by (simp add: UpdateCache_def installTrending_def Let_def es ap addVideoErrors_def addTotalErrors_def)
qed

theorem UpdateCache_installs_witness:
  "\<exists>s'. UpdateCache ex_server (ex_env\<lparr>e_videoAppends := [0, 1]\<rparr>) 1 = Inr (s', None) \<and>
     TrendingCache s' = Some [ex_video 1001] \<and> cacheExpirationTime s' = 60"
proof -
  let ?e = "ex_env\<lparr>e_videoAppends := [0, 1]\<rparr>" and ?r = "\<lparr>Videos = [1001], ExpirationTimeS = 60\<rparr> :: GetTrendingVideosResponse"
  have up: "backends_up ex_users ex_videos ?e" by (simp add: backends_up_def ex_env_def)
  have t: "e_trending ?e 1 = Inr ?r" by (simp add: ex_env_def)
  have "\<exists>s' c. UpdateCache ex_server ?e 1 = Inr (s', None) \<and> TrendingCache s' = Some c \<and>
      mset c = {#ex_video 1001#} \<and> cacheExpirationTime s' = 60"
    using UpdateCache_installs [OF up t, of 1 ex_server]
    by (simp add: ex_videos_def batchLoop_def ex_server_def MakeVideoRecServiceServerWithMocks_def newServer_def upt_rec)
  then show ?thesis by auto
qed

text \<open>
  A refresh never goes backwards: whatever the video service answers, the expiration time does not
  decrease, and a failed refresh keeps the cache that was there.
\<close>

theorem UpdateCache_keeps:
  assumes "UpdateCache s env mx = Inr (s', e)"
  shows "cacheExpirationTime s \<le> cacheExpirationTime s' \<and>
    (e \<noteq> None \<and> TrendingCache s \<noteq> None \<longrightarrow> TrendingCache s' = TrendingCache s)"
proof -
  have k: "cacheExpirationTime (addVideoErrors n t) = cacheExpirationTime t" "TrendingCache (addVideoErrors n t) = TrendingCache t"
    "cacheExpirationTime (addTotalErrors n t) = cacheExpirationTime t" "TrendingCache (addTotalErrors n t) = TrendingCache t" for n t
    by (simp_all add: addVideoErrors_def addTotalErrors_def)
  show ?thesis
    using assms installTrending_cases [of s env mx _ s' e] installTrending_cases [of "addVideoErrors 1 s" env mx _ s' e]
    by (auto simp: UpdateCache_def Let_def k split: sum.splits if_splits)
qed

theorem UpdateCache_keeps_witness:
  "\<exists>s' e. UpdateCache (ex_server\<lparr>TrendingCache := Some [ex_video 1000]\<rparr>)
        (ex_env\<lparr>e_trending := (\<lambda>_. Inl (mk_error Unavailable ''down''))\<rparr>) 1 = Inr (s', e) \<and>
     TrendingCache s' = Some [ex_video 1000]"
proof -
  let ?s = "ex_server\<lparr>TrendingCache := Some [ex_video 1000]\<rparr>"
    and ?e = "ex_env\<lparr>e_trending := (\<lambda>_. Inl (mk_error Unavailable ''down''))\<rparr>"
  have "\<exists>s' e. UpdateCache ?s ?e 1 = Inr (s', Some e)" by (simp add: UpdateCache_def Let_def)
  then obtain s' e where u: "UpdateCache ?s ?e 1 = Inr (s', Some e)" by blast
  from UpdateCache_keeps [OF u] u show ?thesis by auto
qed

end
