(* ===== verification/CacheLock.thy ===== *)
theory CacheLock
  imports VideoRecProps
begin

text \<open>
  The trending cache between the goroutine that refreshes it and the requests that read it
  (\<^verbatim>\<open>lab1/video_rec_service/server_lib/server_lib.go\<close>, \<open>ContinuallyRefreshCache\<close> and \<open>GetCachedVideos\<close>; lab 2 has the same code).  Both
  use \<open>trendingLock\<close>, a \<open>sync.RWMutex\<close>; the refresher holds it while it calls the video service, and writes the cache and its expiration
  time one after the other.  Counters are changed by other goroutines at any time.
\<close>

section \<open>The phases of a refresh\<close>

text \<open>What the calls of \<open>UpdateCache\<close> have brought, before anything is written.\<close>

datatype fetched = NoTrending status | Fetched "VideoInfo list" "status option" int

definition fetchBatches :: "VideoRecServiceServer \<Rightarrow> 'c env \<Rightarrow> nat \<Rightarrow> GetTrendingVideosResponse
    \<Rightarrow> (VideoRecServiceServer \<times> fetched) go" where
  "fetchBatches server env maxBatchSize r =
     (if maxBatchSize = 0 then Inl DivideByZero
      else
        let ids = Videos r;
            w = cacheWorker (options server) env ids maxBatchSize;
            n = batchLoop ids maxBatchSize;
            errs = List.map_filter id (errSends w (e_videoSends env))
        in Inr (addVideoErrors (total w_svc w n) (addTotalErrors (total w_tot w n) server),
                Fetched (appended w (e_videoAppends env)) (case errs of [] \<Rightarrow> None | e # _ \<Rightarrow> Some e) (sint (ExpirationTimeS r))))"

definition fetchTrending :: "VideoRecServiceServer \<Rightarrow> 'c env \<Rightarrow> nat \<Rightarrow> (VideoRecServiceServer \<times> fetched) go" where
  "fetchTrending server env maxBatchSize =
     (let unavailable = NoTrending (mk_error Unavailable ''fail to fetch video ids for trending videos'') in
      case e_trending env 1 of
        Inr r \<Rightarrow> fetchBatches server env maxBatchSize r
      | Inl e \<Rightarrow>
          let s1 = addVideoErrors 1 server in
          if \<not> DisableRetry (options server) then
            (case e_trending env 2 of
               Inr r \<Rightarrow> fetchBatches s1 env maxBatchSize r
             | Inl e2 \<Rightarrow> Inr (addVideoErrors 1 (addTotalErrors 1 s1), unavailable))
          else Inr (addTotalErrors 1 s1, unavailable))"

text \<open>The assignment to \<open>TrendingCache\<close>, and the expiration time that is to be assigned after it.\<close>

fun writeCache :: "fetched \<Rightarrow> VideoRecServiceServer \<Rightarrow> VideoRecServiceServer \<times> int option" where
  "writeCache (NoTrending e) s = (s, None)"
| "writeCache (Fetched videosInfo (Some e) expirationTime) s =
     (if TrendingCache s = None \<and> videosInfo \<noteq> [] then s\<lparr>TrendingCache := Some videosInfo\<rparr> else s, None)"
| "writeCache (Fetched videosInfo None expirationTime) s =
     (if expirationTime > cacheExpirationTime s
      then (s\<lparr>TrendingCache := nonnil videosInfo\<rparr>, Some expirationTime) else (s, None))"

definition writeExpiry :: "int option \<Rightarrow> VideoRecServiceServer \<Rightarrow> VideoRecServiceServer" where
  "writeExpiry t s = (case t of None \<Rightarrow> s | Some e \<Rightarrow> s\<lparr>cacheExpirationTime := e\<rparr>)"

fun fetchError :: "fetched \<Rightarrow> status option" where
  "fetchError (NoTrending e) = Some e"
| "fetchError (Fetched videosInfo e expirationTime) = e"

text \<open>The phases make up \<open>UpdateCache\<close>.\<close>

definition finishRefresh :: "VideoRecServiceServer \<times> fetched \<Rightarrow> VideoRecServiceServer \<times> status option" where
  "finishRefresh r = (case r of (s, f) \<Rightarrow> case writeCache f s of (s', t) \<Rightarrow> (writeExpiry t s', fetchError f))"

lemma installTrending_phases:
  "installTrending s env mx r = go_bind (fetchBatches s env mx r) (Inr \<circ> finishRefresh)"
  by (auto simp: installTrending_def fetchBatches_def finishRefresh_def writeExpiry_def Let_def split: list.splits)

lemma UpdateCache_phases: "UpdateCache s env mx = go_bind (fetchTrending s env mx) (Inr \<circ> finishRefresh)"
  by (simp add: UpdateCache_def fetchTrending_def installTrending_phases finishRefresh_def writeExpiry_def Let_def
      split: sum.split)

text \<open>The calls only count errors, and what they bring depends on the options alone.\<close>

lemma fetchTrending_core: "fetchTrending s env mx = Inr (s', f) \<Longrightarrow> core s' = core s"
  by (auto simp: fetchTrending_def fetchBatches_def Let_def split: sum.splits if_splits)

lemma fetchTrending_options:
  "options s = options t \<Longrightarrow> map_sum id snd (fetchTrending s env mx) = map_sum id snd (fetchTrending t env mx)"
  by (simp add: fetchTrending_def fetchBatches_def Let_def addVideoErrors_def addTotalErrors_def split: sum.split)

lemma fetchTrending_ok: "0 < mx \<Longrightarrow> \<exists>r. fetchTrending s env mx = Inr r"
  by (simp add: fetchTrending_def fetchBatches_def Let_def split: sum.split)

section \<open>The lock\<close>

text \<open>\<open>sync.RWMutex\<close>: \<open>Lock\<close> announces itself and then waits for the readers to leave; a reader that comes after
  the announcement waits until the writer has left.\<close>

record RWMutex =
  rw_readers :: nat
  rw_pending :: bool
  rw_writer :: bool

definition RW_RLock :: "RWMutex \<Rightarrow> RWMutex option" where
  "RW_RLock m = (if rw_pending m \<or> rw_writer m then None else Some (m\<lparr>rw_readers := rw_readers m + 1\<rparr>))"

definition RW_RUnlock :: "RWMutex \<Rightarrow> RWMutex option" where
  "RW_RUnlock m = (if rw_readers m = 0 then None else Some (m\<lparr>rw_readers := rw_readers m - 1\<rparr>))"

definition RW_LockCall :: "RWMutex \<Rightarrow> RWMutex option" where
  "RW_LockCall m = (if rw_pending m \<or> rw_writer m then None else Some (m\<lparr>rw_pending := True\<rparr>))"

definition RW_LockAcquire :: "RWMutex \<Rightarrow> RWMutex option" where
  "RW_LockAcquire m = (if rw_pending m \<and> rw_readers m = 0 then Some (m\<lparr>rw_pending := False, rw_writer := True\<rparr>) else None)"

definition RW_Unlock :: "RWMutex \<Rightarrow> RWMutex option" where
  "RW_Unlock m = (if rw_writer m then Some (m\<lparr>rw_writer := False\<rparr>) else None)"

lemmas RW_defs = RW_RLock_def RW_RUnlock_def RW_LockCall_def RW_LockAcquire_def RW_Unlock_def

section \<open>The machine\<close>

text \<open>Where the refresher is; it reads the batch size and the expiration time, which only it writes, before it takes the lock.\<close>

datatype 'c refresher =
    RfTop
  | RfLock bool nat
  | RfWaits bool nat
  | RfHolds bool nat
  | RfFetched "'c env" nat fetched
  | RfExpiry "'c env" nat "int option"
  | RfUnlock "('c env \<times> nat) option"

text \<open>A call of \<open>GetCachedVideos\<close>.  The first number is how many refreshes had been completed when the call was made, the
  second how many when it read the cache; no step depends on them.\<close>

datatype reader =
    RdIdle
  | RdWant int nat
  | RdLocked int nat
  | RdDone int nat nat "VideoInfo list option"

record 'c cacheSys =
  shared :: VideoRecServiceServer
  trendingLock :: RWMutex
  refresher :: "'c refresher"
  readers :: "tid \<Rightarrow> reader"
  history :: "('c env \<times> nat) list"
  panicked :: "go_panic option"

definition cacheSys_init :: "VideoRecServiceOptions \<Rightarrow> bool \<Rightarrow> 'c cacheSys" where
  "cacheSys_init opts mock =
     \<lparr>shared = newServer opts mock, trendingLock = \<lparr>rw_readers = 0, rw_pending = False, rw_writer = False\<rparr>,
      refresher = RfTop, readers = (\<lambda>_. RdIdle), history = [], panicked = None\<rparr>"

datatype 'c cache_act =
    Refresh int
  | LockCall
  | LockAcquire
  | NotDue
  | Fetch "'c env"
  | WriteCache
  | WriteExpiry
  | Unlock
  | Elsewhere VideoRecServiceServer
  | ReadCall tid int
  | RLock tid
  | Read tid
  | RUnlock tid

definition refreshDue :: "int \<Rightarrow> VideoRecServiceServer \<Rightarrow> bool" where
  "refreshDue now s \<longleftrightarrow> (cacheExpirationTime s - now) * 1000000 < 30 * 1000000"

definition lockWith :: "'c cacheSys \<Rightarrow> RWMutex option \<Rightarrow> 'c cacheSys option" where
  "lockWith s m = map_option (\<lambda>l. s\<lparr>trendingLock := l\<rparr>) m"

definition refresher_act :: "'c cache_act \<Rightarrow> 'c cacheSys \<Rightarrow> 'c cacheSys option" where
  "refresher_act a s =
     (case (a, refresher s) of
        (Refresh now, RfTop) \<Rightarrow>
          if DisableFallback (options (shared s)) then None
          else Some (s\<lparr>refresher := RfLock (refreshDue now (shared s)) (unat (VideoServiceMaxBatchSize (shared s)))\<rparr>)
      | (LockCall, RfLock due mx) \<Rightarrow> lockWith (s\<lparr>refresher := RfWaits due mx\<rparr>) (RW_LockCall (trendingLock s))
      | (LockAcquire, RfWaits due mx) \<Rightarrow> lockWith (s\<lparr>refresher := RfHolds due mx\<rparr>) (RW_LockAcquire (trendingLock s))
      | (NotDue, RfHolds False mx) \<Rightarrow> Some (s\<lparr>refresher := RfUnlock None\<rparr>)
      | (Fetch env, RfHolds True mx) \<Rightarrow>
          (case fetchTrending (shared s) env mx of
             Inl e \<Rightarrow> Some (s\<lparr>panicked := Some e\<rparr>)
           | Inr (sh, f) \<Rightarrow> Some (s\<lparr>shared := sh, refresher := RfFetched env mx f\<rparr>))
      | (WriteCache, RfFetched env mx f) \<Rightarrow>
          (case writeCache f (shared s) of (sh, t) \<Rightarrow> Some (s\<lparr>shared := sh, refresher := RfExpiry env mx t\<rparr>))
      | (WriteExpiry, RfExpiry env mx t) \<Rightarrow>
          Some (s\<lparr>shared := writeExpiry t (shared s), refresher := RfUnlock (Some (env, mx))\<rparr>)
      | (Unlock, RfUnlock h) \<Rightarrow>
          lockWith (s\<lparr>refresher := RfTop, history := history s @ (case h of None \<Rightarrow> [] | Some x \<Rightarrow> [x])\<rparr>)
            (RW_Unlock (trendingLock s))
      | _ \<Rightarrow> None)"

definition reader_act :: "'c cache_act \<Rightarrow> 'c cacheSys \<Rightarrow> 'c cacheSys option" where
  "reader_act a s =
     (let put = (\<lambda>i r. s\<lparr>readers := (readers s)(i := r)\<rparr>) in
      case a of
        ReadCall i limit \<Rightarrow>
          (case readers s i of RdIdle \<Rightarrow> Some (put i (RdWant limit (length (history s)))) | _ \<Rightarrow> None)
      | RLock i \<Rightarrow>
          (case readers s i of RdWant limit b \<Rightarrow> lockWith (put i (RdLocked limit b)) (RW_RLock (trendingLock s)) | _ \<Rightarrow> None)
      | Read i \<Rightarrow>
          (case readers s i of
             RdLocked limit b \<Rightarrow> Some (put i (RdDone limit b (length (history s)) (GetCachedVideos limit (shared s))))
           | _ \<Rightarrow> None)
      | RUnlock i \<Rightarrow>
          (case readers s i of RdDone limit b k r \<Rightarrow> lockWith (put i RdIdle) (RW_RUnlock (trendingLock s)) | _ \<Rightarrow> None)
      | _ \<Rightarrow> None)"

text \<open>Other goroutines count requests and errors and find out the batch size, which is never zero; they do not write the
  options, the cache or its expiration time.\<close>

definition cacheSys_act :: "'c cache_act \<Rightarrow> 'c cacheSys \<Rightarrow> 'c cacheSys option" where
  "cacheSys_act a s =
     (if panicked s \<noteq> None then None
      else
        case a of
          Elsewhere s' \<Rightarrow>
            if options s' = options (shared s) \<and> TrendingCache s' = TrendingCache (shared s) \<and>
               cacheExpirationTime s' = cacheExpirationTime (shared s) \<and> VideoServiceMaxBatchSize s' \<noteq> 0
            then Some (s\<lparr>shared := s'\<rparr>) else None
        | ReadCall i limit \<Rightarrow> reader_act a s
        | RLock i \<Rightarrow> reader_act a s
        | Read i \<Rightarrow> reader_act a s
        | RUnlock i \<Rightarrow> reader_act a s
        | _ \<Rightarrow> refresher_act a s)"

section \<open>The sequence of versions\<close>

text \<open>The cache and its expiration time after a refresh on its own, and after the refreshes of the history one after the other.\<close>

type_synonym version = "VideoInfo list option \<times> int"

definition versionOf :: "VideoRecServiceServer \<Rightarrow> version" where
  "versionOf s = (TrendingCache s, cacheExpirationTime s)"

definition withVersion :: "VideoRecServiceOptions \<Rightarrow> version \<Rightarrow> VideoRecServiceServer" where
  "withVersion opts v = (newServer opts True)\<lparr>TrendingCache := fst v, cacheExpirationTime := snd v\<rparr>"

definition refreshed :: "VideoRecServiceOptions \<Rightarrow> version \<Rightarrow> 'c env \<times> nat \<Rightarrow> version" where
  "refreshed opts v h = (case UpdateCache (withVersion opts v) (fst h) (snd h) of
     Inr (s, e) \<Rightarrow> versionOf s | Inl p \<Rightarrow> v)"

definition replay :: "VideoRecServiceOptions \<Rightarrow> ('c env \<times> nat) list \<Rightarrow> version" where
  "replay opts hs = foldl (refreshed opts) (None, 0) hs"

lemma replay_snoc [simp]: "replay opts [] = (None, 0)" "replay opts (hs @ [h]) = refreshed opts (replay opts hs) h"
  by (simp_all add: replay_def)

lemma core_version: "core s = core t \<Longrightarrow> versionOf s = versionOf t"
  by (simp add: versionOf_def core_fields(9,10) [of s t])

lemma versionOf_with [simp]: "versionOf (withVersion opts v) = v" "options (withVersion opts v) = opts"
  by (simp_all add: versionOf_def withVersion_def newServer_def)

text \<open>What is written depends only on the version that is there.\<close>

lemma writeCache_version:
  assumes "versionOf s = versionOf t"
  shows "versionOf (fst (writeCache f s)) = versionOf (fst (writeCache f t)) \<and> snd (writeCache f s) = snd (writeCache f t)"
  using assms by (cases "(f, s)" rule: writeCache.cases) (auto simp: versionOf_def)

lemma writeExpiry_version: "versionOf s = versionOf t \<Longrightarrow> versionOf (writeExpiry x s) = versionOf (writeExpiry x t)"
  by (cases x) (auto simp: writeExpiry_def versionOf_def)

definition brings :: "VideoRecServiceOptions \<Rightarrow> 'c env \<Rightarrow> nat \<Rightarrow> fetched \<Rightarrow> bool" where
  "brings opts env mx f \<longleftrightarrow> (\<forall>s. options s = opts \<longrightarrow> (\<exists>s'. fetchTrending s env mx = Inr (s', f) \<and> core s' = core s))"

lemma fetchTrending_brings:
  assumes "fetchTrending s env mx = Inr (s', f)"
  shows "brings (options s) env mx f"
  unfolding brings_def
proof (intro allI impI)
  fix t :: VideoRecServiceServer assume "options t = options s"
  from fetchTrending_options [OF this, of env mx] assms
  have "map_sum id snd (fetchTrending t env mx) = (Inr f :: go_panic + fetched)" by simp
  then obtain t' where "fetchTrending t env mx = Inr (t', f)" by (cases "fetchTrending t env mx") auto
  with fetchTrending_core [OF this] show "\<exists>t'. fetchTrending t env mx = Inr (t', f) \<and> core t' = core t" by simp
qed

lemma refreshed_phases:
  assumes "brings opts env mx f" and "versionOf s = v"
  shows "refreshed opts v (env, mx) = versionOf (writeExpiry (snd (writeCache f s)) (fst (writeCache f s)))"
proof -
  from assms(1) obtain s' where b: "fetchTrending (withVersion opts v) env mx = Inr (s', f)" "core s' = core (withVersion opts v)"
    unfolding brings_def using versionOf_with(2) by blast
  then have v: "versionOf s' = versionOf s" using core_version [OF b(2)] assms(2) by simp
  have "refreshed opts v (env, mx) = versionOf (writeExpiry (snd (writeCache f s')) (fst (writeCache f s')))"
    using b(1) by (simp add: refreshed_def UpdateCache_phases finishRefresh_def split: prod.split)
  with writeCache_version [OF v, of f] show ?thesis using writeExpiry_version by metis
qed

lemma refreshed_later: "snd v \<le> snd (refreshed opts v h)"
  by (cases h)
    (auto simp: refreshed_def UpdateCache_phases finishRefresh_def writeExpiry_def versionOf_def withVersion_def go_bind_def
      dest!: fetchTrending_core [THEN core_version] elim!: writeCache.elims split: sum.split prod.split option.split if_splits)

section \<open>Invariant\<close>

fun inside :: "reader \<Rightarrow> bool" where
  "inside (RdLocked limit b) = True"
| "inside (RdDone limit b k r) = True"
| "inside r = False"

fun holds :: "'c refresher \<Rightarrow> bool" where
  "holds RfTop = False"
| "holds (RfLock due mx) = False"
| "holds (RfWaits due mx) = False"
| "holds r = True"

fun waiting :: "'c refresher \<Rightarrow> bool" where
  "waiting (RfWaits due mx) = True"
| "waiting r = False"

text \<open>Between the version the history leads to and what the refresher is about to have written.\<close>

fun refresher_ok :: "VideoRecServiceOptions \<Rightarrow> version \<Rightarrow> VideoRecServiceServer \<Rightarrow> 'c refresher \<Rightarrow> bool" where
  "refresher_ok opts v s RfTop \<longleftrightarrow> versionOf s = v"
| "refresher_ok opts v s (RfLock due mx) \<longleftrightarrow> versionOf s = v \<and> 0 < mx"
| "refresher_ok opts v s (RfWaits due mx) \<longleftrightarrow> versionOf s = v \<and> 0 < mx"
| "refresher_ok opts v s (RfHolds due mx) \<longleftrightarrow> versionOf s = v \<and> 0 < mx"
| "refresher_ok opts v s (RfFetched env mx f) \<longleftrightarrow> versionOf s = v \<and> brings opts env mx f"
| "refresher_ok opts v s (RfExpiry env mx t) \<longleftrightarrow> versionOf (writeExpiry t s) = refreshed opts v (env, mx)"
| "refresher_ok opts v s (RfUnlock None) \<longleftrightarrow> versionOf s = v"
| "refresher_ok opts v s (RfUnlock (Some h)) \<longleftrightarrow> versionOf s = refreshed opts v h"

fun reader_ok :: "VideoRecServiceOptions \<Rightarrow> ('c env \<times> nat) list \<Rightarrow> reader \<Rightarrow> bool" where
  "reader_ok opts hs RdIdle \<longleftrightarrow> True"
| "reader_ok opts hs (RdWant limit b) \<longleftrightarrow> b \<le> length hs"
| "reader_ok opts hs (RdLocked limit b) \<longleftrightarrow> b \<le> length hs"
| "reader_ok opts hs (RdDone limit b k r) \<longleftrightarrow> b \<le> k \<and> k \<le> length hs \<and>
     r = GetCachedVideos limit (withVersion opts (replay opts (take k hs)))"

definition cache_inv :: "VideoRecServiceOptions \<Rightarrow> 'c cacheSys \<Rightarrow> bool" where
  "cache_inv opts s \<longleftrightarrow> panicked s = None \<and> options (shared s) = opts \<and> VideoServiceMaxBatchSize (shared s) \<noteq> 0 \<and>
     refresher_ok opts (replay opts (history s)) (shared s) (refresher s) \<and>
     rw_pending (trendingLock s) = waiting (refresher s) \<and> rw_writer (trendingLock s) = holds (refresher s) \<and>
     finite {i. inside (readers s i)} \<and> rw_readers (trendingLock s) = card {i. inside (readers s i)} \<and>
     (holds (refresher s) \<longrightarrow> rw_readers (trendingLock s) = 0) \<and> (\<forall>i. reader_ok opts (history s) (readers s i))"

lemma cache_invD:
  assumes "cache_inv opts s"
  shows "panicked s = None" "options (shared s) = opts" "VideoServiceMaxBatchSize (shared s) \<noteq> 0"
    "refresher_ok opts (replay opts (history s)) (shared s) (refresher s)"
    "rw_pending (trendingLock s) = waiting (refresher s)" "rw_writer (trendingLock s) = holds (refresher s)"
    "finite {i. inside (readers s i)}" "rw_readers (trendingLock s) = card {i. inside (readers s i)}"
    "holds (refresher s) \<Longrightarrow> card {i. inside (readers s i)} = 0" "reader_ok opts (history s) (readers s i)"
  using assms by (auto simp: cache_inv_def)

lemma cache_inv_init: "cache_inv opts (cacheSys_init opts mock)"
  by (simp add: cache_inv_def cacheSys_init_def newServer_def versionOf_def)

lemma core_batch: "core s = core t \<Longrightarrow> VideoServiceMaxBatchSize s = VideoServiceMaxBatchSize t \<and> options s = options t"
  by (simp add: core_fields(1,3) [of s t])

lemma writeCache_keeps:
  "VideoServiceMaxBatchSize (fst (writeCache f s)) = VideoServiceMaxBatchSize s \<and> options (fst (writeCache f s)) = options s"
  by (cases "(f, s)" rule: writeCache.cases) simp_all

lemma writeExpiry_keeps:
  "VideoServiceMaxBatchSize (writeExpiry t s) = VideoServiceMaxBatchSize s" "options (writeExpiry t s) = options s"
  by (simp_all add: writeExpiry_def split: option.split)

lemma reader_ok_grows: "reader_ok opts hs r \<Longrightarrow> reader_ok opts (hs @ h) r"
  by (cases r) auto

text \<open>The steps of the refresher.\<close>

lemma refresher_inv:
  assumes "refresher_act a s = Some t" and inv: "cache_inv opts s"
  shows "cache_inv opts t"
proof (cases "refresher s")
  case (RfHolds due mx)
  then have h: "versionOf (shared s) = replay opts (history s)" "0 < mx" using cache_invD(4) [OF inv] by simp_all
  show ?thesis
  proof (cases a)
    case (Fetch env)
    from fetchTrending_ok [OF h(2), of "shared s" env] obtain sh f where f: "fetchTrending (shared s) env mx = Inr (sh, f)" by auto
    note c = fetchTrending_core [OF f]
    from Fetch RfHolds f assms(1) have "t = s\<lparr>shared := sh, refresher := RfFetched env mx f\<rparr>"
      by (auto simp: refresher_act_def split: bool.splits)
    then show ?thesis
      using inv RfHolds h core_version [OF c] core_batch [OF c] fetchTrending_brings [OF f] by (auto simp: cache_inv_def)
  qed (use assms(1) RfHolds inv h in \<open>auto simp: refresher_act_def cache_inv_def split: bool.splits\<close>)
next
  case (RfFetched env mx f)
  then have b: "versionOf (shared s) = replay opts (history s)" "brings opts env mx f" using cache_invD(4) [OF inv] by simp_all
  obtain sh x where w: "writeCache f (shared s) = (sh, x)" by (cases "writeCache f (shared s)")
  with assms(1) RfFetched have "t = s\<lparr>shared := sh, refresher := RfExpiry env mx x\<rparr>"
    by (auto simp: refresher_act_def split: cache_act.splits)
  with inv RfFetched w refreshed_phases [OF b(2,1)] writeCache_keeps [of f "shared s"] show ?thesis
    by (auto simp: cache_inv_def)
next
  case (RfUnlock h)
  with assms show ?thesis
    by (cases h) (auto simp: refresher_act_def lockWith_def RW_defs cache_inv_def reader_ok_grows split: cache_act.splits)
qed (use assms in \<open>auto simp: refresher_act_def lockWith_def RW_defs cache_inv_def writeExpiry_keeps unat_gt_0
      split: cache_act.splits if_splits\<close>)

text \<open>The steps of the readers.\<close>

lemma inside_upd: "{j. inside ((rs(i := r)) j)} = (if inside r then insert i {j. inside (rs j)} else {j. inside (rs j)} - {i})"
  by auto

lemma inside_count:
  assumes "finite {j. inside (rs j)}"
  shows "finite {j. inside ((rs(i := r)) j)}"
    "card {j. inside ((rs(i := r)) j)} =
       (if inside r = inside (rs i) then card {j. inside (rs j)}
        else if inside r then Suc (card {j. inside (rs j)}) else card {j. inside (rs j)} - 1)"
  using assms unfolding inside_upd by (auto simp: insert_absorb card_Diff_singleton)

lemma reader_version:
  assumes "cache_inv opts s" and "inside (readers s i)"
  shows "versionOf (shared s) = replay opts (history s)" "\<not> holds (refresher s)" "0 < rw_readers (trendingLock s)"
proof -
  have "card {i. inside (readers s i)} \<noteq> 0" using assms cache_invD(7) [OF assms(1)] by auto
  then show h: "\<not> holds (refresher s)" "0 < rw_readers (trendingLock s)"
    using cache_invD(8,9) [OF assms(1)] by auto
  show "versionOf (shared s) = replay opts (history s)"
    using h(1) cache_invD(4) [OF assms(1)] by (cases "refresher s") auto
qed

lemma GetCachedVideos_version: "versionOf s = versionOf t \<Longrightarrow> GetCachedVideos l s = GetCachedVideos l t"
  by (simp add: GetCachedVideos_def versionOf_def)

lemma put_inv:
  assumes "cache_inv opts s" and "reader_ok opts (history s) r" and "inside r = inside (readers s i)"
  shows "cache_inv opts (s\<lparr>readers := (readers s)(i := r)\<rparr>)"
  using assms inside_count [OF cache_invD(7) [OF assms(1)], of i r] by (auto simp: cache_inv_def simp del: card_0_eq)

lemma reader_inv:
  assumes "reader_act a s = Some t" and inv: "cache_inv opts s"
  shows "cache_inv opts t"
proof -
  note fin = inside_count [OF cache_invD(7) [OF inv]] and ok = cache_invD(10) [OF inv]
  show ?thesis
  proof (cases a)
    case (Read i)
    with assms(1) obtain l b where r: "readers s i = RdLocked l b"
      "t = s\<lparr>readers := (readers s)(i := RdDone l b (length (history s)) (GetCachedVideos l (shared s)))\<rparr>"
      by (auto simp: reader_act_def split: reader.splits)
    have v: "versionOf (shared s) = replay opts (history s)" by (rule reader_version(1) [OF inv, of i]) (simp add: r(1))
    have "GetCachedVideos l (shared s) = GetCachedVideos l (withVersion opts (replay opts (history s)))"
      by (rule GetCachedVideos_version) (simp add: v)
    with ok [of i] r show ?thesis by (auto intro!: put_inv [OF inv])
  next
    case (ReadCall i l)
    with assms(1) show ?thesis by (auto simp: reader_act_def split: reader.splits intro!: put_inv [OF inv])
  next
    case (RLock i)
    with assms(1) obtain l b where r: "readers s i = RdWant l b" "\<not> rw_writer (trendingLock s)"
      "t = s\<lparr>readers := (readers s)(i := RdLocked l b),
             trendingLock := (trendingLock s)\<lparr>rw_readers := rw_readers (trendingLock s) + 1\<rparr>\<rparr>"
      by (auto simp: reader_act_def lockWith_def RW_defs split: reader.splits if_splits)
    moreover have "b \<le> length (history s)" using ok [of i] r(1) by simp
    ultimately show ?thesis using fin [of i "RdLocked l b"] inv by (simp add: cache_inv_def)
  next
    case (RUnlock i)
    with assms(1) obtain l b k r where r: "readers s i = RdDone l b k r"
      "t = s\<lparr>readers := (readers s)(i := RdIdle),
             trendingLock := (trendingLock s)\<lparr>rw_readers := rw_readers (trendingLock s) - 1\<rparr>\<rparr>"
      by (auto simp: reader_act_def lockWith_def RW_defs split: reader.splits if_splits)
    moreover have "\<not> holds (refresher s)" by (rule reader_version(2) [OF inv, of i]) (simp add: r(1))
    ultimately show ?thesis using fin [of i RdIdle] inv by (simp add: cache_inv_def)
  qed (use assms in \<open>auto simp: reader_act_def\<close>)
qed

lemma cache_inv_act:
  assumes "cacheSys_act a s = Some t" and "cache_inv opts s"
  shows "cache_inv opts t"
proof (cases a)
  case (Elsewhere s')
  with assms obtain "t = s\<lparr>shared := s'\<rparr>" "options s' = opts" "versionOf s' = versionOf (shared s)" "VideoServiceMaxBatchSize s' \<noteq> 0"
    by (auto simp: cacheSys_act_def cache_inv_def versionOf_def split: if_splits)
  moreover from this(3) have "refresher_ok opts v s' (refresher s) = refresher_ok opts v (shared s) (refresher s)" for v
    using writeExpiry_version [of s' "shared s"] by (cases "(opts, v, s', refresher s)" rule: refresher_ok.cases) auto
  ultimately show ?thesis using assms(2) by (auto simp: cache_inv_def)
qed (use assms in \<open>auto simp: cacheSys_act_def intro: refresher_inv reader_inv split: if_splits\<close>)

interpretation cachelock: machine_invariant "\<lambda>s. s = cacheSys_init opts mock" cacheSys_act "cache_inv opts"
  for opts mock
  by unfold_locales (auto intro: cache_inv_init cache_inv_act)

section \<open>A read always ends\<close>

text \<open>The steps with which the goroutines that are at work finish; no new call is made, no new refresh begun, and the
  video service answers as \<open>env\<close> says.\<close>

fun helps :: "'c env \<Rightarrow> 'c cache_act \<Rightarrow> bool" where
  "helps env (Fetch e) \<longleftrightarrow> e = env"
| "helps env (Refresh now) \<longleftrightarrow> False"
| "helps env (Elsewhere s') \<longleftrightarrow> False"
| "helps env (ReadCall i limit) \<longleftrightarrow> False"
| "helps env a \<longleftrightarrow> True"

definition finishes :: "'c env \<Rightarrow> 'c cacheSys \<Rightarrow> 'c cacheSys \<Rightarrow> bool" where
  "finishes env s t \<longleftrightarrow> (\<exists>a. helps env a \<and> cacheSys_act a s = Some t)"

lemma finish1_inv: "finishes env s t \<Longrightarrow> cache_inv opts s \<Longrightarrow> cache_inv opts t"
  by (auto simp: finishes_def intro: cache_inv_act)

lemma finishes_inv: "(finishes env)\<^sup>*\<^sup>* s t \<Longrightarrow> cache_inv opts s \<Longrightarrow> cache_inv opts t"
  by (induction rule: rtranclp_induct) (auto intro: finish1_inv)

lemma finishesI: "cacheSys_act a s = Some t \<Longrightarrow> helps env a \<Longrightarrow> finishes env s t"
  by (auto simp: finishes_def)

lemma unlock_step:
  assumes "cache_inv opts s" and "readers s i = RdDone l b k r"
  shows "\<exists>t. (finishes env)\<^sup>*\<^sup>* s t \<and> readers t = (readers s)(i := RdIdle) \<and> refresher t = refresher s"
proof -
  have "0 < rw_readers (trendingLock s)" using reader_version(3) [OF assms(1), of i] assms(2) by simp
  with assms have "\<exists>t. cacheSys_act (RUnlock i) s = Some t \<and> readers t = (readers s)(i := RdIdle) \<and> refresher t = refresher s"
    by (simp add: cacheSys_act_def reader_act_def lockWith_def RW_defs cache_invD(1) [OF assms(1)])
  then show ?thesis using finishesI [of "RUnlock i" s _ env] by (auto intro: r_into_rtranclp)
qed

lemma read_step:
  assumes "cache_inv opts s" and "readers s i = RdLocked l b"
  shows "\<exists>t. (finishes env)\<^sup>*\<^sup>* s t \<and> readers t = (readers s)(i := RdIdle) \<and> refresher t = refresher s"
proof -
  let ?u = "s\<lparr>readers := (readers s)(i := RdDone l b (length (history s)) (GetCachedVideos l (shared s)))\<rparr>"
  have "cacheSys_act (Read i) s = Some ?u" using assms(2) by (simp add: cacheSys_act_def reader_act_def cache_invD(1) [OF assms(1)])
  then have u: "finishes env s ?u" "cache_inv opts ?u" using assms(1) by (auto intro: finishesI cache_inv_act)
  from unlock_step [OF u(2), of i] obtain t where
    "(finishes env)\<^sup>*\<^sup>* ?u t" "readers t = (readers s)(i := RdIdle)" "refresher t = refresher s" by auto
  with u(1) show ?thesis by (meson converse_rtranclp_into_rtranclp)
qed

lemma reader_leaves:
  assumes "cache_inv opts s" and "inside (readers s i)"
  shows "\<exists>t. (finishes env)\<^sup>*\<^sup>* s t \<and> readers t = (readers s)(i := RdIdle) \<and> refresher t = refresher s"
  using assms unlock_step [OF assms(1), of i] read_step [OF assms(1), of i] by (cases "readers s i") auto

lemma readers_leave:
  assumes "cache_inv opts s"
  shows "\<exists>t. (finishes env)\<^sup>*\<^sup>* s t \<and> refresher t = refresher s \<and>
    readers t = (\<lambda>i. if inside (readers s i) then RdIdle else readers s i)"
  using assms
proof (induction "card {i. inside (readers s i)}" arbitrary: s)
  case 0
  then have "\<not> inside (readers s i)" for i using cache_invD(7) [OF 0(2)] by auto
  then show ?case by (intro exI [of _ s]) auto
next
  case (Suc n)
  then obtain i where i: "inside (readers s i)" by (metis (no_types, lifting) Collect_empty_eq card.empty nat.distinct(1))
  from reader_leaves [OF Suc.prems i] obtain u where
    u: "(finishes env)\<^sup>*\<^sup>* s u" "readers u = (readers s)(i := RdIdle)" "refresher u = refresher s" by blast
  have "card {i. inside (readers u i)} = n"
    using inside_count(2) [OF cache_invD(7) [OF Suc.prems], of i RdIdle] i Suc.hyps(2) unfolding u(2) by simp
  with Suc.hyps(1) [of u] finishes_inv [OF u(1) Suc.prems] obtain t where
    t: "(finishes env)\<^sup>*\<^sup>* u t" "refresher t = refresher u" "readers t = (\<lambda>i. if inside (readers u i) then RdIdle else readers u i)"
    by auto
  have "readers t = (\<lambda>j. if inside (readers s j) then RdIdle else readers s j)" unfolding t(3) u(2) using i by auto
  with t u show ?case by (metis rtranclp_trans)
qed

fun left_to_do :: "'c refresher \<Rightarrow> nat" where
  "left_to_do (RfUnlock h) = 1"
| "left_to_do (RfExpiry env mx t) = 2"
| "left_to_do (RfFetched env mx f) = 3"
| "left_to_do (RfHolds due mx) = 4"
| "left_to_do (RfWaits due mx) = 5"
| "left_to_do r = 0"

lemma refresher_step:
  assumes "cache_inv opts s" and "\<forall>i. \<not> inside (readers s i)" and "left_to_do (refresher s) = Suc n"
  shows "\<exists>t. finishes env s t \<and> left_to_do (refresher t) \<le> n \<and> readers t = readers s"
proof -
  note i = assms(1) and go = cacheSys_act_def refresher_act_def lockWith_def RW_defs
  have z: "rw_readers (trendingLock s) = 0" using assms(2) cache_invD(8) [OF i] by simp
  have "\<exists>a t. helps env a \<and> cacheSys_act a s = Some t \<and> left_to_do (refresher t) \<le> n \<and> readers t = readers s"
  proof (cases "refresher s")
    case (RfUnlock h)
    with assms cache_invD(6) [OF i] show ?thesis by (intro exI [of _ Unlock]) (simp add: go cache_invD(1) [OF i])
  next
    case (RfExpiry e mx x)
    with assms show ?thesis by (intro exI [of _ WriteExpiry]) (simp add: go cache_invD(1) [OF i])
  next
    case (RfFetched e mx f)
    with assms show ?thesis by (intro exI [of _ WriteCache]) (simp add: go cache_invD(1) [OF i] split: prod.split)
  next
    case (RfHolds due mx)
    then have "0 < mx" using cache_invD(4) [OF i] by simp
    then obtain sh f where "fetchTrending (shared s) env mx = Inr (sh, f)" using fetchTrending_ok [of mx "shared s" env] by auto
    with RfHolds assms show ?thesis
      by (intro exI [of _ "if due then Fetch env else NotDue"]) (simp add: go cache_invD(1) [OF i])
  next
    case (RfWaits due mx)
    with assms z cache_invD(5) [OF i] show ?thesis by (intro exI [of _ LockAcquire]) (simp add: go cache_invD(1) [OF i])
  qed (use assms in simp_all)
  then show ?thesis by (auto simp: finishes_def)
qed

lemma refresher_leaves:
  assumes "cache_inv opts s" and "\<forall>i. \<not> inside (readers s i)" and "left_to_do (refresher s) \<le> n"
  shows "\<exists>t. (finishes env)\<^sup>*\<^sup>* s t \<and> left_to_do (refresher t) = 0 \<and> readers t = readers s"
  using assms
proof (induction n arbitrary: s)
  case (Suc n)
  show ?case
  proof (cases "left_to_do (refresher s)")
    case (Suc m)
    from refresher_step [OF Suc.prems(1,2) this] obtain u where
      u: "finishes env s u" "left_to_do (refresher u) \<le> m" "readers u = readers s" by blast
    have "left_to_do (refresher u) \<le> n" using u(2) Suc Suc.prems(3) by simp
    with Suc.IH [of u] finish1_inv [OF u(1) Suc.prems(1)] Suc.prems(2) u obtain t where
      "(finishes env)\<^sup>*\<^sup>* u t" "left_to_do (refresher t) = 0" "readers t = readers s" by auto
    with u(1) show ?thesis by (meson converse_rtranclp_into_rtranclp)
  qed auto
qed auto

lemma read_ends:
  assumes "cache_inv opts s"
  shows "\<exists>t. (finishes env)\<^sup>*\<^sup>* s t \<and> readers t i = RdIdle"
proof -
  from readers_leave [OF assms] obtain u where
    u: "(finishes env)\<^sup>*\<^sup>* s u" "readers u = (\<lambda>i. if inside (readers s i) then RdIdle else readers s i)" by blast
  have "\<forall>i. \<not> inside (readers u i)" by (simp add: u(2))
  from refresher_leaves [OF finishes_inv [OF u(1) assms] this le_refl] obtain v where
    v: "(finishes env)\<^sup>*\<^sup>* u v" "left_to_do (refresher v) = 0" "readers v = readers u" by blast
  have iv: "cache_inv opts v" using v(1) u(1) assms finishes_inv by blast
  have sv: "(finishes env)\<^sup>*\<^sup>* s v" using u(1) v(1) by (rule rtranclp_trans)
  show ?thesis
  proof (cases "readers v i")
    case (RdWant l b)
    have "\<not> waiting (refresher v)" "\<not> holds (refresher v)" using v(2) by (cases "refresher v"; simp)+
    then have "\<exists>w. cacheSys_act (RLock i) v = Some w \<and> inside (readers w i)"
      using RdWant cache_invD(1,5,6) [OF iv] by (simp add: cacheSys_act_def reader_act_def lockWith_def RW_defs)
    then obtain w where w: "finishes env v w" "inside (readers w i)" using finishesI [of "RLock i" v _ env] by auto
    from reader_leaves [OF finish1_inv [OF w(1) iv] w(2), of env] obtain t where
      "(finishes env)\<^sup>*\<^sup>* w t" "readers t i = RdIdle" by auto
    with sv w(1) show ?thesis by (meson rtranclp.rtrancl_into_rtrancl rtranclp_trans)
  qed (use sv v u in \<open>auto split: if_splits\<close>)
qed

section \<open>The property\<close>

lemma replay_later: "j \<le> k \<Longrightarrow> snd (replay opts (take j hs)) \<le> snd (replay opts (take k hs))"
proof (induction k)
  case (Suc k)
  show ?case
  proof (cases "j = Suc k \<or> length hs \<le> k")
    case False
    then have "take (Suc k) hs = take k hs @ [hs ! k]" by (simp add: take_Suc_conv_app_nth)
    with False Suc refreshed_later [of "replay opts (take k hs)" opts "hs ! k"] show ?thesis by simp
  qed (use Suc in \<open>auto simp: le_Suc_eq\<close>)
qed simp

text \<open>
  C16. The trending cache behind its lock is linearizable.  Whatever the interleaving of the refresher, of any number of requests that read
  the cache and of the goroutines that change counters and batch sizes: nothing panics; nobody reads while the refresher holds the lock; what a read
  returns is what it would have read from the cache that the first \<open>k\<close> refreshes make one after the other, for a \<open>k\<close> between the
  number of refreshes at its call and now, so never from a half-written one; the expiration times of these caches do not decrease; and every read that has begun can end, without
  a new refresh and whatever the video service answers.
\<close>

theorem trending_cache_linearizable:
  assumes "reach (\<lambda>s. s = cacheSys_init opts mock) (act_step cacheSys_act) s"
  shows "panicked s = None \<and>
    (rw_writer (trendingLock s) \<longrightarrow> (\<forall>i. \<not> inside (readers s i))) \<and>
    (\<not> rw_writer (trendingLock s) \<longrightarrow> versionOf (shared s) = replay opts (history s)) \<and>
    (\<forall>i limit b k r. readers s i = RdDone limit b k r \<longrightarrow> b \<le> k \<and> k \<le> length (history s) \<and>
       r = GetCachedVideos limit (withVersion opts (replay opts (take k (history s))))) \<and>
    (\<forall>j k. j \<le> k \<longrightarrow> snd (replay opts (take j (history s))) \<le> snd (replay opts (take k (history s)))) \<and>
    (\<forall>i env. \<exists>t. (finishes env)\<^sup>*\<^sup>* s t \<and> readers t i = RdIdle)"
proof -
  have inv: "cache_inv opts s" using assms by (rule cachelock.reach_inv)
  have v: "versionOf (shared s) = replay opts (history s)" if "\<not> rw_writer (trendingLock s)"
    using that cache_invD(4,6) [OF inv] by (cases "refresher s") auto
  have r: "b \<le> k \<and> k \<le> length (history s) \<and> r = GetCachedVideos limit (withVersion opts (replay opts (take k (history s))))"
    if "readers s i = RdDone limit b k r" for i limit b k r
    using cache_invD(10) [OF inv, of i] that by simp
  have w: "\<not> inside (readers s i)" if "rw_writer (trendingLock s)" for i
    using reader_version(2) [OF inv, of i] cache_invD(6) [OF inv] that by auto
  show ?thesis using cache_invD(1) [OF inv] v r w read_ends [OF inv] replay_later by blast
qed

text \<open>A request asks for the cache while the refresher waits for the lock; it gets the new cache.\<close>

definition cache_run :: "byte list cache_act list" where
  "cache_run = [ReadCall 3 0, Refresh 0, LockCall, ReadCall 7 1, LockAcquire, Fetch (ex_env\<lparr>e_videoAppends := [0, 1]\<rparr>), WriteCache,
     WriteExpiry, Unlock, RLock 7, Read 7]"

theorem trending_cache_linearizable_witness:
  "\<exists>s. run cacheSys_act cache_run (cacheSys_init ex_opts True) = Some s \<and> readers s 7 = RdDone 1 0 1 (Some [ex_video 1001]) \<and>
     versionOf (shared s) = replay ex_opts (history s) \<and> snd (replay ex_opts (history s)) = 60"
proof -
  have "\<exists>s. run cacheSys_act cache_run (cacheSys_init ex_opts True) = Some s \<and> readers s 7 = RdDone 1 0 1 (Some [ex_video 1001]) \<and>
      \<not> rw_writer (trendingLock s) \<and> cacheExpirationTime (shared s) = 60"
    by (simp add: cache_run_def cacheSys_init_def cacheSys_act_def refresher_act_def reader_act_def lockWith_def RW_defs
        fetchTrending_def fetchBatches_def cacheWorker_def handler_defs nonnil_def writeExpiry_def refreshDue_def)
  then obtain s where s: "run cacheSys_act cache_run (cacheSys_init ex_opts True) = Some s"
    "readers s 7 = RdDone 1 0 1 (Some [ex_video 1001])" "\<not> rw_writer (trendingLock s)" "cacheExpirationTime (shared s) = 60" by blast
  from trending_cache_linearizable [OF run_from [OF s(1)]] s show ?thesis by (metis snd_conv versionOf_def)
qed

text \<open>So a stale answer of a request whose reads found versions of the cache between its start and its end is part of one of them.\<close>

lemma stale_answer_version:
  assumes "UserServiceMaxBatchSize srv \<noteq> 0" and "VideoServiceMaxBatchSize srv \<noteq> 0"
    and "\<forall>n us. res (e_getUser env (Subscriber n) [req_UserId req]) = Inr us \<longrightarrow> us \<noteq> []"
    and "GetTopVideos srv env req = Inr (srv', Inr r)" and "StaleResponse r" and "resp_Videos r \<noteq> []"
    and reads: "\<forall>site. \<exists>k. b \<le> k \<and> k \<le> length hs \<and> e_cache env site = fst (replay opts (take k hs))"
  shows "\<exists>k c. b \<le> k \<and> k \<le> length hs \<and> fst (replay opts (take k hs)) = Some c \<and> set (resp_Videos r) \<subseteq> set c"
  using GetTopVideos_stale [OF assms(1-5)] assms(6) reads by metis

end
