(* ===== verification/Console.thy ===== *)
theory Console
  imports Complex_Main VideoRec
begin

text \<open>
  What a program leaves behind when it runs: the lines of \<open>log\<close> and \<open>fmt\<close>, and how it ended.  \<open>log.Fatalf\<close>
  prints and exits at once.  On top of it the debug printing of \<^verbatim>\<open>lab3/raft/util.go\<close> and
  \<^verbatim>\<open>lab1/logging/logging.go\<close>: where a request came from, the two loggers, and the middleware every server is started with.
\<close>

section \<open>The output of a program\<close>

text \<open>\<open>Processed\<close> is the line of \<open>logToStderr\<close>, with its values instead of their text; time stamps are left out.\<close>

datatype line = Text string | Processed string bool rat

record point =
  p_db :: "string \<times> string \<times> string \<times> string"
  p_measurement :: string
  p_tags :: "(string \<times> string) list"
  p_is_error :: bool
  p_latency_ms :: rat
  p_time :: int

record console =
  stderr :: "line list"
  stdout :: "string list"
  points :: "point list"

datatype 'a ended = Exited | Panicked go_panic | Finished 'a

type_synonym 'a prog = "console \<Rightarrow> console \<times> 'a ended"

definition pret :: "'a \<Rightarrow> 'a prog" where
  "pret x c = (c, Finished x)"

definition pbind :: "'a prog \<Rightarrow> ('a \<Rightarrow> 'b prog) \<Rightarrow> 'b prog" where
  "pbind m k c = (case m c of (c', Finished x) \<Rightarrow> k x c' | (c', Exited) \<Rightarrow> (c', Exited) | (c', Panicked e) \<Rightarrow> (c', Panicked e))"

text \<open>A computation that may panic.\<close>

definition pgo :: "'a go \<Rightarrow> 'a prog" where
  "pgo m c = (c, case m of Inl e \<Rightarrow> Panicked e | Inr x \<Rightarrow> Finished x)"

text \<open>\<open>log\<close> ends every line with a newline unless the text has one.\<close>

definition newline :: char where
  "newline = CHR 0x0A"

definition logline :: "string \<Rightarrow> string" where
  "logline s = (if s \<noteq> [] \<and> last s = newline then s else s @ [newline])"

definition logPrintf :: "string \<Rightarrow> unit prog" where
  "logPrintf s c = (c\<lparr>stderr := stderr c @ [Text (logline s)]\<rparr>, Finished ())"

definition logFatalf :: "string \<Rightarrow> 'a prog" where
  "logFatalf s c = (c\<lparr>stderr := stderr c @ [Text (logline s)]\<rparr>, Exited)"

definition fmtPrintln :: "string \<Rightarrow> unit prog" where
  "fmtPrintln s c = (c\<lparr>stdout := stdout c @ [s @ [newline]]\<rparr>, Finished ())"

lemma pbind_pret [simp]: "pbind (pret x) k = k x"
  by (rule ext) (simp add: pbind_def pret_def)

lemma pbind_fatal [simp]: "pbind (logFatalf s) k = logFatalf s"
  by (rule ext) (simp add: pbind_def logFatalf_def)

section \<open>Debug printing\<close>

text \<open>\<open>filepath.Base\<close>: the last element of a path; trailing slashes do not count.\<close>

definition Base :: "string \<Rightarrow> string" where
  "Base path =
     (if path = [] then ''.''
      else
        let p = rev (dropWhile (\<lambda>ch. ch = CHR ''/'') (rev path)) in
        if p = [] then ''/'' else rev (takeWhile (\<lambda>ch. ch \<noteq> CHR ''/'') (rev p)))"

text \<open>The caller's file and line are what \<open>runtime.Caller\<close> reports; the formatted message is given.\<close>

definition DPrintf :: "bool \<Rightarrow> string \<times> nat \<Rightarrow> string \<Rightarrow> unit prog" where
  "DPrintf Debug caller msg =
     (if Debug then logPrintf (msg @ '' ('' @ Base (fst caller) @ '':'' @ show_nat (snd caller) @ '')'') else pret ())"

definition DPrintfFromNode :: "bool \<Rightarrow> string \<times> nat \<Rightarrow> int \<Rightarrow> string \<Rightarrow> unit prog" where
  "DPrintfFromNode Debug caller me msg =
     (if Debug then
        logPrintf (''[Node '' @ show_int me @ ''] '' @ msg @ '' ('' @ Base (fst caller) @ '':'' @ show_nat (snd caller) @ '')'')
      else pret ())"

section \<open>Where a request came from\<close>

text \<open>A \<open>net.Addr\<close> by its dynamic type, with the text of its IP address; a context that carries a peer or not.\<close>

datatype net_addr = TCPAddr string | UDPAddr string | OtherAddr

fun getIpFromAddr :: "net_addr \<Rightarrow> string" where
  "getIpFromAddr (TCPAddr ip) = ip"
| "getIpFromAddr (UDPAddr ip) = ip"
| "getIpFromAddr OtherAddr = ''unknown''"

text \<open>\<open>lookupAddr\<close> is the reverse name lookup of the host; \<open>None\<close> is an error.\<close>

definition getPeerHost :: "(string \<Rightarrow> string list option) \<Rightarrow> net_addr option \<Rightarrow> string" where
  "getPeerHost lookupAddr ctx =
     (case ctx of
        None \<Rightarrow> ''unknown''
      | Some a \<Rightarrow>
          let ip = getIpFromAddr a in
          (case lookupAddr ip of Some (h # hs) \<Rightarrow> h | _ \<Rightarrow> ip))"

section \<open>The loggers\<close>

definition logToStderr :: "string \<Rightarrow> bool \<Rightarrow> rat \<Rightarrow> console \<Rightarrow> console" where
  "logToStderr peerAddr isError latencyMs c = c\<lparr>stderr := stderr c @ [Processed peerAddr isError latencyMs]\<rparr>"

text \<open>The machine a logger runs on: its resolver, its name and the clock when the point is made.\<close>

record host =
  h_lookupAddr :: "string \<Rightarrow> string list option"
  h_hostname :: string
  h_now :: int

datatype Logger = StderrLogger | InfluxLogger string "string \<times> string \<times> string \<times> string"

definition StderrLogger_LogRequest :: "host \<Rightarrow> net_addr option \<Rightarrow> bool \<Rightarrow> rat \<Rightarrow> console \<Rightarrow> console" where
  "StderrLogger_LogRequest h ctx isError latencyMs c = logToStderr (getPeerHost (h_lookupAddr h) ctx) isError latencyMs c"

definition InfluxLogger_LogRequest :: "string \<Rightarrow> string \<times> string \<times> string \<times> string \<Rightarrow> host \<Rightarrow> net_addr option \<Rightarrow> bool \<Rightarrow> rat
    \<Rightarrow> console \<Rightarrow> console" where
  "InfluxLogger_LogRequest measurement db h ctx isError latencyMs c =
     (let peerAddr = getPeerHost (h_lookupAddr h) ctx; c1 = logToStderr peerAddr isError latencyMs c in
      c1\<lparr>points := points c1 @ [\<lparr>p_db = db, p_measurement = measurement,
             p_tags = [(''client'', peerAddr), (''host'', h_hostname h)],
             p_is_error = isError, p_latency_ms = latencyMs, p_time = h_now h\<rparr>]\<rparr>)"

fun LogRequest :: "Logger \<Rightarrow> host \<Rightarrow> net_addr option \<Rightarrow> bool \<Rightarrow> rat \<Rightarrow> console \<Rightarrow> console" where
  "LogRequest StderrLogger = StderrLogger_LogRequest"
| "LogRequest (InfluxLogger m db) = InfluxLogger_LogRequest m db"

record influx_flags =
  influxDbUrl :: string
  influxDbAuthToken :: string
  influxOrg :: string
  influxBucket :: string
  influxMeasurement :: string

definition MakeInfluxLogger :: "string \<Rightarrow> string \<Rightarrow> string \<Rightarrow> string \<Rightarrow> string \<Rightarrow> Logger" where
  "MakeInfluxLogger url authToken org bucket measurement = InfluxLogger measurement (url, authToken, org, bucket)"

definition default_influx_flags :: influx_flags where
  "default_influx_flags = \<lparr>influxDbUrl = '''', influxDbAuthToken = '''', influxOrg = ''influxdata'', influxBucket = ''default'',
     influxMeasurement = ''''\<rparr>"

definition MakeLogger :: "influx_flags \<Rightarrow> Logger prog" where
  "MakeLogger fl =
     (if influxDbUrl fl = [] then pret StderrLogger
      else if influxDbAuthToken fl = [] \<or> influxMeasurement fl = [] then
        logFatalf ''Must set --influx-token and --influx-measurement''
      else pret (MakeInfluxLogger (influxDbUrl fl) (influxDbAuthToken fl) (influxOrg fl) (influxBucket fl) (influxMeasurement fl)))"

section \<open>The middleware\<close>

text \<open>\<open>startTime\<close> and \<open>endTime\<close> are the clock in microseconds before and after the handler.  A handler that panics is not logged.\<close>

definition MakeMiddleware :: "(net_addr option \<Rightarrow> bool \<Rightarrow> rat \<Rightarrow> console \<Rightarrow> console) \<Rightarrow> int \<Rightarrow> int \<Rightarrow> net_addr option
    \<Rightarrow> ('q \<Rightarrow> 's \<Rightarrow> ('s \<times> (status + 'r)) go) \<Rightarrow> 'q \<Rightarrow> 's \<times> console \<Rightarrow> (('s \<times> console) \<times> (status + 'r)) go" where
  "MakeMiddleware logRequest startTime endTime ctx handler req = (\<lambda>(s, c).
     go_bind (handler req s) (\<lambda>(s', r).
       let latency = of_int (endTime - startTime) / 1000 in
       Inr ((s', logRequest ctx (isl r) latency c), r)))"

text \<open>The contract of the interface \<open>Logger\<close>: one line per request, with its peer, its outcome and its latency.\<close>

locale request_logger =
  fixes logRequest :: "net_addr option \<Rightarrow> bool \<Rightarrow> rat \<Rightarrow> console \<Rightarrow> console" and peerHost :: "net_addr option \<Rightarrow> string"
  assumes one_line: "stderr (logRequest ctx e l c) = stderr c @ [Processed (peerHost ctx) e l]"
    and no_print: "stdout (logRequest ctx e l c) = stdout c"
begin

text \<open>One request: the handler's state and answer are its own, and the line says how it ended.\<close>

lemma transparent:
  "MakeMiddleware logRequest t0 t1 ctx handler req (s, c) = Inr ((s', c'), r) \<longleftrightarrow>
     handler req s = Inr (s', r) \<and> c' = logRequest ctx (isl r) (of_int (t1 - t0) / 1000) c"
  by (auto simp: MakeMiddleware_def go_bind_Inr_iff Let_def)

lemma panic_unlogged: "handler req s = Inl e \<Longrightarrow> MakeMiddleware logRequest t0 t1 ctx handler req (s, c) = Inl e"
  by (simp add: MakeMiddleware_def)

end

interpretation stderrl: request_logger "StderrLogger_LogRequest h" "getPeerHost (h_lookupAddr h)" for h
  by unfold_locales (simp_all add: StderrLogger_LogRequest_def logToStderr_def)

interpretation influxl: request_logger "InfluxLogger_LogRequest m db h" "getPeerHost (h_lookupAddr h)" for m db h
  by unfold_locales (simp_all add: InfluxLogger_LogRequest_def logToStderr_def Let_def)

interpretation anyl: request_logger "LogRequest l h" "getPeerHost (h_lookupAddr h)" for l h
  by unfold_locales (cases l; simp add: stderrl.one_line influxl.one_line stderrl.no_print influxl.no_print)+

end
