(* ===== verification/Clients.thy ===== *)
theory Clients
  imports Console UserService
begin

text \<open>
  The command line clients: \<^verbatim>\<open>lab1/cmd/frontend/frontend.go\<close>, which picks a user id from a name, prints the user and asks for
  recommendations, and \<^verbatim>\<open>lab1/cmd/stats/stats.go\<close>, which prints the counters of the recommendation service.  The remote calls and the
  connections are parameters; the output is the \<open>console\<close>.
\<close>

unbundle bit_operations_syntax

section \<open>Picking a user\<close>

text \<open>\<open>fnv.New64\<close>: multiply, then xor the next byte, modulo \<open>2\<^sup>6\<^sup>4\<close>.\<close>

definition fnv_offset64 :: u64 where "fnv_offset64 = 14695981039346656037"
definition fnv_prime64 :: u64 where "fnv_prime64 = 1099511628211"

definition fnv_Write :: "u64 \<Rightarrow> string \<Rightarrow> u64" where
  "fnv_Write h s = foldl (\<lambda>h ch. (h * fnv_prime64) XOR of_nat (of_char ch)) h s"

definition getUserId :: "string \<Rightarrow> u64" where
  "getUserId netId = fnv_Write fnv_offset64 netId mod 5000 + 200000"

section \<open>The front end\<close>

record frontend_flags =
  ff_videoRecServiceAddr :: string
  ff_userServiceAddr :: string
  ff_netId :: string

definition default_frontend_flags :: frontend_flags where
  "default_frontend_flags = \<lparr>ff_videoRecServiceAddr = ''[::1]:8080'', ff_userServiceAddr = ''[::1]:8081'', ff_netId = ''xs66''\<rparr>"

text \<open>The answers the front end gets: of \<open>grpc.NewClient\<close> for an address, of \<open>GetUser\<close>, and of its successive calls of \<open>GetTopVideos\<close>.\<close>

record frontend_env =
  fe_dial :: "string \<Rightarrow> status option"
  fe_getUser :: "u64 list \<Rightarrow> status + UserInfo list"
  fe_top :: "nat \<Rightarrow> GetTopVideosRequest \<Rightarrow> status + GetTopVideosResponse"

definition serviceConn :: "(string \<Rightarrow> status option) \<Rightarrow> string \<Rightarrow> string \<Rightarrow> unit prog" where
  "serviceConn dial what address =
     (case dial address of Some e \<Rightarrow> logFatalf (what @ err_text e) | None \<Rightarrow> pret ())"

text \<open>\<open>%v\<close> of an error that may be nil.\<close>

definition show_err :: "status + 'a \<Rightarrow> string" where
  "show_err r = (case r of Inl e \<Rightarrow> err_text e | Inr x \<Rightarrow> ''<nil>'')"

definition fetchUser :: "frontend_flags \<Rightarrow> frontend_env \<Rightarrow> u64 \<Rightarrow> unit prog" where
  "fetchUser fl env userId =
     pbind (serviceConn (fe_dial env) ''fail to dial: '' (ff_userServiceAddr fl)) (\<lambda>_.
       let out = fe_getUser env [userId] in
       case out of
         Inr [userInfo] \<Rightarrow>
           logPrintf (''This user has name '' @ Username userInfo @ '', their email is '' @ Email userInfo @
             '', and their profile URL is '' @ ProfileUrl userInfo @ [newline])
       | _ \<Rightarrow> logFatalf (''Error retrieving user information for user (userId '' @ show_u64 userId @ ''): '' @
             show_err out @ [newline]))"

definition videoLine :: "nat \<Rightarrow> VideoInfo \<Rightarrow> string" where
  "videoLine i v = ''  ['' @ show_nat i @ ''] Video id='' @ show_u64 (vi_VideoId v) @ '', title='' @ [CHR 0x22] @ Title v @
     [CHR 0x22] @ '', author='' @ Author v @ '', url='' @ Url v"

fun printVideos :: "nat \<Rightarrow> VideoInfo list \<Rightarrow> unit prog" where
  "printVideos i [] = pret ()"
| "printVideos i (v # vs) = pbind (logPrintf (videoLine i v)) (\<lambda>_. printVideos (Suc i) vs)"

definition sendSingleTestRequest :: "frontend_env \<Rightarrow> nat \<Rightarrow> u64 \<Rightarrow> VideoInfo list prog" where
  "sendSingleTestRequest env k userId =
     (case fe_top env k \<lparr>req_UserId = userId, req_Limit = 5\<rparr> of
        Inl e \<Rightarrow> logFatalf (''Error retrieving video recommendations for user (userId '' @ show_u64 userId @ ''): '' @
                   err_text e @ [newline])
      | Inr out \<Rightarrow>
          pbind (logPrintf ''Recommended videos:'') (\<lambda>_.
          pbind (printVideos 0 (resp_Videos out)) (\<lambda>_. pret (resp_Videos out))))"

text \<open>The two answers \<open>main\<close> expects, by five of their fields; the indices are read only when there are five videos.\<close>

definition wrongCase1 :: "VideoInfo list \<Rightarrow> bool" where
  "wrongCase1 vs = (length vs \<noteq> 5 \<or> vi_VideoId (vs ! 0) \<noteq> 1012 \<or> Author (vs ! 1) \<noteq> ''Harry Boehm'' \<or>
     vi_VideoId (vs ! 2) \<noteq> 1209 \<or> Url (vs ! 3) \<noteq> ''https://video-data.localhost/blob/1309'' \<or> Title (vs ! 4) \<noteq> ''precious here'')"

definition wrongCase2 :: "VideoInfo list \<Rightarrow> bool" where
  "wrongCase2 vs = (length vs \<noteq> 5 \<or> vi_VideoId (vs ! 0) \<noteq> 1196 \<or> Author (vs ! 1) \<noteq> ''Rocky Okuneva'' \<or>
     vi_VideoId (vs ! 2) \<noteq> 1071 \<or> Url (vs ! 3) \<noteq> ''https://video-data.localhost/blob/1041'' \<or> Title (vs ! 4) \<noteq> ''witty downstairs'')"

definition frontend_main :: "frontend_flags \<Rightarrow> frontend_env \<Rightarrow> unit prog" where
  "frontend_main fl env =
     pbind (serviceConn (fe_dial env) ''fail to dial: '' (ff_videoRecServiceAddr fl)) (\<lambda>_.
       let userId = getUserId (ff_netId fl) in
       pbind (logPrintf (''Welcome '' @ ff_netId fl @ ''! The UserId we picked for you is '' @ show_u64 userId @ ''.'' @
                [newline, newline])) (\<lambda>_.
       pbind (fetchUser fl env userId) (\<lambda>_.
       pbind (sendSingleTestRequest env 0 userId) (\<lambda>_.
       pbind (logPrintf ([newline, newline] @ ''==== BASIC TESTS ===='' @ [newline])) (\<lambda>_.
       pbind (logPrintf (''Test case 1: UserId='' @ show_u64 204054)) (\<lambda>_.
       pbind (sendSingleTestRequest env 1 204054) (\<lambda>vs1.
       if wrongCase1 vs1 then logFatalf ''Test case 1 FAILED! Wrong recommendations''
       else
         pbind (logPrintf (''Test case 2: UserId='' @ show_u64 203584)) (\<lambda>_.
         pbind (sendSingleTestRequest env 2 203584) (\<lambda>vs2.
         if wrongCase2 vs2 then logFatalf ''Test case 2 FAILED! Wrong recommendations''
         else logPrintf ''OK: basic tests passed!'')))))))))"

section \<open>The statistics printer\<close>

text \<open>The columns of a line, with the time first; the two averages are printed with two decimals.\<close>

datatype stats_line = StatsHeader | StatsRow int GetStatsResponse | StatsError string

definition printHeader :: "stats_line list \<Rightarrow> stats_line list" where
  "printHeader out = out @ [StatsHeader]"

definition printStats :: "int \<Rightarrow> GetStatsResponse \<Rightarrow> stats_line list \<Rightarrow> stats_line list" where
  "printStats now r out = out @ [StatsRow now r]"

definition gatherStats :: "status + GetStatsResponse \<Rightarrow> int \<Rightarrow> stats_line list \<Rightarrow> stats_line list" where
  "gatherStats answer now out =
     (case answer of
        Inl e \<Rightarrow> out @ [StatsError (''Error retrieving stats: '' @ err_text e @ [newline])]
      | Inr r \<Rightarrow> printStats now r out)"

text \<open>The header and the first answer, then one answer per tick in the order in which they arrive.  \<open>Inl\<close>: the message with which the
  program ended.\<close>

definition stats_main :: "status option \<Rightarrow> ((status + GetStatsResponse) \<times> int) list \<Rightarrow> string + stats_line list" where
  "stats_main dialled answers =
     (case dialled of
        Some e \<Rightarrow> Inl (''fail to create connection: '' @ err_text e)
      | None \<Rightarrow> Inr (foldl (\<lambda>out (a, now). gatherStats a now out) (printHeader []) answers))"

text \<open>One line per answer, in order, after the header.\<close>

lemma stats_main_rows:
  "stats_main None answers = Inr (StatsHeader # map (\<lambda>(a, now). case a of Inr r \<Rightarrow> StatsRow now r
     | Inl e \<Rightarrow> StatsError (''Error retrieving stats: '' @ err_text e @ [newline])) answers)"
proof -
  have "foldl (\<lambda>out (a, now). gatherStats a now out) out answers = out @ map (\<lambda>(a, now). case a of Inr r \<Rightarrow> StatsRow now r
     | Inl e \<Rightarrow> StatsError (''Error retrieving stats: '' @ err_text e @ [newline])) answers" for out
    by (induction answers arbitrary: out) (auto simp: gatherStats_def printStats_def split: sum.split)
  then show ?thesis by (simp add: stats_main_def printHeader_def)
qed

section \<open>The ids exist\<close>

text \<open>Every user database has at least 5000 users, from 200000 upwards.\<close>

lemma made_users:
  assumes "MakeUserServiceServer src fsrc fk opts = Inr (s, w)" and "k < 5000"
  obtains u where "users s (of_nat k + 200000) = Some u" "ui_UserId u = of_nat k + 200000"
proof -
  from MakeUserServiceServer_ok [of src fsrc fk opts] assms(1) obtain n where n: "5000 \<le> n"
    "users_ok n (videoCount src (us_Seed opts)) (idRange USER_ID_OFFSET n) (users s)" by auto
  have "of_nat k + 200000 \<in> idRange USER_ID_OFFSET n"
    using idRange_add [of k n USER_ID_OFFSET] n(1) assms(2) by (simp add: USER_ID_OFFSET_def)
  then have "of_nat k + 200000 \<in> dom (users s)" using n(2) by (simp add: users_ok_def)
  then obtain u where "users s (of_nat k + 200000) = Some u" by auto
  with n(2) show thesis by (intro that) (auto simp: users_ok_def user_ok_def)
qed

lemma getUserId_eq: "getUserId netId = of_nat (unat (fnv_Write fnv_offset64 netId) mod 5000) + 200000"
proof -
  have "fnv_Write fnv_offset64 netId mod 5000 = of_nat (unat (fnv_Write fnv_offset64 netId mod 5000))" by simp
  then show ?thesis unfolding getUserId_def by (simp only: unat_mod unat_numeral) simp
qed

lemma getUserId_bounds: "200000 \<le> unat (getUserId netId)" "unat (getUserId netId) < 205000"
proof -
  have m: "unat (fnv_Write fnv_offset64 netId) mod 5000 < 5000" by simp
  then have "unat (getUserId netId) = unat (fnv_Write fnv_offset64 netId) mod 5000 + 200000"
    unfolding getUserId_eq by (simp add: unat_word_ariths unat_of_nat)
  with m show "200000 \<le> unat (getUserId netId)" "unat (getUserId netId) < 205000" by simp_all
qed

text \<open>What a client sees of an answer of the service; a call that hangs ends with its deadline.\<close>

fun answered :: "'a rpc \<Rightarrow> status + 'a" where
  "answered (Reply x) = Inr x"
| "answered (Fail e) = Inl e"
| "answered Hang = Inl (mk_error DeadlineExceeded ''context deadline exceeded'')"

text \<open>
  C23. The front end and the user service fit together.  For every name, every seed and every fake-data generator, the id the front
  end picks is between 200000 and 204999 and belongs to a user of the database the service makes; hence, with the failure
  rates 0, a positive batch size and a connection, \<open>fetchUser\<close> never fails: it prints exactly the record of that user.
\<close>

theorem frontend_finds_user:
  assumes "MakeUserServiceServer src fsrc fk opts = Inr (s, w)" and "us_FailureRate opts = 0" and "us_ResponseOmissionRate opts = 0"
    and "1 \<le> us_MaxBatchSize opts" and "fe_dial env (ff_userServiceAddr fl) = None"
    and "\<And>ids. GetUser s ids w = Inr (a ids, w' ids) \<and> fe_getUser env ids = answered (a ids)"
  shows "200000 \<le> unat (getUserId netId) \<and> unat (getUserId netId) < 205000 \<and>
    (\<exists>u. users s (getUserId netId) = Some u \<and> ui_UserId u = getUserId netId \<and>
      fetchUser fl env (getUserId netId) c =
        (c\<lparr>stderr := stderr c @ [Text (''This user has name '' @ Username u @ '', their email is '' @ Email u @
           '', and their profile URL is '' @ ProfileUrl u @ [newline])]\<rparr>, Finished ()))"
proof -
  obtain u where u: "users s (getUserId netId) = Some u" "ui_UserId u = getUserId netId"
    unfolding getUserId_eq by (rule made_users [OF assms(1), of "unat (fnv_Write fnv_offset64 netId) mod 5000"]) simp_all
  have s: "us_options s = opts" "us_fi s = SetInjectionConfig (us_SleepNs opts) 0 0 MakeFailureInjector"
    using MakeUserServiceServer_ok [of src fsrc fk opts] assms(1-3) by auto
  have "GetUser s [getUserId netId] w = Inr (Reply [u], w)"
    using u(1) s assms(4) by (simp add: GetUser_def gbind_def gret_def fi.off)
  with assms(6) [of "[getUserId netId]"] have "a [getUserId netId] = Reply [u]" by simp
  with assms(6) [of "[getUserId netId]"] have "fe_getUser env [getUserId netId] = Inr [u]" by simp
  then have "fetchUser fl env (getUserId netId) c =
      (c\<lparr>stderr := stderr c @ [Text (''This user has name '' @ Username u @ '', their email is '' @ Email u @
         '', and their profile URL is '' @ ProfileUrl u @ [newline])]\<rparr>, Finished ())"
    using assms(5) by (simp add: fetchUser_def serviceConn_def logPrintf_def logline_def)
  with u getUserId_bounds show ?thesis by blast
qed

text \<open>A fake-data generator that always says the same, and a front end connected to a service.\<close>

definition plain_fake :: "unit gofakeit" where
  "plain_fake = (let f = (\<lambda>t g. (t, g)) in
     \<lparr>fk_Email = f ''a@b'', fk_Username = f ''ada'', fk_AdjectiveDescriptive = f ''quiet'', fk_Vegetable = f ''leek'',
      fk_Animal = f ''cat'', fk_NounUncountable = f ''rice'', fk_AppName = f ''app'', fk_HackerVerb = f ''hack'',
      fk_AdverbPlace = f ''here'', fk_Name = f ''Ada''\<rparr>)"

definition connected :: "UserServiceServer \<Rightarrow> 'g world \<Rightarrow> frontend_env" where
  "connected s w = \<lparr>fe_dial = (\<lambda>_. None),
     fe_getUser = (\<lambda>ids. case GetUser s ids w of Inr (r, w') \<Rightarrow> answered r | Inl e \<Rightarrow> Inl (mk_error Unavailable [])),
     fe_top = (\<lambda>k r. Inl (mk_error Unavailable []))\<rparr>"

definition quiet_console :: console where
  "quiet_console = \<lparr>stderr = [], stdout = [], points = []\<rparr>"

theorem frontend_finds_user_witness:
  "\<exists>s w u. MakeUserServiceServer (\<lambda>_ _. 0) (\<lambda>_. ()) plain_fake DefaultUserServiceOptions = Inr (s, w) \<and>
     getUserId ''xs66'' = 200762 \<and> users s 200762 = Some u \<and>
     snd (fetchUser default_frontend_flags (connected s w) 200762 quiet_console) = Finished ()"
proof -
  let ?o = DefaultUserServiceOptions
  obtain s w where m: "MakeUserServiceServer (\<lambda>_ _. 0) (\<lambda>_. ()) plain_fake ?o = Inr (s, w)"
    using MakeUserServiceServer_ok by blast
  have o: "us_FailureRate ?o = 0" "us_ResponseOmissionRate ?o = 0" "1 \<le> us_MaxBatchSize ?o"
    by (simp_all add: DefaultUserServiceOptions_def)
  have "us_fi s = SetInjectionConfig (us_SleepNs ?o) 0 0 MakeFailureInjector"
    using MakeUserServiceServer_ok [of "\<lambda>_ _. 0" "\<lambda>_. ()" plain_fake ?o] m o by auto
  then have g: "\<exists>r. GetUser s ids w = Inr (r, w)" for ids by (simp add: GetUser_def gbind_def gret_def fi.off)
  have a: "GetUser s ids w = Inr (fst (projr (GetUser s ids w)), w) \<and> fe_getUser (connected s w) ids = answered (fst (projr (GetUser s ids w)))" for ids
    using g [of ids] by (auto simp: connected_def)
  have id: "getUserId ''xs66'' = 200762" by code_simp
  have "fe_dial (connected s w) (ff_userServiceAddr default_frontend_flags) = None" by (simp add: connected_def)
  from frontend_finds_user [OF m o this a, of "''xs66''" quiet_console] m id show ?thesis by auto
qed

section \<open>When the front end succeeds\<close>

text \<open>A program that ends as \<open>r\<close> whatever was printed before (\<open>None\<close>: it exits), and prints only log lines.\<close>

definition ends :: "'a prog \<Rightarrow> 'a option \<Rightarrow> bool" where
  "ends m r \<longleftrightarrow> (\<forall>c. \<exists>ls. m c = (c\<lparr>stderr := stderr c @ ls\<rparr>, case r of Some x \<Rightarrow> Finished x | None \<Rightarrow> Exited))"

lemma endsD:
  assumes "ends m r"
  obtains ls where "m c = (c\<lparr>stderr := stderr c @ ls\<rparr>, case r of Some x \<Rightarrow> Finished x | None \<Rightarrow> Exited)"
  using assms by (auto simp: ends_def)

lemma ends_bind:
  assumes "ends m r" and "\<And>x. r = Some x \<Longrightarrow> ends (k x) (q x)"
  shows "ends (pbind m k) (Option.bind r q)"
  unfolding ends_def
proof
  fix c
  from assms(1) obtain ls where ls: "m c = (c\<lparr>stderr := stderr c @ ls\<rparr>, case r of Some x \<Rightarrow> Finished x | None \<Rightarrow> Exited)"
    by (rule endsD)
  show "\<exists>ls. pbind m k c = (c\<lparr>stderr := stderr c @ ls\<rparr>, case Option.bind r q of Some x \<Rightarrow> Finished x | None \<Rightarrow> Exited)"
  proof (cases r)
    case None
    with ls show ?thesis by (auto simp: pbind_def)
  next
    case (Some x)
    from assms(2) [OF Some] obtain ls' where "k x (c\<lparr>stderr := stderr c @ ls\<rparr>) =
        ((c\<lparr>stderr := stderr c @ ls\<rparr>)\<lparr>stderr := stderr (c\<lparr>stderr := stderr c @ ls\<rparr>) @ ls'\<rparr>,
         case q x of Some y \<Rightarrow> Finished y | None \<Rightarrow> Exited)"
      by (rule endsD)
    with ls Some show ?thesis by (auto simp: pbind_def)
  qed
qed

lemma ends_basic: "ends (logPrintf s) (Some ())" "ends (logFatalf s) None" "ends (pret x) (Some x)"
  by (auto simp: ends_def logPrintf_def logFatalf_def pret_def intro: exI [of _ "[]"])

lemma ends_if: "ends m r \<Longrightarrow> ends n q \<Longrightarrow> ends (if b then m else n) (if b then r else q)"
  by simp

lemma ends_serviceConn: "ends (serviceConn dial what a) (if dial a = None then Some () else None)"
  by (auto simp: serviceConn_def ends_basic split: option.split)

lemma ends_printVideos: "ends (printVideos i vs) (Some ())"
proof (induction vs arbitrary: i)
  case (Cons v vs)
  have "ends (printVideos i (v # vs)) (Option.bind (Some ()) (\<lambda>_. Some ()))"
    unfolding printVideos.simps by (rule ends_bind [OF ends_basic(1) Cons.IH])
  then show ?case by simp
qed (simp add: ends_basic)

lemma ends_fetchUser:
  "ends (fetchUser fl env i)
     (Option.bind (if fe_dial env (ff_userServiceAddr fl) = None then Some () else None)
        (\<lambda>_. if \<exists>u. fe_getUser env [i] = Inr [u] then Some () else None))"
  unfolding fetchUser_def Let_def
  by (rule ends_bind [OF ends_serviceConn]) (auto simp: ends_basic split: sum.split list.split)

lemma ends_request:
  "ends (sendSingleTestRequest env k i)
     (case fe_top env k \<lparr>req_UserId = i, req_Limit = 5\<rparr> of Inl e \<Rightarrow> None | Inr out \<Rightarrow> Some (resp_Videos out))"
proof (cases "fe_top env k \<lparr>req_UserId = i, req_Limit = 5\<rparr>")
  case (Inl e)
  then show ?thesis by (simp add: sendSingleTestRequest_def ends_basic)
next
  case (Inr out)
  have "ends (sendSingleTestRequest env k i) (Option.bind (Some ()) (\<lambda>_. Option.bind (Some ()) (\<lambda>_. Some (resp_Videos out))))"
    unfolding sendSingleTestRequest_def Inr sum.case
    by (intro ends_bind [OF ends_basic(1)] ends_bind [OF ends_printVideos] ends_basic)
  with Inr show ?thesis by simp
qed

text \<open>
  The front end reports success exactly when everything works.  It never panics; it ends normally if and only if both
  connections are made, the user service answers with exactly one user, all three requests for recommendations
  succeed, and the answers for the users 204054 and 203584 are the expected ones.  In every other case it exits with an error.
  It writes nothing but log lines.
\<close>

theorem frontend_main_outcome:
  "\<exists>ls. frontend_main fl env c = (c\<lparr>stderr := stderr c @ ls\<rparr>,
     if fe_dial env (ff_videoRecServiceAddr fl) = None \<and> fe_dial env (ff_userServiceAddr fl) = None \<and>
        (\<exists>u. fe_getUser env [getUserId (ff_netId fl)] = Inr [u]) \<and>
        (\<exists>r. fe_top env 0 \<lparr>req_UserId = getUserId (ff_netId fl), req_Limit = 5\<rparr> = Inr r) \<and>
        (\<exists>r. fe_top env 1 \<lparr>req_UserId = 204054, req_Limit = 5\<rparr> = Inr r \<and> \<not> wrongCase1 (resp_Videos r)) \<and>
        (\<exists>r. fe_top env 2 \<lparr>req_UserId = 203584, req_Limit = 5\<rparr> = Inr r \<and> \<not> wrongCase2 (resp_Videos r))
     then Finished () else Exited)"
proof -
  let ?i = "getUserId (ff_netId fl)"
  let ?top = "\<lambda>k i. case fe_top env k \<lparr>req_UserId = i, req_Limit = 5\<rparr> of Inl e \<Rightarrow> None | Inr out \<Rightarrow> Some (resp_Videos out)"
  let ?r = "Option.bind (if fe_dial env (ff_videoRecServiceAddr fl) = None then Some () else None) (\<lambda>_.
      Option.bind (Some ()) (\<lambda>_. Option.bind (Option.bind (if fe_dial env (ff_userServiceAddr fl) = None then Some () else None)
        (\<lambda>_. if \<exists>u. fe_getUser env [?i] = Inr [u] then Some () else None)) (\<lambda>_.
      Option.bind (?top 0 ?i) (\<lambda>_. Option.bind (Some ()) (\<lambda>_. Option.bind (Some ()) (\<lambda>_. Option.bind (?top 1 204054) (\<lambda>vs1.
        if wrongCase1 vs1 then None else Option.bind (Some ()) (\<lambda>_. Option.bind (?top 2 203584) (\<lambda>vs2.
        if wrongCase2 vs2 then None else Some ())))))))))"
  have "ends (frontend_main fl env) ?r"
    unfolding frontend_main_def Let_def
    by (intro ends_bind ends_serviceConn ends_basic ends_fetchUser ends_request ends_if)
  then obtain ls where "frontend_main fl env c = (c\<lparr>stderr := stderr c @ ls\<rparr>, case ?r of Some x \<Rightarrow> Finished x | None \<Rightarrow> Exited)"
    by (rule endsD)
  then show ?thesis by (intro exI [of _ ls]) (auto split: sum.splits)
qed

end
