(* ===== verification/LoadGen.thy ===== *)
theory LoadGen
  imports Clients
begin

text \<open>
  \<^verbatim>\<open>lab1/cmd/loadgen/loadgen.go\<close>: the load generator.  Connection goroutines start request goroutines, which count what
  happens to them in five shared atomic counters, and a reporter reads the counters once per second.  The state is the counters, the
  connections, the requests with their program counters, and the reporter; an action is one atomic operation of one goroutine.
  The rate limiter and the service are parameters: when a \<open>Wait\<close> returns and what a call answers is part of the action.
\<close>

section \<open>State\<close>

definition LG_USER_ID_OFFSET :: u64 where "LG_USER_ID_OFFSET = 200000"
definition MIN_USER_COUNT :: u64 where "MIN_USER_COUNT = 5000"

definition getNextUserId :: "u64 \<Rightarrow> u64" where
  "getNextUserId userId = (userId + 1) mod MIN_USER_COUNT + LG_USER_ID_OFFSET"

text \<open>Where a request goroutine is: before the first counter, in the call, before each of the later counters, at its end.\<close>

datatype rq_pc = RqNew | RqCalling | RqStale | RqRespond | RqLatency | RqSuccess | RqEnd

record request =
  rq_conn :: nat
  rq_user :: u64
  rq_limit :: int
  rq_pc :: rq_pc
  wasSuccess :: bool
  rq_stale :: bool
  rq_elapsed :: u64

datatype conn = Dialling | Connected u64

text \<open>What the reporter has read so far.\<close>

datatype reporter = RpIdle | RpResponses u64 | RpErrors u64 u64 | RpLatency u64 u64 u64 | RpStale u64 u64 u64 u64

text \<open>Quotients of \<open>float64\<close> values without rounding.\<close>

datatype quotient = Ratio rat | PosInf | NaN

definition fdiv :: "u64 \<Rightarrow> u64 \<Rightarrow> quotient" where
  "fdiv a b = (if b \<noteq> 0 then Ratio (of_int (uint a) / of_int (uint b)) else if a = 0 then NaN else PosInf)"

record report =
  total_sent :: u64
  total_responses :: u64
  total_errors :: u64
  failure_rate :: quotient
  stale_responses :: u64
  avg_latency_ms :: quotient

record loadgen =
  totalSent :: u64
  totalResponses :: u64
  totalSuccesses :: u64
  totalLatencyMs :: u64
  totalStale :: u64
  limiter :: "int \<times> int"
  conns :: "conn list"
  reqs :: "request list"
  reporting :: reporter
  reports :: "report list"
  exited :: bool

section \<open>The goroutines\<close>

definition loadgen_main :: "int \<Rightarrow> loadgen" where
  "loadgen_main targetQps =
     (let maxBurst = (if 100 > targetQps then targetQps else 100);
          numConns = (if targetQps < 1000 then targetQps else 1000) in
      \<lparr>totalSent = 0, totalResponses = 0, totalSuccesses = 0, totalLatencyMs = 0, totalStale = 0,
       limiter = (targetQps, maxBurst), conns = replicate (nat numConns) Dialling, reqs = [], reporting = RpIdle, reports = [],
       exited = False\<rparr>)"

datatype lg_act =
    Dial nat bool
  | Wait nat bool
  | Sent nat nat
  | Answer nat "status + GetTopVideosResponse"
  | CountStale nat
  | CountResponse nat
  | CountLatency nat u64
  | CountSuccess nat
  | Report

text \<open>A connection goroutine: a failed dial ends the program; a \<open>Wait\<close> that returns an error is tried again.\<close>

definition conn_step :: "nat \<Rightarrow> lg_act \<Rightarrow> loadgen \<Rightarrow> loadgen option" where
  "conn_step j a g =
     (if j < length (conns g) then
        (case (conns g ! j, a) of
           (Dialling, Dial _ ok) \<Rightarrow>
             Some (if ok then g\<lparr>conns := (conns g)[j := Connected LG_USER_ID_OFFSET]\<rparr> else g\<lparr>exited := True\<rparr>)
         | (Connected userId, Wait _ ok) \<Rightarrow>
             Some (if ok then g\<lparr>reqs := reqs g @ [\<lparr>rq_conn = j, rq_user = userId, rq_limit = 0, rq_pc = RqNew, wasSuccess = False,
                                              rq_stale = False, rq_elapsed = 0\<rparr>],
                               conns := (conns g)[j := Connected (getNextUserId userId)]\<rparr> else g)
         | _ \<Rightarrow> None)
      else None)"

definition setReq :: "nat \<Rightarrow> request \<Rightarrow> loadgen \<Rightarrow> loadgen" where
  "setReq i r g = g\<lparr>reqs := (reqs g)[i := r]\<rparr>"

text \<open>One step of \<open>sendRequest\<close>; the deferred function counts the response, then the latency, then the success.\<close>

definition sendRequest :: "nat \<Rightarrow> lg_act \<Rightarrow> loadgen \<Rightarrow> loadgen option" where
  "sendRequest i a g =
     (if i < length (reqs g) then
        (let r = reqs g ! i in
         case (rq_pc r, a) of
           (RqNew, Sent _ draw) \<Rightarrow>
             Some (setReq i (r\<lparr>rq_limit := int (draw mod 10) + 1, rq_pc := RqCalling\<rparr>) (g\<lparr>totalSent := totalSent g + 1\<rparr>))
         | (RqCalling, Answer _ (Inl e)) \<Rightarrow> Some (setReq i (r\<lparr>rq_pc := RqRespond\<rparr>) g)
         | (RqCalling, Answer _ (Inr out)) \<Rightarrow>
             Some (setReq i (r\<lparr>wasSuccess := True, rq_stale := StaleResponse out,
                              rq_pc := (if StaleResponse out then RqStale else RqRespond)\<rparr>) g)
         | (RqStale, CountStale _) \<Rightarrow> Some (setReq i (r\<lparr>rq_pc := RqRespond\<rparr>) (g\<lparr>totalStale := totalStale g + 1\<rparr>))
         | (RqRespond, CountResponse _) \<Rightarrow>
             Some (setReq i (r\<lparr>rq_pc := RqLatency\<rparr>) (g\<lparr>totalResponses := totalResponses g + 1\<rparr>))
         | (RqLatency, CountLatency _ elapsed) \<Rightarrow>
             Some (setReq i (r\<lparr>rq_elapsed := elapsed, rq_pc := (if wasSuccess r then RqSuccess else RqEnd)\<rparr>)
               (g\<lparr>totalLatencyMs := totalLatencyMs g + elapsed\<rparr>))
         | (RqSuccess, CountSuccess _) \<Rightarrow>
             Some (setReq i (r\<lparr>rq_pc := RqEnd\<rparr>) (g\<lparr>totalSuccesses := totalSuccesses g + 1\<rparr>))
         | _ \<Rightarrow> None)
      else None)"

text \<open>The reporter: one load per step, in the order of the code; the last step loads \<open>totalSent\<close> and prints.\<close>

definition reportStats :: "loadgen \<Rightarrow> loadgen" where
  "reportStats g =
     (case reporting g of
        RpIdle \<Rightarrow> g\<lparr>reporting := RpResponses (totalResponses g)\<rparr>
      | RpResponses numReqs \<Rightarrow> g\<lparr>reporting := RpErrors numReqs (numReqs - totalSuccesses g)\<rparr>
      | RpErrors numReqs numErrors \<Rightarrow> g\<lparr>reporting := RpLatency numReqs numErrors (totalLatencyMs g)\<rparr>
      | RpLatency numReqs numErrors latencyMs \<Rightarrow> g\<lparr>reporting := RpStale numReqs numErrors latencyMs (totalStale g)\<rparr>
      | RpStale numReqs numErrors latencyMs staleResponses \<Rightarrow>
          g\<lparr>reporting := RpIdle, reports := reports g @ [\<lparr>total_sent = totalSent g, total_responses = numReqs,
              total_errors = numErrors,
              failure_rate = (case fdiv numErrors numReqs of Ratio q \<Rightarrow> Ratio (q * 100) | x \<Rightarrow> x),
              stale_responses = staleResponses, avg_latency_ms = fdiv latencyMs numReqs\<rparr>]\<rparr>)"

definition loadgen_act :: "lg_act \<Rightarrow> loadgen \<Rightarrow> loadgen option" where
  "loadgen_act a g =
     (if exited g then None
      else case a of
        Dial j ok \<Rightarrow> conn_step j a g
      | Wait j ok \<Rightarrow> conn_step j a g
      | Sent i draw \<Rightarrow> sendRequest i a g
      | Answer i r \<Rightarrow> sendRequest i a g
      | CountStale i \<Rightarrow> sendRequest i a g
      | CountResponse i \<Rightarrow> sendRequest i a g
      | CountLatency i elapsed \<Rightarrow> sendRequest i a g
      | CountSuccess i \<Rightarrow> sendRequest i a g
      | Report \<Rightarrow> Some (reportStats g))"

section \<open>User ids\<close>

text \<open>The user of a connection's request number \<open>n\<close>.\<close>

definition nthUser :: "nat \<Rightarrow> u64" where
  "nthUser n = of_nat (n mod 5000) + 200000"

lemma unat_nthUser: "unat (nthUser n) = n mod 5000 + 200000"
proof -
  have "n mod 5000 < 5000" by simp
  then show ?thesis by (simp add: nthUser_def unat_word_ariths unat_of_nat)
qed

lemma getNextUserId_nth: "getNextUserId (nthUser n) = nthUser (Suc n)"
proof -
  have lt: "n mod 5000 < 5000" by simp
  have "unat (nthUser n + 1) = n mod 5000 + 200001"
    using lt by (simp add: unat_word_ariths unat_nthUser)
  then have "unat ((nthUser n + 1) mod MIN_USER_COUNT) = (n mod 5000 + 200001) mod 5000"
    by (simp add: unat_mod MIN_USER_COUNT_def)
  also have "n mod 5000 + 200001 = Suc (n mod 5000) + 40 * 5000" by simp
  also have "\<dots> mod 5000 = Suc n mod 5000" by (simp only: mod_mult_self1 mod_Suc_eq)
  finally have "unat ((nthUser n + 1) mod MIN_USER_COUNT) = Suc n mod 5000" .
  moreover have "(nthUser n + 1) mod MIN_USER_COUNT = of_nat (unat ((nthUser n + 1) mod MIN_USER_COUNT))" by simp
  ultimately have "(nthUser n + 1) mod MIN_USER_COUNT = of_nat (Suc n mod 5000)" by (rule subst)
  then show ?thesis by (simp add: getNextUserId_def nthUser_def LG_USER_ID_OFFSET_def)
qed

section \<open>The invariant\<close>

text \<open>How much a request has added to each counter.\<close>

definition issued :: "request \<Rightarrow> bool" where "issued r \<longleftrightarrow> rq_pc r \<noteq> RqNew"
definition responded :: "request \<Rightarrow> bool" where "responded r \<longleftrightarrow> rq_pc r = RqLatency \<or> rq_pc r = RqSuccess \<or> rq_pc r = RqEnd"
definition succeeded :: "request \<Rightarrow> bool" where "succeeded r \<longleftrightarrow> rq_pc r = RqEnd \<and> wasSuccess r"
definition staled :: "request \<Rightarrow> bool" where "staled r \<longleftrightarrow> rq_stale r \<and> rq_pc r \<noteq> RqStale"

definition tally :: "(request \<Rightarrow> u64) \<Rightarrow> loadgen \<Rightarrow> u64" where
  "tally f g = sum_list (map f (reqs g))"

definition request_ok :: "request \<Rightarrow> bool" where
  "request_ok r \<longleftrightarrow> (rq_stale r \<longrightarrow> wasSuccess r) \<and> (wasSuccess r \<longrightarrow> rq_pc r \<noteq> RqNew \<and> rq_pc r \<noteq> RqCalling) \<and>
     (rq_pc r = RqSuccess \<longrightarrow> wasSuccess r) \<and> (rq_pc r = RqStale \<longrightarrow> rq_stale r) \<and>
     (rq_pc r \<noteq> RqSuccess \<longrightarrow> rq_pc r \<noteq> RqEnd \<longrightarrow> rq_elapsed r = 0) \<and> (issued r \<longrightarrow> 1 \<le> rq_limit r \<and> rq_limit r \<le> 10)"

definition ofConn :: "nat \<Rightarrow> loadgen \<Rightarrow> request list" where
  "ofConn j g = filter (\<lambda>r. rq_conn r = j) (reqs g)"

definition conn_ok :: "loadgen \<Rightarrow> nat \<Rightarrow> bool" where
  "conn_ok g j \<longleftrightarrow> map rq_user (ofConn j g) = map nthUser [0..<length (ofConn j g)] \<and>
     (case conns g ! j of Dialling \<Rightarrow> ofConn j g = [] | Connected u \<Rightarrow> u = nthUser (length (ofConn j g)))"

definition loadgen_inv :: "loadgen \<Rightarrow> bool" where
  "loadgen_inv g \<longleftrightarrow>
     totalSent g = tally (\<lambda>r. of_bool (issued r)) g \<and> totalResponses g = tally (\<lambda>r. of_bool (responded r)) g \<and>
     totalSuccesses g = tally (\<lambda>r. of_bool (succeeded r)) g \<and> totalStale g = tally (\<lambda>r. of_bool (staled r)) g \<and>
     totalLatencyMs g = tally rq_elapsed g \<and>
     (\<forall>r \<in> set (reqs g). request_ok r \<and> rq_conn r < length (conns g)) \<and> (\<forall>j < length (conns g). conn_ok g j)"

lemma tally_setReq:
  assumes "i < length (reqs g)"
  shows "tally f (setReq i r g) = tally f g - f (reqs g ! i) + f r"
proof -
  have "sum_list (xs[i := y]) = sum_list xs - xs ! i + y" if "i < length xs" for xs and y :: u64
    using that by (induction xs arbitrary: i) (auto split: nat.split)
  from this [of "map f (reqs g)" "f r"] assms show ?thesis by (simp add: tally_def setReq_def map_update)
qed

lemma tally_count: "tally (\<lambda>r. of_bool (P r)) g = of_nat (length (filter P (reqs g)))"
proof -
  have "sum_list (map (\<lambda>r. of_bool (P r)) xs) = (of_nat (length (filter P xs)) :: u64)" for xs by (induction xs) auto
  then show ?thesis by (simp add: tally_def)
qed

text \<open>A request keeps its connection and its user.\<close>

lemma conn_ok_setReq:
  assumes "i < length (reqs g)" and "rq_conn r = rq_conn (reqs g ! i)" and "rq_user r = rq_user (reqs g ! i)"
  shows "conn_ok (setReq i r g) j = conn_ok g j"
proof -
  have f: "map rq_user (filter (\<lambda>r. rq_conn r = j) (xs[i := r])) = map rq_user (filter (\<lambda>r. rq_conn r = j) xs)"
    if "i < length xs" "rq_conn r = rq_conn (xs ! i)" "rq_user r = rq_user (xs ! i)" for xs
    using that by (induction xs arbitrary: i) (auto split: nat.split)
  have "map rq_user (ofConn j (setReq i r g)) = map rq_user (ofConn j g)" using f assms by (simp add: ofConn_def setReq_def)
  moreover from this have "length (ofConn j (setReq i r g)) = length (ofConn j g)" by (rule map_eq_imp_length_eq)
  moreover have "conns (setReq i r g) = conns g" by (simp add: setReq_def)
  ultimately show ?thesis unfolding conn_ok_def by (auto split: conn.split)
qed

lemma conn_ok_same:
  "ofConn j g' = ofConn j g \<Longrightarrow> conns g' ! j = conns g ! j \<Longrightarrow> conn_ok g' j = conn_ok g j"
  by (simp add: conn_ok_def split: conn.split)

lemma setReq_fields:
  "reqs (setReq i r g) = (reqs g)[i := r]" "conns (setReq i r g) = conns g" "totalSent (setReq i r g) = totalSent g"
  "totalResponses (setReq i r g) = totalResponses g" "totalSuccesses (setReq i r g) = totalSuccesses g"
  "totalStale (setReq i r g) = totalStale g" "totalLatencyMs (setReq i r g) = totalLatencyMs g"
  by (simp_all add: setReq_def)

lemma inv_setReq:
  assumes inv: "loadgen_inv g" and i: "i < length (reqs g)" and same: "reqs g1 = reqs g" "conns g1 = conns g"
    and r: "rq_conn r' = rq_conn (reqs g ! i)" "rq_user r' = rq_user (reqs g ! i)" "request_ok r'"
    and cnt: "totalSent g1 = totalSent g - of_bool (issued (reqs g ! i)) + of_bool (issued r')"
      "totalResponses g1 = totalResponses g - of_bool (responded (reqs g ! i)) + of_bool (responded r')"
      "totalSuccesses g1 = totalSuccesses g - of_bool (succeeded (reqs g ! i)) + of_bool (succeeded r')"
      "totalStale g1 = totalStale g - of_bool (staled (reqs g ! i)) + of_bool (staled r')"
      "totalLatencyMs g1 = totalLatencyMs g - rq_elapsed (reqs g ! i) + rq_elapsed r'"
  shows "loadgen_inv (setReq i r' g1)"
proof -
  have t: "tally f g1 = tally f g" for f by (simp add: tally_def same)
  have i1: "i < length (reqs g1)" using i same by simp
  have c: "conn_ok g1 j = conn_ok g j" for j by (rule conn_ok_same) (simp_all add: ofConn_def same)
  have "set ((reqs g)[i := r']) \<subseteq> insert r' (set (reqs g))" by (rule set_update_subset_insert)
  moreover have "rq_conn r' < length (conns g)" using inv i r(1) by (simp add: loadgen_inv_def)
  moreover have "conn_ok (setReq i r' g1) j = conn_ok g j" for j
    using conn_ok_setReq [OF i1, of r' j] r same c by simp
  ultimately show ?thesis
    using inv r(3) by (auto simp: loadgen_inv_def setReq_fields same cnt t tally_setReq [OF i1])
qed

lemma sendRequest_inv:
  assumes step: "sendRequest i a g = Some g'" and inv: "loadgen_inv g"
  shows "loadgen_inv g'"
proof -
  from step have i: "i < length (reqs g)" by (simp add: sendRequest_def split: if_splits)
  define r where "r = reqs g ! i"
  have ok: "request_ok r" using inv i by (simp add: loadgen_inv_def r_def)
  note facts = issued_def responded_def succeeded_def staled_def request_ok_def
  note upd = inv_setReq [OF inv i, folded r_def]
  note S = step [unfolded sendRequest_def Let_def, folded r_def]
  show ?thesis
  proof (cases "rq_pc r")
    case RqNew
    with S i obtain k draw where "a = Sent k draw"
      "g' = setReq i (r\<lparr>rq_limit := int (draw mod 10) + 1, rq_pc := RqCalling\<rparr>) (g\<lparr>totalSent := totalSent g + 1\<rparr>)"
      by (auto split: lg_act.splits)
    then show ?thesis using ok RqNew by (auto intro!: upd simp: facts)
  next
    case RqCalling
    with S i consider "g' = setReq i (r\<lparr>rq_pc := RqRespond\<rparr>) g"
      | b where "g' = setReq i (r\<lparr>wasSuccess := True, rq_stale := b, rq_pc := (if b then RqStale else RqRespond)\<rparr>) g"
      by (cases a) (auto split: sum.splits)
    then show ?thesis
    proof cases
      case 1
      then show ?thesis unfolding 1 using ok RqCalling by (intro upd) (auto simp: facts)
    next
      case (2 b)
      then show ?thesis unfolding 2 using ok RqCalling by (intro upd) (auto simp: facts)
    qed
  next
    case RqStale
    with S i have "g' = setReq i (r\<lparr>rq_pc := RqRespond\<rparr>) (g\<lparr>totalStale := totalStale g + 1\<rparr>)" by (auto split: lg_act.splits)
    then show ?thesis using ok RqStale by (auto intro!: upd simp: facts)
  next
    case RqRespond
    with S i have "g' = setReq i (r\<lparr>rq_pc := RqLatency\<rparr>) (g\<lparr>totalResponses := totalResponses g + 1\<rparr>)" by (auto split: lg_act.splits)
    then show ?thesis using ok RqRespond by (auto intro!: upd simp: facts)
  next
    case RqLatency
    with S i obtain d where "g' = setReq i (r\<lparr>rq_elapsed := d, rq_pc := (if wasSuccess r then RqSuccess else RqEnd)\<rparr>)
        (g\<lparr>totalLatencyMs := totalLatencyMs g + d\<rparr>)" by (auto split: lg_act.splits)
    then show ?thesis using ok RqLatency by (auto intro!: upd simp: facts)
  next
    case RqSuccess
    with S i have "g' = setReq i (r\<lparr>rq_pc := RqEnd\<rparr>) (g\<lparr>totalSuccesses := totalSuccesses g + 1\<rparr>)" by (auto split: lg_act.splits)
    then show ?thesis using ok RqSuccess by (auto intro!: upd simp: facts)
  qed (use S i in \<open>auto split: lg_act.splits\<close>)
qed

lemma conn_step_inv:
  assumes step: "conn_step j a g = Some g'" and inv: "loadgen_inv g"
  shows "loadgen_inv g'"
proof -
  from step have j: "j < length (conns g)" by (simp add: conn_step_def split: if_splits)
  have cj: "conn_ok g j" using inv j by (simp add: loadgen_inv_def)
  have zero: "LG_USER_ID_OFFSET = nthUser 0" by (simp add: LG_USER_ID_OFFSET_def nthUser_def)
  consider "g' = g\<lparr>exited := True\<rparr> \<or> g' = g" | "conns g ! j = Dialling" "g' = g\<lparr>conns := (conns g)[j := Connected LG_USER_ID_OFFSET]\<rparr>"
    | u where "conns g ! j = Connected u" "g' = g\<lparr>reqs := reqs g @ [\<lparr>rq_conn = j, rq_user = u, rq_limit = 0, rq_pc = RqNew,
        wasSuccess = False, rq_stale = False, rq_elapsed = 0\<rparr>], conns := (conns g)[j := Connected (getNextUserId u)]\<rparr>"
    using step j by (auto simp: conn_step_def split: conn.splits lg_act.splits if_splits)
  then show ?thesis
  proof cases
    case 1
    then show ?thesis using inv conn_ok_same [of _ g' g] by (auto simp: loadgen_inv_def tally_def ofConn_def)
  next
    case 2
    have "conn_ok g' k" if "k < length (conns g)" for k
    proof (cases "k = j")
      case True
      then show ?thesis using cj 2 zero j by (simp add: conn_ok_def ofConn_def)
    next
      case False
      then show ?thesis using inv that 2 conn_ok_same [of k g' g] by (simp add: loadgen_inv_def ofConn_def)
    qed
    with inv 2 show ?thesis by (auto simp: loadgen_inv_def tally_def)
  next
    case 3
    have "conn_ok g' k" if "k < length (conns g)" for k
    proof (cases "k = j")
      case True
      then show ?thesis using cj 3 j getNextUserId_nth by (simp add: conn_ok_def ofConn_def)
    next
      case False
      then show ?thesis using inv that 3 conn_ok_same [of k g' g] by (simp add: loadgen_inv_def ofConn_def)
    qed
    moreover have "request_ok \<lparr>rq_conn = j, rq_user = u, rq_limit = 0, rq_pc = RqNew, wasSuccess = False, rq_stale = False, rq_elapsed = 0\<rparr>"
      by (simp add: request_ok_def issued_def)
    ultimately show ?thesis using inv 3 j
      by (auto simp: loadgen_inv_def tally_def issued_def responded_def succeeded_def staled_def)
  qed
qed

interpretation lgen: machine_invariant "\<lambda>g. g = loadgen_main q" loadgen_act loadgen_inv for q
proof unfold_locales
  show "g = loadgen_main q \<Longrightarrow> loadgen_inv g" for g
    by (simp add: loadgen_main_def Let_def loadgen_inv_def tally_def conn_ok_def ofConn_def)
  show "loadgen_inv g'" if "loadgen_act a g = Some g'" "loadgen_inv g" for a g g'
  proof (cases "a = Report")
    case True
    then have "g' = reportStats g" using that(1) by (simp add: loadgen_act_def split: if_splits)
    then have "reqs g' = reqs g \<and> conns g' = conns g \<and> totalSent g' = totalSent g \<and> totalResponses g' = totalResponses g \<and>
        totalSuccesses g' = totalSuccesses g \<and> totalStale g' = totalStale g \<and> totalLatencyMs g' = totalLatencyMs g"
      by (simp add: reportStats_def split: reporter.split)
    with that(2) show ?thesis using conn_ok_same [of _ g' g] by (simp add: loadgen_inv_def tally_def ofConn_def)
  next
    case False
    with that sendRequest_inv conn_step_inv show ?thesis by (auto simp: loadgen_act_def split: if_splits lg_act.splits)
  qed
qed

section \<open>The properties\<close>

text \<open>
  C22. The load generator counts correctly.  In every interleaving of the connection, request and reporter goroutines each counter is,
  modulo \<open>2\<^sup>6\<^sup>4\<close>, the number of requests that have passed it: requests issued, responses, successes, stale responses, and the sum of the
  latencies.  When all requests have ended, requests and responses are equal in number, the difference between
  responses and successes is the number of failed requests, and every stale response has been counted.
\<close>

theorem loadgen_accounting:
  assumes "reach (\<lambda>g. g = loadgen_main q) (act_step loadgen_act) g"
  shows "totalSent g = of_nat (length (filter issued (reqs g))) \<and> totalResponses g = of_nat (length (filter responded (reqs g))) \<and>
    totalSuccesses g = of_nat (length (filter succeeded (reqs g))) \<and> totalStale g = of_nat (length (filter staled (reqs g))) \<and>
    totalLatencyMs g = sum_list (map rq_elapsed (reqs g)) \<and>
    ((\<forall>r \<in> set (reqs g). rq_pc r = RqEnd) \<longrightarrow>
       totalSent g = of_nat (length (reqs g)) \<and> totalResponses g = totalSent g \<and>
       totalResponses g - totalSuccesses g = of_nat (length (filter (\<lambda>r. \<not> wasSuccess r) (reqs g))) \<and>
       totalStale g = of_nat (length (filter rq_stale (reqs g))))"
proof -
  have inv: "loadgen_inv g" by (rule lgen.reach_inv [OF assms])
  have end_counts: "length (filter issued (reqs g)) = length (reqs g)" "length (filter responded (reqs g)) = length (reqs g)"
    "filter succeeded (reqs g) = filter wasSuccess (reqs g)" "filter staled (reqs g) = filter rq_stale (reqs g)"
    if "\<forall>r \<in> set (reqs g). rq_pc r = RqEnd"
    using that by (auto simp: issued_def responded_def succeeded_def staled_def intro!: filter_cong arg_cong [where f = length] filter_True)
  have "length (reqs g) = length (filter wasSuccess (reqs g)) + length (filter (\<lambda>r. \<not> wasSuccess r) (reqs g))"
    by (simp add: sum_length_filter_compl)
  then have "(of_nat (length (reqs g)) :: u64) - of_nat (length (filter wasSuccess (reqs g))) =
      of_nat (length (filter (\<lambda>r. \<not> wasSuccess r) (reqs g)))"
    by (simp only: of_nat_add add_diff_cancel_left')
  with inv end_counts show ?thesis by (auto simp: loadgen_inv_def tally_count) (simp_all add: tally_def)
qed

text \<open>Two requests, both answered; the second answer is stale.\<close>

definition answer :: "bool \<Rightarrow> status + GetTopVideosResponse" where
  "answer b = Inr \<lparr>resp_Videos = [], StaleResponse = b\<rparr>"

definition two_requests :: "lg_act list" where
  "two_requests = [Dial 0 True, Wait 0 True, Sent 0 3, Answer 0 (answer False), CountResponse 0, CountLatency 0 4, CountSuccess 0,
     Wait 0 True, Sent 1 7, Answer 1 (answer True), CountStale 1, CountResponse 1, CountLatency 1 6, CountSuccess 1]"

theorem loadgen_accounting_witness:
  "\<exists>g. run loadgen_act two_requests (loadgen_main 1) = Some g \<and> length (reqs g) = 2 \<and> totalSent g = 2 \<and> totalResponses g = 2 \<and>
     totalSuccesses g = 2 \<and> totalStale g = 1 \<and> totalLatencyMs g = sum_list (map rq_elapsed (reqs g))"
proof -
  have "map_option (\<lambda>g. (length (reqs g), length (filter succeeded (reqs g)), length (filter rq_stale (reqs g)), map rq_pc (reqs g)))
      (run loadgen_act two_requests (loadgen_main 1)) = Some (2, 2, 1, [RqEnd, RqEnd])"
    unfolding two_requests_def answer_def by code_simp
  then obtain g where g: "run loadgen_act two_requests (loadgen_main 1) = Some g" "length (reqs g) = 2"
    "length (filter succeeded (reqs g)) = 2" "length (filter rq_stale (reqs g)) = 1" "map rq_pc (reqs g) = [RqEnd, RqEnd]" by auto
  have "\<forall>r \<in> set (reqs g). rq_pc r = RqEnd" using arg_cong [OF g(5), of set] by auto
  with loadgen_accounting [OF run_from [OF g(1)]] g show ?thesis by (intro exI [of _ g]) auto
qed

text \<open>
  C24. The load generator asks for users that exist.  The requests of one connection go through the ids 200000, ..., 204999 in order and
  start again after the last; every request that was sent has a limit between 1 and 10; and every id asked for
  belongs to a user of every database the user service makes, whatever its seed.
\<close>

theorem loadgen_user_ids:
  assumes "reach (\<lambda>g. g = loadgen_main q) (act_step loadgen_act) g"
  shows "(\<forall>j < length (conns g). map rq_user (ofConn j g) = map (\<lambda>n. of_nat (n mod 5000) + 200000) [0..<length (ofConn j g)]) \<and>
    (\<forall>r \<in> set (reqs g). rq_conn r < length (conns g) \<and> (rq_pc r \<noteq> RqNew \<longrightarrow> 1 \<le> rq_limit r \<and> rq_limit r \<le> 10) \<and>
       (MakeUserServiceServer src fsrc fk opts = Inr (s, w) \<longrightarrow> rq_user r \<in> dom (users s)))"
proof -
  have inv: "loadgen_inv g" by (rule lgen.reach_inv [OF assms])
  then have c: "map rq_user (ofConn j g) = map nthUser [0..<length (ofConn j g)]" if "j < length (conns g)" for j
    using that by (simp add: loadgen_inv_def conn_ok_def)
  have "rq_user r \<in> dom (users s)" if r: "r \<in> set (reqs g)" and s: "MakeUserServiceServer src fsrc fk opts = Inr (s, w)" for r
  proof -
    have "rq_user r \<in> set (map rq_user (ofConn (rq_conn r) g))" using r by (simp add: ofConn_def)
    also have "map rq_user (ofConn (rq_conn r) g) = map nthUser [0..<length (ofConn (rq_conn r) g)]"
      using c inv r by (simp add: loadgen_inv_def)
    finally obtain n where "rq_user r = nthUser n" by auto
    then show ?thesis using made_users [OF s, of "n mod 5000"] by (auto simp: nthUser_def)
  qed
  with inv c show ?thesis unfolding nthUser_def by (auto simp: loadgen_inv_def request_ok_def issued_def)
qed

theorem loadgen_user_ids_witness:
  "\<exists>g s w. run loadgen_act two_requests (loadgen_main 1) = Some g \<and>
     MakeUserServiceServer (\<lambda>_ _. 0) (\<lambda>_. ()) plain_fake DefaultUserServiceOptions = Inr (s, w) \<and>
     map rq_user (ofConn 0 g) = [200000, 200001] \<and> (\<forall>r \<in> set (reqs g). rq_user r \<in> dom (users s))"
proof -
  have "map_option (\<lambda>g. (length (conns g), length (ofConn 0 g))) (run loadgen_act two_requests (loadgen_main 1)) = Some (1, 2)"
    unfolding two_requests_def answer_def by code_simp
  then obtain g where g: "run loadgen_act two_requests (loadgen_main 1) = Some g" "length (conns g) = 1" "length (ofConn 0 g) = 2" by auto
  obtain s w where s: "MakeUserServiceServer (\<lambda>_ _. 0) (\<lambda>_. ()) plain_fake DefaultUserServiceOptions = Inr (s, w)"
    using MakeUserServiceServer_ok by blast
  from loadgen_user_ids [OF run_from [OF g(1)], of "\<lambda>_ _. 0" "\<lambda>_. ()" plain_fake DefaultUserServiceOptions s w] g s
  show ?thesis by (intro exI [of _ g] exI [of _ s] exI [of _ w]) (auto simp: upt_rec)
qed

definition overtaken_report :: "lg_act list" where
  "overtaken_report = [Dial 0 True, Wait 0 True, Sent 0 3, Answer 0 (answer False), CountResponse 0, CountLatency 0 4, CountSuccess 0,
     Report, Wait 0 True, Sent 1 7, Answer 1 (answer False), CountResponse 1, CountLatency 1 6, CountSuccess 1,
     Report, Report, Report, Report]"

text \<open>
  C40. A report can show an absurd number of errors.  \<open>reportStats\<close> loads the number of responses before the number of successes, and
  subtracts them as \<open>uint64\<close>: when a request finishes between the two loads the difference wraps around.  In this run every request succeeds, and the
  report says that one response came with \<open>2\<^sup>6\<^sup>4 - 1\<close> errors.
\<close>

theorem report_errors_wrap_around:
  "\<exists>g. run loadgen_act overtaken_report (loadgen_main 1) = Some g \<and> list_all wasSuccess (reqs g) \<and>
     map total_responses (reports g) = [1] \<and> map (unat \<circ> total_errors) (reports g) = [2 ^ 64 - 1]"
proof -
  have "map_option (\<lambda>g. (list_all wasSuccess (reqs g), map total_responses (reports g), map total_errors (reports g)))
      (run loadgen_act overtaken_report (loadgen_main 1)) = Some (True, [1], [- 1])"
    unfolding overtaken_report_def answer_def by code_simp
  then obtain g where "run loadgen_act overtaken_report (loadgen_main 1) = Some g" "list_all wasSuccess (reqs g)"
    "map total_responses (reports g) = [1]" "map total_errors (reports g) = [- 1]" by auto
  moreover have "map (unat \<circ> total_errors) (reports g) = map unat (map total_errors (reports g))" by simp
  moreover have "unat (- 1 :: u64) = 2 ^ 64 - 1" by (simp add: unsigned_minus_1_eq_mask mask_eq_exp_minus_1)
  ultimately show ?thesis by (intro exI [of _ g]) simp
qed

end
