(* ===== verification/VideoRecPool.thy ===== *)
theory VideoRecPool
  imports VideoRecProps
begin

text \<open>
  \<^verbatim>\<open>lab2/video_rec_service/server_lib/server_lib.go\<close>: the recommendation service of lab 2.  It keeps a
  pool of connections per backend and takes the next one in turn for every request; the request
  itself differs from lab 1 in that it looks at no deadline, rejects a user without
  subscriptions, and waits for all video batches before it looks at the cache channel.  The
  functions whose code is the same in both labs are those of \<open>VideoRec\<close>.
\<close>

section \<open>The pool\<close>

text \<open>A connection is named by its position in the pool it was dialled for.\<close>

record PooledServer =
  srv :: VideoRecServiceServer
  ClientPoolSize :: int
  UserClientConn :: "nat list"
  VideoClientConn :: "nat list"
  UserConnIndex :: u64
  VideoConnIndex :: u64

fun dialPool :: "VideoRecServiceServer \<Rightarrow> 'c env \<Rightarrow> int \<Rightarrow> nat \<Rightarrow> nat \<Rightarrow> status + nat list" where
  "dialPool s env target i 0 = Inr []"
| "dialPool s env target i (Suc n) =
     (case ConnectClient s env i target of
        Some e \<Rightarrow> Inl e
      | None \<Rightarrow> (case dialPool s env target (Suc i) n of Inl e \<Rightarrow> Inl e | Inr cs \<Rightarrow> Inr (i # cs)))"

definition MakePooledServer :: "'c env \<Rightarrow> VideoRecServiceOptions \<Rightarrow> int \<Rightarrow> status + PooledServer" where
  "MakePooledServer env opts poolSize =
     (let n = max 1 poolSize; s = newServer opts False in
      case dialPool s env 0 0 (nat n) of
        Inl e \<Rightarrow> Inl e
      | Inr ucs \<Rightarrow>
          (case dialPool s env 1 0 (nat n) of
             Inl e \<Rightarrow> Inl e
           | Inr vcs \<Rightarrow> Inr \<lparr>srv = s, ClientPoolSize = n, UserClientConn = ucs, VideoClientConn = vcs,
                            UserConnIndex = 0, VideoConnIndex = 0\<rparr>))"

definition MakePooledServerWithMocks :: "VideoRecServiceOptions \<Rightarrow> int \<Rightarrow> PooledServer" where
  "MakePooledServerWithMocks opts poolSize =
     \<lparr>srv = newServer opts True, ClientPoolSize = poolSize, UserClientConn = [], VideoClientConn = [],
      UserConnIndex = 0, VideoConnIndex = 0\<rparr>"

text \<open>\<open>atomic.AddUint64(idx, 1) % uint64(poolSize)\<close> and the access to the pool.\<close>

definition nextIndex :: "u64 \<Rightarrow> int \<Rightarrow> (u64 \<times> u64) go" where
  "nextIndex k n = (if (of_int n :: u64) = 0 then Inl DivideByZero else Inr (k + 1, (k + 1) mod of_int n))"

definition takeUserConn :: "PooledServer \<Rightarrow> (PooledServer \<times> nat) go" where
  "takeUserConn p =
     (if isMock (srv p) then Inr (p, 0)
      else go_bind (nextIndex (UserConnIndex p) (ClientPoolSize p)) (\<lambda>(k, i).
             go_bind (index (UserClientConn p) (uint i)) (\<lambda>c. Inr (p\<lparr>UserConnIndex := k\<rparr>, c))))"

definition takeVideoConn :: "PooledServer \<Rightarrow> (PooledServer \<times> nat) go" where
  "takeVideoConn p =
     (if isMock (srv p) then Inr (p, 0)
      else go_bind (nextIndex (VideoConnIndex p) (ClientPoolSize p)) (\<lambda>(k, i).
             go_bind (index (VideoClientConn p) (uint i)) (\<lambda>c. Inr (p\<lparr>VideoConnIndex := k\<rparr>, c))))"

section \<open>Probing and refreshing over the pool\<close>

text \<open>The client is taken before the configured batch size is looked at.  \<open>None\<close> inside the result: the loop is still running.\<close>

definition PooledUpdateUserServiceMaxBatchSize :: "nat \<Rightarrow> (nat \<Rightarrow> nat \<Rightarrow> u64 list \<Rightarrow> status + UserInfo list) \<Rightarrow> PooledServer
    \<Rightarrow> PooledServer option go" where
  "PooledUpdateUserServiceMaxBatchSize fuel ask p =
     go_bind (takeUserConn p) (\<lambda>(p1, c).
       Inr (map_option (\<lambda>s. p1\<lparr>srv := s\<rparr>) (UpdateUserServiceMaxBatchSize fuel (ask c) (srv p1))))"

definition PooledUpdateVideoServiceMaxBatchSize :: "nat \<Rightarrow> (nat \<Rightarrow> nat \<Rightarrow> u64 list \<Rightarrow> status + VideoInfo list) \<Rightarrow> PooledServer
    \<Rightarrow> PooledServer option go" where
  "PooledUpdateVideoServiceMaxBatchSize fuel ask p =
     go_bind (takeVideoConn p) (\<lambda>(p1, c).
       Inr (map_option (\<lambda>s. p1\<lparr>srv := s\<rparr>) (UpdateVideoServiceMaxBatchSize fuel (ask c) (srv p1))))"

text \<open>One iteration of the refresh loop: the connection is taken once and kept; there is no dialling.\<close>

definition PooledRefreshStep :: "int \<Rightarrow> int \<Rightarrow> nat option \<Rightarrow> PooledServer \<Rightarrow> (nat \<Rightarrow> 'c env) \<Rightarrow> (PooledServer \<times> nat \<times> int) go" where
  "PooledRefreshStep now now' client p penv =
     go_bind (case client of Some c \<Rightarrow> Inr (p, c) | None \<Rightarrow> takeVideoConn p) (\<lambda>(p1, c).
       go_bind (refreshStep now now' True (srv p1) (penv c)) (\<lambda>(s, _, sleep). Inr (p1\<lparr>srv := s\<rparr>, c, sleep)))"

definition PooledContinuallyRefreshCache :: "int \<Rightarrow> int \<Rightarrow> nat option \<Rightarrow> PooledServer \<Rightarrow> (nat \<Rightarrow> 'c env)
    \<Rightarrow> (PooledServer \<times> nat \<times> int) option go" where
  "PooledContinuallyRefreshCache now now' client p penv =
     (if DisableFallback (options (srv p)) then Inr None
      else go_bind (PooledRefreshStep now now' client p penv) (\<lambda>r. Inr (Some r)))"

section \<open>The request\<close>

text \<open>Running a piece of the handler that works on the inner server.\<close>

definition onSrv :: "PooledServer \<Rightarrow> (VideoRecServiceServer \<times> 'a) go \<Rightarrow> (PooledServer \<times> 'a) go" where
  "onSrv p m = go_bind m (\<lambda>(s, x). Inr (p\<lparr>srv := s\<rparr>, x))"

definition fetchSubscriber2 :: "VideoRecServiceServer \<Rightarrow> 'c env \<Rightarrow> int \<Rightarrow> u64 \<Rightarrow> VideoRecServiceServer \<times> UserInfo list outcome" where
  "fetchSubscriber2 server env limit uid =
     (case res (e_getUser env (Subscriber 1) [uid]) of
        Inr us \<Rightarrow> (server, Continue us)
      | Inl e \<Rightarrow>
          let s1 = addUserErrors 1 server in
          if \<not> DisableRetry (options server) then
            (case res (e_getUser env (Subscriber 2) [uid]) of
               Inr us \<Rightarrow> (s1, Continue us)
             | Inl e2 \<Rightarrow> returning (fallback env AtReturn limit id (Inl e2) (addUserErrors 1 (addTotalErrors 1 s1))))
          else returning (fallback env AtReturn limit id (Inl e) (addTotalErrors 1 s1)))"

definition videoWorker2 :: "VideoRecServiceServer \<Rightarrow> 'c env \<Rightarrow> int \<Rightarrow> u64 list \<Rightarrow> nat \<Rightarrow> nat \<Rightarrow> VideoInfo worker" where
  "videoWorker2 server env limit ids mx i =
     (if \<not> batchHasWork ids mx i then wOk [] 0
      else
        let failed = (\<lambda>e n. if \<not> DisableFallback (options server) then wCache (GetCachedVideos limit (cacheAt env (VideoBatch i) server)) n 0 0
                            else wErr (mk_error Unavailable (''GetTopVideos: GetVideo failed: '' @ err_text e)) n 0) in
        case res (e_getVideo env (Batch i 1) (batchSlice ids mx i)) of
          Inr vs \<Rightarrow> wOk vs 0
        | Inl e \<Rightarrow>
            if \<not> DisableRetry (options server) then
              (case res (e_getVideo env (Batch i 2) (batchSlice ids mx i)) of
                 Inr vs \<Rightarrow> wOk vs 1
               | Inl e2 \<Rightarrow> failed e2 2)
            else failed e 1)"

text \<open>After \<open>wg.Wait()\<close> the cache channel is looked at first: \<open>pickDone\<close> is false.\<close>

definition videoPhase2 :: "VideoRecServiceServer \<Rightarrow> 'c env \<Rightarrow> coeffs \<Rightarrow> int \<Rightarrow> u64 list
    \<Rightarrow> (VideoRecServiceServer \<times> VideoInfo list outcome) go" where
  "videoPhase2 server env userCoeff limit likedVideos =
     (let mx = unat (VideoServiceMaxBatchSize server);
          w = videoWorker2 server env limit likedVideos mx in
      if mx = 0 then Inl DivideByZero
      else Inr (joinPhase env userCoeff limit w (e_videoAppends env) (e_videoSends env) False
                 (addVideoErrors (total w_svc w (batchLoop likedVideos mx)) server)))"

definition recommend2 :: "PooledServer \<Rightarrow> (nat \<Rightarrow> 'c env) \<Rightarrow> nat \<Rightarrow> int \<Rightarrow> UserInfo
    \<Rightarrow> (PooledServer \<times> (status + GetTopVideosResponse)) go" where
  "recommend2 p penv cu limit u =
     (let cf = UserCoefficients u; ranked = (\<lambda>vs. rankVideos (penv cu) cf vs limit) in
      if SubscribedTo u = [] then
        onSrv p (Inr (fallback (penv cu) AtReturn limit ranked
          (Inl (mk_error FailedPrecondition ''GetTopVideos: user is not subscribed to anyone'')) (addTotalErrors 1 (srv p))))
      else
        andThen (onSrv p (userPhase (srv p) (penv cu) cf limit (SubscribedTo u))) (\<lambda>us p2.
          go_bind (takeVideoConn p2) (\<lambda>(p3, cv).
            andThen (onSrv p3 (videoPhase2 (srv p3) (penv cv) cf limit (collectLiked us))) (\<lambda>vs p4.
              Inr (p4, fresh (ranked vs))))))"

definition GetTopVideos2_body :: "PooledServer \<Rightarrow> (nat \<Rightarrow> 'c env) \<Rightarrow> GetTopVideosRequest
    \<Rightarrow> (PooledServer \<times> (status + GetTopVideosResponse)) go" where
  "GetTopVideos2_body p penv req =
     (let limit = req_Limit req in
      if limit < 0 then Inr (p, Inl (mk_error InvalidArgument ''GetTopVideos: invalid limit''))
      else
        go_bind (takeUserConn p) (\<lambda>(p1, cu).
          if req_UserId req = 0 then
            onSrv p1 (Inr (fallback (penv cu) AtReturn limit id (Inl (mk_error InvalidArgument ''GetTopVideos: invalid user ID''))
              (addTotalErrors 1 (srv p1))))
          else
            andThen (onSrv p1 (Inr (fetchSubscriber2 (srv p1) (penv cu) limit (req_UserId req)))) (\<lambda>us p2.
              go_bind (index us 0) (\<lambda>u. recommend2 p2 penv cu limit u))))"

definition GetTopVideos2 :: "PooledServer \<Rightarrow> (nat \<Rightarrow> 'c env) \<Rightarrow> GetTopVideosRequest
    \<Rightarrow> (PooledServer \<times> (status + GetTopVideosResponse)) go" where
  "GetTopVideos2 p penv req =
     (let s = srv p in
      go_bind (GetTopVideos2_body
        (p\<lparr>srv := s\<lparr>TotalRequests := TotalRequests s + 1, ActiveRequests := ActiveRequests s + 1\<rparr>\<rparr>) penv req)
        (\<lambda>(p', r). let t = srv p'; lat = e_latency (penv 0) in
          Inr (p'\<lparr>srv := t\<lparr>ActiveRequests := ActiveRequests t + NOT 0,
                           TotalSumLatencyMs := TotalSumLatencyMs t + of_nat lat, td := td t @ [lat]\<rparr>\<rparr>, r)))"

section \<open>Cache and statistics\<close>

text \<open>The methods whose code is that of lab 1, on the server with the pool: they do not touch the pool.\<close>

definition PooledUpdateCache :: "PooledServer \<Rightarrow> 'c env \<Rightarrow> nat \<Rightarrow> (PooledServer \<times> status option) go" where
  "PooledUpdateCache p env maxBatchSize = onSrv p (UpdateCache (srv p) env maxBatchSize)"

definition PooledGetCachedVideos :: "int \<Rightarrow> PooledServer \<Rightarrow> VideoInfo list option" where
  "PooledGetCachedVideos requestLimit p = GetCachedVideos requestLimit (srv p)"

definition PooledGetStats :: "(nat list \<Rightarrow> nat) \<Rightarrow> PooledServer \<Rightarrow> GetStatsResponse" where
  "PooledGetStats quantile p = GetStats quantile (srv p)"

section \<open>Round robin\<close>

definition pool_ok :: "PooledServer \<Rightarrow> bool" where
  "pool_ok p \<longleftrightarrow> 1 \<le> ClientPoolSize p \<and> ClientPoolSize p < 2 ^ 63 \<and>
     UserClientConn p = [0..<nat (ClientPoolSize p)] \<and> VideoClientConn p = [0..<nat (ClientPoolSize p)]"

lemma PooledUpdateCache_pool:
  assumes "PooledUpdateCache p env mx = Inr (p', e)" and "pool_ok p"
  shows "pool_ok p'" "UserConnIndex p' = UserConnIndex p" "VideoConnIndex p' = VideoConnIndex p"
  using assms by (auto simp: PooledUpdateCache_def onSrv_def go_bind_Inr_iff pool_ok_def)

lemma dialPool_all: "\<forall>a k. e_dial env a k = None \<Longrightarrow> target = 0 \<or> target = 1 \<Longrightarrow> dialPool s env target i n = Inr [i..<i + n]"
proof (induction n arbitrary: i)
  case (Suc n)
  then have "ConnectClient s env i target = None" by (auto simp: ConnectClient_def)
  with Suc show ?case by (simp add: upt_conv_Cons)
qed simp

lemma MakePooledServer_ok:
  assumes "\<forall>a k. e_dial env a k = None" and "poolSize < 2 ^ 63"
  shows "\<exists>p. MakePooledServer env opts poolSize = Inr p \<and> pool_ok p \<and> UserConnIndex p = 0 \<and> VideoConnIndex p = 0 \<and>
    srv p = newServer opts False"
  using assms by (simp add: MakePooledServer_def Let_def dialPool_all pool_ok_def)

lemma pool_index:
  assumes "1 \<le> n" and "n < 2 ^ 63"
  shows "uint ((k :: u64) mod of_int n) = uint k mod n" "(of_int n :: u64) \<noteq> 0"
proof -
  have u: "uint (of_int n :: u64) = n" using assms by (simp add: uint_word_of_int take_bit_int_eq_self)
  then show "uint (k mod of_int n) = uint k mod n" by (simp add: uint_mod)
  show "(of_int n :: u64) \<noteq> 0" using u assms(1) by auto
qed

lemma takeUserConn_ok:
  assumes "pool_ok p" and "\<not> isMock (srv p)"
  shows "takeUserConn p =
    Inr (p\<lparr>UserConnIndex := UserConnIndex p + 1\<rparr>, nat (uint (UserConnIndex p + 1) mod ClientPoolSize p))"
proof -
  have n: "1 \<le> ClientPoolSize p" "ClientPoolSize p < 2 ^ 63" using assms by (simp_all add: pool_ok_def)
  have "0 \<le> uint (UserConnIndex p + 1) mod ClientPoolSize p" "uint (UserConnIndex p + 1) mod ClientPoolSize p < ClientPoolSize p"
    using n(1) by simp_all
  then show ?thesis
    using assms pool_index [OF n] by (simp add: takeUserConn_def nextIndex_def index_def pool_ok_def nat_less_iff)
qed

lemma takeVideoConn_ok:
  assumes "pool_ok p" and "\<not> isMock (srv p)"
  shows "takeVideoConn p =
    Inr (p\<lparr>VideoConnIndex := VideoConnIndex p + 1\<rparr>, nat (uint (VideoConnIndex p + 1) mod ClientPoolSize p))"
proof -
  have n: "1 \<le> ClientPoolSize p" "ClientPoolSize p < 2 ^ 63" using assms by (simp_all add: pool_ok_def)
  have "0 \<le> uint (VideoConnIndex p + 1) mod ClientPoolSize p" "uint (VideoConnIndex p + 1) mod ClientPoolSize p < ClientPoolSize p"
    using n(1) by simp_all
  then show ?thesis
    using assms pool_index [OF n] by (simp add: takeVideoConn_def nextIndex_def index_def pool_ok_def nat_less_iff)
qed

text \<open>The connections of \<open>m\<close> requests in a row.\<close>

fun takeUserConns :: "nat \<Rightarrow> PooledServer \<Rightarrow> (PooledServer \<times> nat list) go" where
  "takeUserConns 0 p = Inr (p, [])"
| "takeUserConns (Suc m) p =
     go_bind (takeUserConn p) (\<lambda>(p1, c). go_bind (takeUserConns m p1) (\<lambda>(p2, cs). Inr (p2, c # cs)))"

lemma takeUserConns_eq:
  assumes "pool_ok p" and "\<not> isMock (srv p)" and "unat (UserConnIndex p) + m < 2 ^ 64"
  shows "\<exists>p'. takeUserConns m p = Inr (p', map (\<lambda>j. (unat (UserConnIndex p) + 1 + j) mod nat (ClientPoolSize p)) [0..<m])"
  using assms
proof (induction m arbitrary: p)
  case (Suc m)
  let ?p = "p\<lparr>UserConnIndex := UserConnIndex p + 1\<rparr>" and ?n = "nat (ClientPoolSize p)"
  have lt: "unat (UserConnIndex p) + 1 < 2 ^ 64" using Suc.prems(3) by simp
  then have s: "unat (UserConnIndex p + 1) = unat (UserConnIndex p) + 1"
    by (simp add: unat_word_ariths)
  have "1 \<le> ClientPoolSize p" using Suc.prems(1) by (simp add: pool_ok_def)
  then have c: "nat (uint (UserConnIndex p + 1) mod ClientPoolSize p) = (unat (UserConnIndex p) + 1) mod ?n"
    using s by (simp add: nat_mod_distrib)
  from Suc.IH [of ?p] Suc.prems s obtain p' where
    "takeUserConns m ?p = Inr (p', map (\<lambda>j. (unat (UserConnIndex p) + 1 + 1 + j) mod ?n) [0..<m])"
    by (auto simp: pool_ok_def)
  moreover have "map (\<lambda>j. (unat (UserConnIndex p) + 1 + j) mod ?n) [0..<Suc m] =
      (unat (UserConnIndex p) + 1) mod ?n # map (\<lambda>j. (unat (UserConnIndex p) + 1 + 1 + j) mod ?n) [0..<m]"
    by (simp add: upt_conv_Cons map_Suc_upt [symmetric] del: upt_Suc)
  ultimately show ?case using c takeUserConn_ok [OF Suc.prems(1,2)] by simp
qed simp

lemma mod_shift_perm:
  assumes "0 < n"
  shows "mset (map (\<lambda>j. (a + j) mod n) [0..<n]) = mset [0..<n]"
proof -
  have "inj_on (\<lambda>j. (a + j) mod n) {0..<n}"
  proof (rule inj_onI)
    have le: "i = j" if "i \<le> j" "j < n" "(a + i) mod n = (a + j) mod n" for i j
    proof -
      have "n dvd j - i" using that mod_eq_dvd_iff_nat [of "a + i" "a + j" n] by simp
      with that show ?thesis by (metis dvd_imp_le diff_is_0_eq le_antisym less_imp_diff_less not_le zero_less_diff)
    qed
    fix i j assume "i \<in> {0..<n}" "j \<in> {0..<n}" "(a + i) mod n = (a + j) mod n"
    then show "i = j" using le [of i j] le [of j i] by (cases "i \<le> j") auto
  qed
  then have d: "distinct (map (\<lambda>j. (a + j) mod n) [0..<n])" by (simp add: distinct_map)
  have "set (map (\<lambda>j. (a + j) mod n) [0..<n]) \<subseteq> {0..<n}" using assms by auto
  moreover have "card (set (map (\<lambda>j. (a + j) mod n) [0..<n])) = card {0..<n}"
    using distinct_card [OF d] by simp
  ultimately have "set (map (\<lambda>j. (a + j) mod n) [0..<n]) = set [0..<n]"
    by (metis card_subset_eq finite_atLeastLessThan set_upt)
  with d show ?thesis by (metis distinct_upt set_eq_iff_mset_eq_distinct)
qed

text \<open>
  The pool is used in turn: with a well-formed pool and no overflow of the counter, any pool-size
  requests in a row find a connection without a panic and use every connection exactly once.
\<close>

theorem pool_round_robin:
  assumes "pool_ok p" and "\<not> isMock (srv p)" and "unat (UserConnIndex p) + nat (ClientPoolSize p) < 2 ^ 64"
  shows "\<exists>p' cs. takeUserConns (nat (ClientPoolSize p)) p = Inr (p', cs) \<and> mset cs = mset (UserClientConn p)"
proof -
  have "0 < nat (ClientPoolSize p)" "UserClientConn p = [0..<nat (ClientPoolSize p)]"
    using assms(1) by (auto simp: pool_ok_def)
  with takeUserConns_eq [OF assms] mod_shift_perm show ?thesis by metis
qed

theorem pool_round_robin_witness:
  "\<exists>p p' cs. MakePooledServer ex_env ex_opts 3 = Inr p \<and> takeUserConns 3 p = Inr (p', cs) \<and> mset cs = mset [0, 1, 2]"
proof -
  have d: "\<forall>a k. e_dial ex_env a k = None" by (simp add: ex_env_def)
  from MakePooledServer_ok [OF d, of 3 ex_opts] obtain p where
    p: "MakePooledServer ex_env ex_opts 3 = Inr p" "pool_ok p" "UserConnIndex p = 0" "srv p = newServer ex_opts False" by auto
  then have "ClientPoolSize p = 3" by (auto simp: MakePooledServer_def Let_def dialPool_all [OF d])
  with pool_round_robin [of p] p have "\<exists>p' cs. takeUserConns 3 p = Inr (p', cs) \<and> mset cs = mset [0..<3]"
    by (auto simp: newServer_def pool_ok_def)
  with p(1) show ?thesis by (auto simp: upt_rec)
qed

section \<open>The request of lab 2\<close>

definition core2 :: "PooledServer \<Rightarrow> VideoRecServiceServer \<times> int \<times> nat list \<times> nat list" where
  "core2 p = (core (srv p), ClientPoolSize p, UserClientConn p, VideoClientConn p)"

lemma core2_srv: "core2 p = core2 q \<Longrightarrow> core (srv p) = core (srv q)"
  by (simp add: core2_def)

lemma onSrv_post: "post core m (srv p) P \<Longrightarrow> post core2 (onSrv p m) p P"
  by (auto simp: post_def onSrv_def core2_def)

lemma onSrv_postO: "postO core m (srv p) P Q \<Longrightarrow> postO core2 (onSrv p m) p P Q"
  by (auto simp: postO_def onSrv_def core2_def)

lemma post_from: "post cr m t P \<Longrightarrow> cr t = cr s \<Longrightarrow> post cr m s P"
  by (auto simp: post_def)

lemma postO_from: "postO cr m t P Q \<Longrightarrow> cr t = cr s \<Longrightarrow> postO cr m s P Q"
  by (auto simp: postO_def)

lemma post_mono: "post cr m s P \<Longrightarrow> (\<And>r. P r \<Longrightarrow> P' r) \<Longrightarrow> post cr m s P'"
  by (auto simp: post_def)

lemma postO_mono:
  assumes "postO cr m s P Q" and "\<And>r. P r \<Longrightarrow> P' r"
  shows "postO cr m s P' Q"
proof -
  from assms(1) obtain s' oc where "m = Inr (s', oc)" "cr s' = cr s" "case oc of Return r \<Rightarrow> P r | Continue x \<Rightarrow> Q x"
    by (auto simp: postO_def)
  with assms(2) show ?thesis using postO_Inr [of cr "(s', oc)" s P' Q] by (cases oc) auto
qed

text \<open>What is called over one connection has the environment of that connection.\<close>

definition stale_in :: "(nat \<Rightarrow> 'c env) \<Rightarrow> status + GetTopVideosResponse \<Rightarrow> bool" where
  "stale_in penv r \<longleftrightarrow> (\<exists>c. stale_ok (penv c) r)"

lemma stale_inI [intro]: "stale_ok (penv c) r \<Longrightarrow> stale_in penv r"
  by (auto simp: stale_in_def)

lemma fetchSubscriber2_post:
  assumes "\<forall>n us. res (e_getUser env (Subscriber n) [uid]) = Inr us \<longrightarrow> Q us"
  shows "postO core (Inr (fetchSubscriber2 s env l uid)) s (stale_ok env) Q"
  by (rule postO_Inr)
    (use assms in \<open>auto simp: fetchSubscriber2_def Let_def fallback_rules fallback_post(2) [OF refl] split: sum.split\<close>)

lemma videoWorker2_cached: "cached_only env (videoWorker2 s env l ids mx i)"
  by (auto simp: videoWorker2_def Let_def GetCachedVideos_from split: sum.split option.split)

lemma videoPhase2_post:
  "VideoServiceMaxBatchSize s \<noteq> 0 \<Longrightarrow> postO core (videoPhase2 s env cf l ids) s (stale_ok env) (\<lambda>_. True)"
  by (simp add: videoPhase2_def Let_def joinPhase_post videoWorker2_cached unat_eq_0)

definition ready :: "PooledServer \<Rightarrow> bool" where
  "ready p \<longleftrightarrow> pool_ok p \<and> UserServiceMaxBatchSize (srv p) \<noteq> 0 \<and> VideoServiceMaxBatchSize (srv p) \<noteq> 0"

lemma ready_core: "core2 p = core2 q \<Longrightarrow> ready p = ready q"
proof -
  assume c: "core2 p = core2 q"
  note f = core_fields(2,3) [OF core2_srv [OF c]]
  have e: "ClientPoolSize p = ClientPoolSize q" "UserClientConn p = UserClientConn q" "VideoClientConn p = VideoClientConn q"
    using c by (simp_all add: core2_def)
  show ?thesis unfolding ready_def pool_ok_def f e by (rule refl)
qed

lemma takeConn_post:
  assumes "ready p"
  shows "\<exists>p' c. takeUserConn p = Inr (p', c) \<and> core2 p' = core2 p"
    and "\<exists>p' c. takeVideoConn p = Inr (p', c) \<and> core2 p' = core2 p"
proof -
  have ok: "pool_ok p" using assms by (simp add: ready_def)
  show "\<exists>p' c. takeUserConn p = Inr (p', c) \<and> core2 p' = core2 p"
    using takeUserConn_ok [OF ok] by (cases "isMock (srv p)") (simp_all add: takeUserConn_def core2_def)
  show "\<exists>p' c. takeVideoConn p = Inr (p', c) \<and> core2 p' = core2 p"
    using takeVideoConn_ok [OF ok] by (cases "isMock (srv p)") (simp_all add: takeVideoConn_def core2_def)
qed

lemma recommend2_post:
  assumes "ready p"
  shows "post core2 (recommend2 p penv cu l u) p (stale_in penv)"
proof (cases "SubscribedTo u = []")
  case True
  then have "post core2 (recommend2 p penv cu l u) p (stale_ok (penv cu))"
    by (auto simp: recommend2_def Let_def fallback_rules fallback_post(2) [OF refl] intro!: onSrv_post post_Inr)
  then show ?thesis by (rule post_mono) blast
next
  case False
  have mx: "UserServiceMaxBatchSize (srv p) \<noteq> 0" using assms by (simp add: ready_def)
  have rest: "post core2 (go_bind (takeVideoConn p2) (\<lambda>(p3, cv).
        andThen (onSrv p3 (videoPhase2 (srv p3) (penv cv) cf l ids)) (\<lambda>vs p4.
          Inr (p4, fresh (f vs))))) p (stale_in penv)" if c: "core2 p2 = core2 p" for p2 ids cf f
  proof -
    have "ready p2" using assms ready_core [OF c] by simp
    from takeConn_post(2) [OF this] obtain p3 cv where t: "takeVideoConn p2 = Inr (p3, cv)" "core2 p3 = core2 p2" by blast
    have c3: "core2 p3 = core2 p" using t(2) c by simp
    then have "VideoServiceMaxBatchSize (srv p3) \<noteq> 0" using assms ready_core ready_def by blast
    note v = postO_from [OF onSrv_postO [OF videoPhase2_post [OF this]] c3, of "penv cv" cf l ids]
    have "post core2 (Inr (p4, fresh (f vs))) p (stale_in penv)" if "core2 p4 = core2 p" for p4 vs
      using that stale_inI [of penv cv "fresh (f vs)"] by (auto intro!: post_Inr)
    then show ?thesis unfolding t(1) by (auto intro!: post_andThen [OF postO_mono [OF v]])
  qed
  show ?thesis
    unfolding recommend2_def Let_def using False
    by (auto intro!: post_andThen [OF postO_mono [OF onSrv_postO [OF userPhase_post [OF refl mx]]]] rest)
qed

text \<open>
  The request of lab 2 with a ready pool and a user service whose successful answers are not empty:
  it always returns, \<open>GetStats\<close> then shows one more request and the same number of active ones, the pool and
  the cached videos are unchanged, and a stale answer is empty or made of
  videos of the cache as one read of the request found it.
\<close>

theorem GetTopVideos2_accounting:
  assumes "pool_ok p" and "UserServiceMaxBatchSize (srv p) \<noteq> 0" and "VideoServiceMaxBatchSize (srv p) \<noteq> 0"
    and "\<forall>c n us. res (e_getUser (penv c) (Subscriber n) [req_UserId req]) = Inr us \<longrightarrow> us \<noteq> []"
  shows "\<exists>p' r. GetTopVideos2 p penv req = Inr (p', r) \<and>
    gs_TotalRequests (PooledGetStats q p') = gs_TotalRequests (PooledGetStats q p) + 1 \<and>
    gs_ActiveRequests (PooledGetStats q p') = gs_ActiveRequests (PooledGetStats q p) \<and>
    UserClientConn p' = UserClientConn p \<and> VideoClientConn p' = VideoClientConn p \<and>
    PooledGetCachedVideos k p' = PooledGetCachedVideos k p \<and>
    (\<forall>x. r = Inr x \<and> StaleResponse x \<and> resp_Videos x \<noteq> [] \<longrightarrow>
       (\<exists>c site vs. e_cache (penv c) site = Some vs \<and> set (resp_Videos x) \<subseteq> set vs))"
proof -
  define q1 where "q1 = p\<lparr>srv := (srv p)\<lparr>TotalRequests := TotalRequests (srv p) + 1,
    ActiveRequests := ActiveRequests (srv p) + 1\<rparr>\<rparr>"
  have rq: "ready q1" using assms(1-3) by (simp add: ready_def q1_def pool_ok_def)
  from takeConn_post(1) [OF rq] obtain p1 cu where t: "takeUserConn q1 = Inr (p1, cu)" "core2 p1 = core2 q1" by blast
  have r1: "ready p1" using rq ready_core [OF t(2)] by simp
  have "post core2 (andThen (onSrv p1 (Inr (fetchSubscriber2 (srv p1) (penv cu) l (req_UserId req)))) (\<lambda>us p2.
      go_bind (index us 0) (\<lambda>u. recommend2 p2 penv cu l u))) p1 (stale_in penv)" for l
  proof (rule post_andThen [OF postO_mono [OF onSrv_postO [OF fetchSubscriber2_post [where Q = "\<lambda>us. us \<noteq> []"]]]])
    show "\<forall>n us. res (e_getUser (penv cu) (Subscriber n) [req_UserId req]) = Inr us \<longrightarrow> us \<noteq> []" using assms(4) by blast
    show "stale_in penv r" if "stale_ok (penv cu) r" for r using that by blast
  next
    fix us :: "UserInfo list" and p2 assume c: "core2 p2 = core2 p1" and us: "us \<noteq> []"
    then have "ready p2" using r1 ready_core by blast
    from post_from [where cr = core2, OF recommend2_post [OF this] c] us
    show "post core2 (go_bind (index us 0) (\<lambda>u. recommend2 p2 penv cu l u)) p1 (stale_in penv)"
      by (cases us) (simp_all add: index_def)
  qed
  moreover have "post core2 (onSrv p1 (Inr (fallback (penv cu) AtReturn l id (Inl e) (addTotalErrors 1 (srv p1))))) p1 (stale_in penv)" for l e
    by (rule post_mono [OF onSrv_post [OF post_Inr [where P = "stale_ok (penv cu)"]]])
      (auto simp: fallback_rules fallback_post(2) [OF refl])
  moreover have "stale_in penv (Inl e)" for e using stale_inI [of penv 0 "Inl e"] by simp
  ultimately have "post core2 (GetTopVideos2_body q1 penv req) q1 (stale_in penv)"
    unfolding GetTopVideos2_body_def Let_def t(1)
    by (auto intro!: post_Inr intro: post_from [where cr = core2, OF _ t(2)])
  then obtain p' r where b: "GetTopVideos2_body q1 penv req = Inr (p', r)" "core2 p' = core2 q1" "stale_in penv r"
    by (auto simp: post_def)
  have a: "ActiveRequests (srv p) + 1 + NOT 0 = ActiveRequests (srv p)" by simp
  have st: "\<exists>c site vs. e_cache (penv c) site = Some vs \<and> set (resp_Videos x) \<subseteq> set vs"
    if "r = Inr x \<and> StaleResponse x \<and> resp_Videos x \<noteq> []" for x
    using b(3) that by (auto simp: stale_in_def from_cache_def)
  have g: "GetTopVideos2 p penv req = Inr (p'\<lparr>srv := (srv p')\<lparr>ActiveRequests := ActiveRequests (srv p') + NOT 0,
      TotalSumLatencyMs := TotalSumLatencyMs (srv p') + of_nat (e_latency (penv 0)), td := td (srv p') @ [e_latency (penv 0)]\<rparr>\<rparr>, r)"
    using b(1) by (simp add: GetTopVideos2_def Let_def q1_def)
  show ?thesis
    unfolding g using core_fields [OF core2_srv [OF b(2)]] b(2) st a
    by (auto simp: core2_def q1_def PooledGetStats_def GetStats_def PooledGetCachedVideos_def GetCachedVideos_def)
qed

theorem GetTopVideos2_accounting_witness:
  "\<exists>p p' r. MakePooledServer ex_env ex_opts 2 = Inr p \<and> GetTopVideos2 p (\<lambda>_. ex_env) ex_req = Inr (p', r) \<and>
     gs_TotalRequests (PooledGetStats length p') = 1 \<and> gs_ActiveRequests (PooledGetStats length p') = 0"
proof -
  have d: "\<forall>a k. e_dial ex_env a k = None" by (simp add: ex_env_def)
  from MakePooledServer_ok [OF d, of 2 ex_opts] obtain p where
    p: "MakePooledServer ex_env ex_opts 2 = Inr p" "pool_ok p" "srv p = newServer ex_opts False" by auto
  have "\<forall>c n us. res (e_getUser ((\<lambda>_. ex_env) c) (Subscriber n) [req_UserId ex_req]) = Inr us \<longrightarrow> us \<noteq> []"
    by (simp add: ex_env_def)
  from GetTopVideos2_accounting [OF p(2) _ _ this, of length 1] p show ?thesis
    by (auto simp: newServer_def PooledGetStats_def GetStats_def)
qed

end
