(* ===== verification/Servers.thy ===== *)
theory Servers
  imports Clients VideoRecPool
begin

text \<open>
  The server programs: \<^verbatim>\<open>user_service/server/server.go\<close>, \<^verbatim>\<open>video_service/server/server.go\<close> and \<^verbatim>\<open>video_rec_service/server/server.go\<close> of
  lab 1, and the one of lab 2 that closes its connection pool; then the recommendation service behind the logging
  middleware.  Listening and \<open>grpc.Server\<close> are parameters: an error or none for a port, and what \<open>Serve\<close> prints and
  returns for the logger and the service it was started with.
\<close>

section \<open>Starting a server\<close>

record 's serve_env =
  se_listen :: "int \<Rightarrow> string option"
  se_addr :: string
  se_serve :: "Logger \<Rightarrow> 's \<Rightarrow> console \<Rightarrow> console \<times> string option"

definition netListen :: "'s serve_env \<Rightarrow> int \<Rightarrow> unit prog" where
  "netListen env port = (case se_listen env port of Some e \<Rightarrow> logFatalf (''failed to listen: '' @ e) | None \<Rightarrow> pret ())"

definition serve :: "'s serve_env \<Rightarrow> Logger \<Rightarrow> 's \<Rightarrow> unit prog" where
  "serve env logger server =
     pbind (logPrintf (''server listening at '' @ se_addr env)) (\<lambda>_ c.
       case se_serve env logger server c of (c', None) \<Rightarrow> pret () c' | (c', Some e) \<Rightarrow> logFatalf (''failed to serve: '' @ e) c')"

subsection \<open>The backends\<close>

record backend_flags =
  bf_port :: int
  bf_seed :: int
  bf_sleepNs :: int
  bf_failureRate :: int
  bf_responseOmissionRate :: int
  bf_maxBatchSize :: int

definition default_user_flags :: backend_flags where
  "default_user_flags = \<lparr>bf_port = 8081, bf_seed = 42, bf_sleepNs = 0, bf_failureRate = 0, bf_responseOmissionRate = 0, bf_maxBatchSize = 50\<rparr>"

definition user_options :: "backend_flags \<Rightarrow> UserServiceOptions" where
  "user_options fl = \<lparr>us_Seed = bf_seed fl, us_SleepNs = bf_sleepNs fl, us_FailureRate = bf_failureRate fl,
     us_ResponseOmissionRate = bf_responseOmissionRate fl, us_MaxBatchSize = bf_maxBatchSize fl\<rparr>"

definition user_server_main :: "(int \<Rightarrow> nat \<Rightarrow> nat) \<Rightarrow> (int \<Rightarrow> 'g) \<Rightarrow> 'g gofakeit \<Rightarrow> backend_flags \<Rightarrow> influx_flags
    \<Rightarrow> (UserServiceServer \<times> 'g world) serve_env \<Rightarrow> unit prog" where
  "user_server_main src fsrc fk fl ifl env =
     pbind (netListen env (bf_port fl)) (\<lambda>_.
     pbind (MakeLogger ifl) (\<lambda>logger.
     pbind (pgo (MakeUserServiceServer src fsrc fk (user_options fl))) (\<lambda>server. serve env logger server)))"

record video_flags = backend_flags +
  vf_ttlSeconds :: int

definition default_video_flags :: video_flags where
  "default_video_flags = \<lparr>bf_port = 8082, bf_seed = 42, bf_sleepNs = 0, bf_failureRate = 0, bf_responseOmissionRate = 0, bf_maxBatchSize = 50,
     vf_ttlSeconds = 60\<rparr>"

definition video_options :: "video_flags \<Rightarrow> VideoServiceOptions" where
  "video_options fl = \<lparr>vs_Seed = bf_seed fl, vs_TtlSeconds = vf_ttlSeconds fl, vs_SleepNs = bf_sleepNs fl,
     vs_FailureRate = bf_failureRate fl, vs_ResponseOmissionRate = bf_responseOmissionRate fl, vs_MaxBatchSize = bf_maxBatchSize fl\<rparr>"

definition video_server_main :: "(int \<Rightarrow> nat \<Rightarrow> nat) \<Rightarrow> (int \<Rightarrow> 'g) \<Rightarrow> 'g gofakeit \<Rightarrow> video_flags \<Rightarrow> influx_flags
    \<Rightarrow> (VideoServiceServer \<times> 'g world) serve_env \<Rightarrow> unit prog" where
  "video_server_main src fsrc fk fl ifl env =
     pbind (netListen env (bf_port fl)) (\<lambda>_.
     pbind (MakeLogger ifl) (\<lambda>logger.
     pbind (pgo (MakeVideoServiceServer src fsrc fk (video_options fl))) (\<lambda>server. serve env logger server)))"

subsection \<open>The recommendation service\<close>

record rec_flags =
  rf_port :: int
  rf_userServiceAddr :: string
  rf_videoServiceAddr :: string
  rf_maxBatchSize :: int
  rf_disableFallback :: bool
  rf_disableRetry :: bool

definition default_rec_flags :: rec_flags where
  "default_rec_flags = \<lparr>rf_port = 8080, rf_userServiceAddr = ''[::1]:8081'', rf_videoServiceAddr = ''[::1]:8082'', rf_maxBatchSize = 50,
     rf_disableFallback = False, rf_disableRetry = False\<rparr>"

definition rec_options :: "'a rec_flags_scheme \<Rightarrow> VideoRecServiceOptions" where
  "rec_options fl = \<lparr>UserServiceAddr = rf_userServiceAddr fl, VideoServiceAddr = rf_videoServiceAddr fl, MaxBatchSize = rf_maxBatchSize fl,
     DisableFallback = rf_disableFallback fl, DisableRetry = rf_disableRetry fl\<rparr>"

text \<open>In lab 1 \<open>MakeVideoRecServiceServer\<close> returns no error.  The refresh goroutine runs beside \<open>Serve\<close>, which gets the server it works on.\<close>

definition rec_server_main :: "rec_flags \<Rightarrow> influx_flags \<Rightarrow> VideoRecServiceServer serve_env \<Rightarrow> unit prog" where
  "rec_server_main fl ifl env =
     pbind (netListen env (rf_port fl)) (\<lambda>_.
     pbind (MakeLogger ifl) (\<lambda>logger. serve env logger (MakeVideoRecServiceServer (rec_options fl))))"

text \<open>\<open>%q\<close> of an error: its text in double quotes, with the escapes of an interpreted string literal (for ASCII texts).\<close>

definition escape :: "char \<Rightarrow> string" where
  "escape ch =
     (let n = (of_char ch :: nat); hex = (\<lambda>d. if d < 10 then digit d else char_of (87 + d)) in
      if n = 34 \<or> n = 92 then [CHR 0x5C, ch]
      else if 7 \<le> n \<and> n \<le> 13 then [CHR 0x5C, ''abtnvfr'' ! (n - 7)]
      else if n < 32 \<or> n = 127 then [CHR 0x5C, CHR ''x'', hex (n div 16), hex (n mod 16)]
      else [ch])"

definition quote :: "string \<Rightarrow> string" where
  "quote s = [CHR 0x22] @ concat (map escape s) @ [CHR 0x22]"

record pool_flags = rec_flags +
  pf_clientPoolSize :: int

definition default_pool_flags :: pool_flags where
  "default_pool_flags = \<lparr>rf_port = 8080, rf_userServiceAddr = ''[::1]:8081'', rf_videoServiceAddr = ''[::1]:8082'', rf_maxBatchSize = 50,
     rf_disableFallback = False, rf_disableRetry = False, pf_clientPoolSize = 4\<rparr>"

text \<open>The calls deferred by the loop of \<open>main\<close>; the connections are looked up when the \<open>defer\<close> is executed.\<close>

datatype closed = CloseUser nat | CloseVideo nat

fun deferCloses :: "PooledServer \<Rightarrow> nat \<Rightarrow> nat \<Rightarrow> closed list go" where
  "deferCloses p i 0 = Inr []"
| "deferCloses p i (Suc n) =
     go_bind (index (UserClientConn p) (int i)) (\<lambda>u.
     go_bind (index (VideoClientConn p) (int i)) (\<lambda>v.
     go_bind (deferCloses p (Suc i) n) (\<lambda>ds. Inr (CloseUser u # CloseVideo v # ds))))"

text \<open>The result is the calls that were made when \<open>main\<close> returned, last deferred first; an exit makes none.\<close>

definition pool_server_main :: "'c env \<Rightarrow> pool_flags \<Rightarrow> influx_flags \<Rightarrow> PooledServer serve_env \<Rightarrow> closed list prog" where
  "pool_server_main cenv fl ifl env =
     pbind (netListen env (rf_port fl)) (\<lambda>_.
     pbind (MakeLogger ifl) (\<lambda>logger.
     case MakePooledServer cenv (rec_options fl) (pf_clientPoolSize fl) of
       Inl e \<Rightarrow> logFatalf (''failed to start server: '' @ quote (err_text e))
     | Inr server \<Rightarrow>
         pbind (pgo (deferCloses server 0 (nat (pf_clientPoolSize fl)))) (\<lambda>ds.
         pbind (serve env logger server) (\<lambda>_. pret (rev ds)))))"

section \<open>What the programs do\<close>

definition influx_ok :: "influx_flags \<Rightarrow> bool" where
  "influx_ok ifl \<longleftrightarrow> influxDbUrl ifl = [] \<or> influxDbAuthToken ifl \<noteq> [] \<and> influxMeasurement ifl \<noteq> []"

definition the_logger :: "influx_flags \<Rightarrow> Logger" where
  "the_logger ifl = (if influxDbUrl ifl = [] then StderrLogger
     else MakeInfluxLogger (influxDbUrl ifl) (influxDbAuthToken ifl) (influxOrg ifl) (influxBucket ifl) (influxMeasurement ifl))"

lemma MakeLogger_eq:
  "MakeLogger ifl = (if influx_ok ifl then pret (the_logger ifl) else logFatalf ''Must set --influx-token and --influx-measurement'')"
  by (simp add: MakeLogger_def influx_ok_def the_logger_def)

lemma pbind_pgo [simp]: "pbind (pgo (Inr x)) k = k x"
  by (rule ext) (simp add: pbind_def pgo_def)

lemma netListen_eq: "se_listen env port = None \<Longrightarrow> netListen env port = pret ()"
  by (simp add: netListen_def)

lemma deferCloses_eq:
  assumes "pool_ok p" and "i + n \<le> nat (ClientPoolSize p)"
  shows "deferCloses p i n = Inr (concat (map (\<lambda>k. [CloseUser k, CloseVideo k]) [i..<i + n]))"
  using assms(2)
proof (induction n arbitrary: i)
  case (Suc n)
  then have "index (UserClientConn p) (int i) = Inr i" "index (VideoClientConn p) (int i) = Inr i"
    using assms(1) by (simp_all add: pool_ok_def index_def)
  with Suc.IH [of "Suc i"] Suc.prems show ?case by (simp add: upt_conv_Cons)
qed simp

text \<open>
  The program of lab 2 closes what it opened.  With a free port, valid logging flags and connections that can be made, it
  serves with a pool of \<open>max(1, client-pool-size)\<close> connections per backend and never panics.  If \<open>Serve\<close> returns without an error, every
  connection is closed exactly once, in the reverse of the order in which they were deferred, when the flag is at least 1;
  when it is not, the one connection of each pool is not closed.  If \<open>Serve\<close> fails the program exits and closes nothing.
\<close>

theorem pool_main_closes:
  assumes "se_listen env (rf_port fl) = None" and "influx_ok ifl" and "\<forall>a k. e_dial cenv a k = None" and "pf_clientPoolSize fl < 2 ^ 63"
  shows "\<exists>p. MakePooledServer cenv (rec_options fl) (pf_clientPoolSize fl) = Inr p \<and> pool_ok p \<and>
    ClientPoolSize p = max 1 (pf_clientPoolSize fl) \<and>
    pool_server_main cenv fl ifl env c =
      (case se_serve env (the_logger ifl) p (c\<lparr>stderr := stderr c @ [Text (logline (''server listening at '' @ se_addr env))]\<rparr>) of
         (c', None) \<Rightarrow> (c', Finished (rev (concat (map (\<lambda>k. [CloseUser k, CloseVideo k]) [0..<nat (pf_clientPoolSize fl)]))))
       | (c', Some e) \<Rightarrow> logFatalf (''failed to serve: '' @ e) c')"
proof -
  let ?n = "pf_clientPoolSize fl"
  from MakePooledServer_ok [OF assms(3,4)] obtain p where p: "MakePooledServer cenv (rec_options fl) ?n = Inr p" "pool_ok p" by blast
  then have n: "ClientPoolSize p = max 1 ?n" by (auto simp: MakePooledServer_def Let_def split: sum.splits)
  have "deferCloses p 0 (nat ?n) = Inr (concat (map (\<lambda>k. [CloseUser k, CloseVideo k]) [0..<nat ?n]))"
    using deferCloses_eq [OF p(2), of 0 "nat ?n"] n by simp
  then have "pool_server_main cenv fl ifl env = pbind (serve env (the_logger ifl) p)
      (\<lambda>_. pret (rev (concat (map (\<lambda>k. [CloseUser k, CloseVideo k]) [0..<nat ?n]))))"
    using p(1) assms(1,2) by (simp add: pool_server_main_def netListen_eq MakeLogger_eq)
  with p n show ?thesis
    by (auto simp: serve_def pbind_def pret_def logPrintf_def logFatalf_def split: prod.split option.split)
qed

definition idle_serve :: "'s serve_env" where
  "idle_serve = \<lparr>se_listen = (\<lambda>_. None), se_addr = ''[::]:8080'', se_serve = (\<lambda>_ _ c. (c, None))\<rparr>"

theorem pool_main_closes_witness:
  "snd (pool_server_main ex_env (default_pool_flags\<lparr>pf_clientPoolSize := 2\<rparr>) default_influx_flags idle_serve quiet_console) =
     Finished [CloseVideo 1, CloseUser 1, CloseVideo 0, CloseUser 0]"
proof -
  let ?fl = "default_pool_flags\<lparr>pf_clientPoolSize := 2\<rparr>"
  have "se_listen (idle_serve :: PooledServer serve_env) (rf_port ?fl) = None" "influx_ok default_influx_flags"
      "\<forall>a k. e_dial ex_env a k = None" "pf_clientPoolSize ?fl < 2 ^ 63"
    by (simp_all add: idle_serve_def influx_ok_def default_influx_flags_def ex_env_def)
  from pool_main_closes [OF this, of quiet_console] show ?thesis by (auto simp: idle_serve_def upt_rec)
qed

text \<open>The backends start whenever the port and the logging flags allow it, with the options the flags say.\<close>

lemma user_server_starts:
  assumes "se_listen env (bf_port fl) = None" and "influx_ok ifl"
  shows "\<exists>s w. user_server_main src fsrc fk fl ifl env = serve env (the_logger ifl) (s, w) \<and> us_options s = user_options fl"
proof -
  from MakeUserServiceServer_ok [of src fsrc fk "user_options fl"] obtain s w where
    "MakeUserServiceServer src fsrc fk (user_options fl) = Inr (s, w)" "us_options s = user_options fl" by blast
  then show ?thesis using assms by (intro exI [of _ s] exI [of _ w]) (simp add: user_server_main_def netListen_eq MakeLogger_eq)
qed

section \<open>Requests behind the middleware\<close>

text \<open>A sequence of requests: the clock before and after, the peer, and what the handler gets.\<close>

fun serveAll :: "(net_addr option \<Rightarrow> bool \<Rightarrow> rat \<Rightarrow> console \<Rightarrow> console) \<Rightarrow> ('q \<Rightarrow> 's \<Rightarrow> ('s \<times> (status + 'r)) go)
    \<Rightarrow> (int \<times> int \<times> net_addr option \<times> 'q) list \<Rightarrow> 's \<times> console \<Rightarrow> (('s \<times> console) \<times> (status + 'r) list) go" where
  "serveAll logRequest handler [] sc = Inr (sc, [])"
| "serveAll logRequest handler ((t0, t1, ctx, q) # xs) sc =
     go_bind (MakeMiddleware logRequest t0 t1 ctx handler q sc) (\<lambda>(sc', r).
     go_bind (serveAll logRequest handler xs sc') (\<lambda>(sc'', rs). Inr (sc'', r # rs)))"

context request_logger
begin

lemma serveAll_logged:
  assumes "\<And>q s. q \<in> (\<lambda>(t0, t1, ctx, q). q) ` set xs \<Longrightarrow> I s \<Longrightarrow> \<exists>s' r. handler q s = Inr (s', r) \<and> I s' \<and> cnt s' = (cnt s + 1 :: u64)" and "I s"
  shows "\<exists>s' c' rs. serveAll logRequest handler xs (s, c) = Inr ((s', c'), rs) \<and> length rs = length xs \<and> I s' \<and>
    cnt s' = cnt s + of_nat (length xs) \<and> stdout c' = stdout c \<and>
    stderr c' = stderr c @ map2 (\<lambda>(t0, t1, ctx, q) r. Processed (peerHost ctx) (isl r) (of_int (t1 - t0) / 1000)) xs rs"
  using assms
proof (induction xs arbitrary: s c)
  case (Cons x xs)
  obtain t0 t1 ctx q where x: "x = (t0, t1, ctx, q)" by (cases x)
  have "q \<in> (\<lambda>(t0, t1, ctx, q). q) ` set (x # xs)" by (simp add: x)
  from Cons.prems(1) [OF this Cons.prems(2)] obtain s1 r where
    h: "handler q s = Inr (s1, r)" "I s1" "cnt s1 = cnt s + 1" by blast
  let ?c1 = "logRequest ctx (isl r) (of_int (t1 - t0) / 1000) c"
  have m: "MakeMiddleware logRequest t0 t1 ctx handler q (s, c) = Inr ((s1, ?c1), r)" using h(1) by (simp add: transparent)
  from Cons.IH [of s1 ?c1] Cons.prems(1) h(2) obtain s2 c2 rs where
    "serveAll logRequest handler xs (s1, ?c1) = Inr ((s2, c2), rs)" "length rs = length xs" "I s2" "cnt s2 = cnt s1 + of_nat (length xs)"
    "stdout c2 = stdout ?c1"
    "stderr c2 = stderr ?c1 @ map2 (\<lambda>(t0, t1, ctx, q) r. Processed (peerHost ctx) (isl r) (of_int (t1 - t0) / 1000)) xs rs" by auto
  then show ?case using h(3) by (simp add: x m one_line no_print)
qed simp

end

definition sizes_ok :: "VideoRecServiceServer \<Rightarrow> bool" where
  "sizes_ok s \<longleftrightarrow> UserServiceMaxBatchSize s \<noteq> 0 \<and> VideoServiceMaxBatchSize s \<noteq> 0"

lemma GetTopVideos_counts:
  assumes "sizes_ok s" and "\<forall>n us. res (e_getUser env (Subscriber n) [req_UserId req]) = Inr us \<longrightarrow> us \<noteq> []"
  shows "\<exists>s' r. GetTopVideos s env req = Inr (s', r) \<and> (sizes_ok s' \<and> ActiveRequests s' = ActiveRequests s) \<and> TotalRequests s' = TotalRequests s + 1"
proof -
  let ?s1 = "s\<lparr>TotalRequests := TotalRequests s + 1, ActiveRequests := ActiveRequests s + 1\<rparr>"
  from body_post [of ?s1 ?s1 env req] assms obtain s2 r where
    "GetTopVideos_body ?s1 env req = Inr (s2, r)" "core s2 = core ?s1" by (auto simp: post_def sizes_ok_def)
  with core_fields [of s2 ?s1] assms(1) show ?thesis by (simp add: GetTopVideos_def sizes_ok_def)
qed



end
